(* ===== verification/Prelude.thy ===== *)
theory Prelude
  imports Main "HOL-Library.Char_ord" "HOL-Library.List_Lexorder"
begin

text \<open>
  Shared vocabulary of the development: Go strings as byte lists and the functions of
  the Go packages \<open>strings\<close> and \<open>sort\<close> that the program uses, the first-error loop
  that every validation function of the program is written as, and the generic lemmas the
  component theories share.

  A Go \<open>string\<close> is a byte sequence, \<open>len(s)\<close> counts bytes and \<open><\<close> compares bytes
  lexicographically; a \<open>string\<close> of HOL is a list of 8-bit characters with the same
  length and, with the two order theories imported here, the same order. A Go \<open>error\<close>
  result is an option: \<open>None\<close> is \<open>nil\<close>.
\<close>

named_theorems str_simps \<open>facts about the modelled string functions\<close>
named_theorems loop_simps \<open>facts about the first-error loops\<close>

section \<open>Strings\<close>

text \<open>\<open>strings.HasPrefix\<close>, \<open>strings.TrimPrefix\<close>, \<open>strings.HasSuffix\<close> and
  \<open>strings.TrimSuffix\<close>.\<close>

fun has_prefix :: "string \<Rightarrow> string \<Rightarrow> bool" where
  "has_prefix s [] = True"
| "has_prefix [] (p # ps) = False"
| "has_prefix (c # s) (p # ps) = (c = p \<and> has_prefix s ps)"

definition trim_prefix :: "string \<Rightarrow> string \<Rightarrow> string" where
  "trim_prefix s p = (if has_prefix s p then drop (length p) s else s)"

definition has_suffix :: "string \<Rightarrow> string \<Rightarrow> bool" where
  "has_suffix s p = has_prefix (rev s) (rev p)"

definition trim_suffix :: "string \<Rightarrow> string \<Rightarrow> string" where
  "trim_suffix s p = (if has_suffix s p then take (length s - length p) s else s)"

lemma has_prefix_iff: "has_prefix s p \<longleftrightarrow> (\<exists>t. s = p @ t)"
  by (induction s p rule: has_prefix.induct) auto

lemma has_prefix_append [simp]: "has_prefix (p @ t) p"
  by (auto simp: has_prefix_iff)

lemma has_suffix_iff: "has_suffix s p \<longleftrightarrow> (\<exists>t. s = t @ p)"
  unfolding has_suffix_def has_prefix_iff
  by (metis rev_append rev_rev_ident)

text \<open>\<open>strings.Contains\<close> and \<open>strings.Index\<close> (the first position, \<open>None\<close> for -1).\<close>

fun str_index :: "string \<Rightarrow> string \<Rightarrow> nat option" where
  "str_index s p =
     (if has_prefix s p then Some 0
      else case s of [] \<Rightarrow> None | c # cs \<Rightarrow> map_option Suc (str_index cs p))"

definition str_contains :: "string \<Rightarrow> string \<Rightarrow> bool" where
  "str_contains s p = (str_index s p \<noteq> None)"

declare str_index.simps [simp del]

lemma str_index_Nil: "str_index [] p = (if p = [] then Some 0 else None)"
  by (cases p) (simp_all add: str_index.simps)

lemma str_index_Cons:
  "str_index (c # s) p = (if has_prefix (c # s) p then Some 0 else map_option Suc (str_index s p))"
  by (subst str_index.simps) simp

lemma str_index_SomeD: "str_index s p = Some i \<Longrightarrow> i + length p \<le> length s \<and> take (length p) (drop i s) = p"
proof (induction s arbitrary: i)
  case Nil
  then show ?case by (auto simp: str_index_Nil split: if_splits)
next
  case (Cons c s)
  show ?case
  proof (cases "has_prefix (c # s) p")
    case True
    with Cons.prems show ?thesis
      by (auto simp: str_index_Cons has_prefix_iff dest: arg_cong [of _ _ length])
  next
    case False
    with Cons.prems obtain j where "str_index s p = Some j" "i = Suc j"
      by (auto simp: str_index_Cons)
    with Cons.IH [of j] show ?thesis by auto
  qed
qed

lemma str_contains_iff: "str_contains s p \<longleftrightarrow> (\<exists>u v. s = u @ p @ v)"
proof (induction s)
  case Nil
  show ?case by (auto simp: str_contains_def str_index_Nil)
next
  case (Cons c s)
  have "str_contains (c # s) p \<longleftrightarrow> has_prefix (c # s) p \<or> str_contains s p"
    by (auto simp: str_contains_def str_index_Cons)
  also have "\<dots> \<longleftrightarrow> (\<exists>u v. c # s = u @ p @ v)"
    unfolding Cons.IH has_prefix_iff by (metis append_Cons append_Nil neq_Nil_conv list.inject)
  finally show ?case .
qed

lemma str_contains_char: "str_contains s [c] \<longleftrightarrow> c \<in> set s"
  by (auto simp: str_contains_iff in_set_conv_decomp)

text \<open>
  \<open>strings.Split(s, sep)\<close> and \<open>strings.SplitN(s, sep, 2)\<close> for the one-byte separators
  the program uses.
\<close>

fun split_on :: "char \<Rightarrow> string \<Rightarrow> string list" where
  "split_on c [] = [[]]"
| "split_on c (x # xs) =
     (if x = c then [] # split_on c xs
      else case split_on c xs of [] \<Rightarrow> [[x]] | w # ws \<Rightarrow> (x # w) # ws)"

fun split2 :: "char \<Rightarrow> string \<Rightarrow> string list" where
  "split2 c [] = [[]]"
| "split2 c (x # xs) =
     (if x = c then [[], xs]
      else case split2 c xs of [] \<Rightarrow> [[x]] | w # ws \<Rightarrow> (x # w) # ws)"

text \<open>\<open>strings.Join(ws, sep)\<close>.\<close>

fun join :: "string \<Rightarrow> string list \<Rightarrow> string" where
  "join sep [] = []"
| "join sep [w] = w"
| "join sep (w # v # ws) = w @ sep @ join sep (v # ws)"

lemma split_on_not_Nil [simp]: "split_on c s \<noteq> []"
  by (induction s) (auto split: list.splits)

lemma join_split_on [str_simps]: "join [c] (split_on c s) = s"
proof (induction s)
  case (Cons x s)
  obtain w ws where w: "split_on c s = w # ws"
    using split_on_not_Nil by (meson neq_Nil_conv)
  show ?case using Cons w by (cases ws) auto
qed simp

lemma split_on_no_sep: "w \<in> set (split_on c s) \<Longrightarrow> c \<notin> set w"
  by (induction s arbitrary: w) (auto split: list.splits if_splits)

lemma split_on_id: "c \<notin> set w \<Longrightarrow> split_on c w = [w]"
  by (induction w) auto

lemma split_on_append: "c \<notin> set w \<Longrightarrow> split_on c (w @ c # s) = w # split_on c s"
  by (induction w) auto

lemma split_on_sep [str_simps]: "split_on c (p @ c # q) = split_on c p @ split_on c q"
  by (induction p) (auto split: list.splits)

lemma split_on_join:
  assumes "ws \<noteq> []" and "\<forall>w\<in>set ws. c \<notin> set w"
  shows "split_on c (join [c] ws) = ws"
  using assms by (induction "[c]" ws rule: join.induct) (auto simp: split_on_id split_on_append)

lemma split2_id: "c \<notin> set s \<Longrightarrow> split2 c s = [s]"
  by (induction s) auto

lemma split2_append [str_simps]: "c \<notin> set k \<Longrightarrow> split2 c (k @ c # v) = [k, v]"
  by (induction k) auto

lemma split2_cases:
  obtains (no_sep) "c \<notin> set s" "split2 c s = [s]"
    | (sep) k v where "s = k @ c # v" "c \<notin> set k" "split2 c s = [k, v]"
proof (cases "c \<in> set s")
  case True
  then obtain k v where "s = k @ c # v" "c \<notin> set k" by (meson split_list_first)
  then show ?thesis using sep by (simp add: split2_append)
qed (use no_sep split2_id in auto)

text \<open>
  White space is a property of code points (\<open>unicode.IsSpace\<close>). The bytes of a code point
  start with a byte that no other encoded code point contains after its first byte, so a
  string holds a space exactly if the encoding of one occurs in it; a byte that is not
  valid UTF-8 decodes to a character that is no space.
\<close>

definition space_encodings :: "string list" where
  "space_encodings =
     map (\<lambda>c. [c]) [CHR 0x09, CHR 0x0A, CHR 0x0B, CHR 0x0C, CHR 0x0D, CHR 0x20] @
     [[CHR 0xC2, CHR 0x85], [CHR 0xC2, CHR 0xA0], [CHR 0xE1, CHR 0x9A, CHR 0x80]] @
     map (\<lambda>c. [CHR 0xE2, CHR 0x80, c])
       [CHR 0x80, CHR 0x81, CHR 0x82, CHR 0x83, CHR 0x84, CHR 0x85, CHR 0x86, CHR 0x87,
        CHR 0x88, CHR 0x89, CHR 0x8A, CHR 0xA8, CHR 0xA9, CHR 0xAF] @
     [[CHR 0xE2, CHR 0x81, CHR 0x9F], [CHR 0xE3, CHR 0x80, CHR 0x80]]"

fun has_space :: "string \<Rightarrow> bool" where
  "has_space [] = False"
| "has_space (c # s) = (list_ex (has_prefix (c # s)) space_encodings \<or> has_space s)"

lemma has_space_ascii: "c \<in> set s \<Longrightarrow> c \<in> {CHR 0x20, CHR 0x09, CHR 0x0A, CHR 0x0D} \<Longrightarrow> has_space s"
proof (induction s)
  case (Cons d s)
  have "[c] \<in> set space_encodings" using Cons.prems(2) by (auto simp: space_encodings_def)
  then have "list_ex (has_prefix (c # s)) space_encodings"
    by (auto simp: list_ex_iff has_prefix_iff intro!: bexI [of _ "[c]"])
  with Cons show ?case by auto
qed simp

text \<open>The verb \<^verbatim>\<open>%d\<close> of a natural number.\<close>

fun show_nat :: "nat \<Rightarrow> string" where
  "show_nat n =
     (if n < 10 then [char_of (48 + n)] else show_nat (n div 10) @ [char_of (48 + n mod 10)])"

declare show_nat.simps [simp del]

definition show_int :: "int \<Rightarrow> string" where
  "show_int n = (if n < 0 then ''-'' @ show_nat (nat (- n)) else show_nat (nat n))"

section \<open>Loops that stop at the first error\<close>

text \<open>
  \<open>for i, x := range xs { if err := f(i, x); err != nil { return err } }\<close>: the error
  of the first element that has one. The index counts from \<open>i\<close>.
\<close>

fun first_err_from :: "nat \<Rightarrow> (nat \<Rightarrow> 'a \<Rightarrow> 'e option) \<Rightarrow> 'a list \<Rightarrow> 'e option" where
  "first_err_from i f [] = None"
| "first_err_from i f (x # xs) =
     (case f i x of Some e \<Rightarrow> Some e | None \<Rightarrow> first_err_from (Suc i) f xs)"

abbreviation first_err_idx :: "(nat \<Rightarrow> 'a \<Rightarrow> 'e option) \<Rightarrow> 'a list \<Rightarrow> 'e option" where
  "first_err_idx \<equiv> first_err_from 0"

definition first_err :: "('a \<Rightarrow> 'e option) \<Rightarrow> 'a list \<Rightarrow> 'e option" where
  "first_err f = first_err_from 0 (\<lambda>_. f)"

text \<open>\<open>if err := a; err != nil { return err }; return b\<close>.\<close>

definition or_err :: "'e option \<Rightarrow> 'e option \<Rightarrow> 'e option" where
  "or_err a b = (case a of Some e \<Rightarrow> Some e | None \<Rightarrow> b)"

text \<open>\<open>if cond { return e }; return nil\<close>.\<close>

definition err_if :: "bool \<Rightarrow> 'e \<Rightarrow> 'e option" where
  "err_if c e = (if c then Some e else None)"

lemma or_err_None [loop_simps, simp]: "or_err a b = None \<longleftrightarrow> a = None \<and> b = None"
  by (auto simp: or_err_def split: option.splits)

lemma or_err_Some [loop_simps]:
  "or_err a b = Some e \<longleftrightarrow> a = Some e \<or> (a = None \<and> b = Some e)"
  by (auto simp: or_err_def split: option.splits)

lemma or_err_simps [simp]: "or_err None b = b" "or_err (Some e) b = Some e"
  by (simp_all add: or_err_def)

lemma err_if_None [loop_simps, simp]: "err_if c e = None \<longleftrightarrow> \<not> c"
  by (simp add: err_if_def)

lemma err_if_Some [loop_simps, simp]: "err_if c e = Some e' \<longleftrightarrow> c \<and> e' = e"
  by (auto simp: err_if_def)

lemma first_err_from_None:
  "first_err_from i f xs = None \<longleftrightarrow> (\<forall>j<length xs. f (i + j) (xs ! j) = None)"
proof (induction xs arbitrary: i)
  case (Cons x xs)
  have "(\<forall>j<length (x # xs). f (i + j) ((x # xs) ! j) = None) \<longleftrightarrow>
        f i x = None \<and> (\<forall>j<length xs. f (Suc i + j) (xs ! j) = None)"
    by (auto simp: less_Suc_eq_0_disj)
  with Cons show ?case by (auto split: option.splits)
qed simp

lemma first_err_idx_None [loop_simps]:
  "first_err_idx f xs = None \<longleftrightarrow> (\<forall>j<length xs. f j (xs ! j) = None)"
  by (simp add: first_err_from_None)

text \<open>Where acceptance of an element does not depend on its index.\<close>

lemma first_err_idx_None_set:
  assumes "\<And>i x. f i x = None \<longleftrightarrow> P x"
  shows "first_err_idx f xs = None \<longleftrightarrow> (\<forall>x\<in>set xs. P x)"
  by (simp add: first_err_idx_None assms all_set_conv_all_nth)

lemma first_err_Nil [simp]: "first_err f [] = None"
  by (simp add: first_err_def)

lemma first_err_from_const: "first_err_from i (\<lambda>_. f) xs = first_err_from 0 (\<lambda>_. f) xs"
  by (induction xs arbitrary: i) (auto split: option.splits, metis)

lemma first_err_Cons [simp]: "first_err f (x # xs) = or_err (f x) (first_err f xs)"
  by (auto simp: first_err_def or_err_def first_err_from_const [of "Suc 0"] split: option.splits)

lemma first_err_None [loop_simps, simp]: "first_err f xs = None \<longleftrightarrow> (\<forall>x\<in>set xs. f x = None)"
  by (induction xs) auto

lemma first_err_SomeD: "first_err f xs = Some e \<Longrightarrow> \<exists>x\<in>set xs. f x = Some e"
  by (induction xs) (auto simp: or_err_Some)

text \<open>
  Where the loop ranges over a Go map the order of its elements is not fixed. Whether an
  error is returned does not depend on the order.
\<close>

lemma first_err_order: "set xs = set ys \<Longrightarrow> first_err f xs = None \<longleftrightarrow> first_err f ys = None"
  by simp

section \<open>Lists\<close>

text \<open>Every list without a duplicate seen by a forward scan: the \<open>map[string]bool\<close> pattern.\<close>

fun scan_dups :: "'a list \<Rightarrow> 'a list \<Rightarrow> 'a list" where
  "scan_dups seen [] = []"
| "scan_dups seen (x # xs) =
     (if x \<in> set seen then x # scan_dups seen xs else scan_dups (x # seen) xs)"

lemma scan_dups_Nil: "scan_dups seen xs = [] \<longleftrightarrow> distinct xs \<and> set xs \<inter> set seen = {}"
  by (induction xs arbitrary: seen) auto

lemma length_pos_obtain:
  assumes "s \<noteq> []"
  obtains c cs where "s = c # cs"
  using assms by (cases s) auto

lemma set_takeD: "x \<in> set (take n xs) \<Longrightarrow> x \<in> set xs"
  by (meson in_set_takeD)

lemma map_of_distinct_iff:
  "distinct (map fst m) \<Longrightarrow> map_of m k = Some v \<longleftrightarrow> (k, v) \<in> set m"
  by (metis map_of_eq_Some_iff)

end
