(* ===== verification/Duration.thy ===== *)
theory Duration
  imports Prelude "HOL-Library.Signed_Division"
begin

text \<open>
  \<open>ptypes.Duration\<close> (the vendored \<open>ptypes/duration.go\<close>): the conversion of a protobuf
  duration to a \<open>time.Duration\<close>, a signed 64-bit count of nanoseconds. The arithmetic is
  Go's: multiplication and addition wrap around, division truncates towards zero.
\<close>

record duration_pb =
  Seconds :: int
  Nanos :: int

definition in_int64 :: "int \<Rightarrow> bool" where
  "in_int64 x \<longleftrightarrow> - (2 ^ 63) \<le> x \<and> x < 2 ^ 63"

definition wrap64 :: "int \<Rightarrow> int" where
  "wrap64 x = (x + 2 ^ 63) mod 2 ^ 64 - 2 ^ 63"

definition maxSeconds :: int where "maxSeconds = 315576000000"
definition Second :: int where "Second = 1000000000"

datatype duration_error = SecondsOutOfRange | NanosOutOfRange | DifferentSigns | OutOfRange

definition validateDuration :: "duration_pb \<Rightarrow> duration_error option" where
  "validateDuration d =
     (if Seconds d < - maxSeconds \<or> Seconds d > maxSeconds then Some SecondsOutOfRange
      else if Nanos d \<le> - 1000000000 \<or> Nanos d \<ge> 1000000000 then Some NanosOutOfRange
      else if (Seconds d < 0 \<and> Nanos d > 0) \<or> (Seconds d > 0 \<and> Nanos d < 0)
        then Some DifferentSigns
      else None)"

definition ptypes_Duration :: "duration_pb \<Rightarrow> duration_error + int" where
  "ptypes_Duration p =
     (case validateDuration p of
        Some e \<Rightarrow> Inl e
      | None \<Rightarrow>
          (let d = wrap64 (Seconds p * Second)
           in if d sdiv Second \<noteq> Seconds p then Inl OutOfRange
              else if Nanos p \<noteq> 0 then
                (let d' = wrap64 (d + Nanos p)
                 in if (d' < 0) \<noteq> (Nanos p < 0) then Inl OutOfRange else Inr d')
              else Inr d))"

section \<open>Wrap-around\<close>

lemma wrap64_in: "in_int64 (wrap64 x)"
  by (simp add: in_int64_def wrap64_def)

lemma wrap64_id: "in_int64 x \<Longrightarrow> wrap64 x = x"
  by (simp add: in_int64_def wrap64_def)

lemma wrap64_cong: "\<exists>k. wrap64 x = x + k * 2 ^ 64"
proof -
  have "wrap64 x = x + (- ((x + 2 ^ 63) div 2 ^ 64)) * 2 ^ 64"
    by (simp add: wrap64_def minus_div_mult_eq_mod [symmetric])
  then show ?thesis by blast
qed

lemma sdiv_remainder:
  assumes "0 < (l::int)"
  shows "\<bar>d - d sdiv l * l\<bar> < l"
proof (cases "0 \<le> d")
  case True
  then have "d - d sdiv l * l = d mod l"
    using assms by (simp add: signed_divide_int_def sgn_if minus_div_mult_eq_mod)
  then show ?thesis using assms by simp
next
  case False
  then have "d - d sdiv l * l = - ((- d) mod l)"
    using assms by (simp add: signed_divide_int_def sgn_if minus_div_mult_eq_mod [symmetric])
  then show ?thesis using assms by simp
qed

lemma sdiv_mult: "0 < (l::int) \<Longrightarrow> s * l sdiv l = s"
  using nonzero_mult_div_cancel_right [of l "- s"]
  by (cases "0 \<le> s") (auto simp: signed_divide_int_def sgn_if abs_mult mult_less_0_iff zero_less_mult_iff)

text \<open>The overflow test by dividing back is exact.\<close>

lemma sdiv_back: "wrap64 (s * Second) sdiv Second = s \<longleftrightarrow> in_int64 (s * Second)"
proof
  assume "in_int64 (s * Second)"
  then show "wrap64 (s * Second) sdiv Second = s" by (simp add: wrap64_id sdiv_mult Second_def)
next
  assume a: "wrap64 (s * Second) sdiv Second = s"
  obtain k where k: "wrap64 (s * Second) = s * Second + k * 2 ^ 64" using wrap64_cong by blast
  have "\<bar>wrap64 (s * Second) - s * Second\<bar> < Second"
    using sdiv_remainder [of Second "wrap64 (s * Second)"] a by (simp add: Second_def)
  with k have "\<bar>k\<bar> * 2 ^ 64 < 1000000000" by (simp add: Second_def abs_mult)
  then have "k = 0" by (cases "k = 0") auto
  with k wrap64_in [of "s * Second"] show "in_int64 (s * Second)" by simp
qed

text \<open>So is the sign test after the nanoseconds are added.\<close>

lemma wrap64_shift: "wrap64 (x + 2 ^ 64) = wrap64 x"
proof -
  have "(x + 2 ^ 64 + 2 ^ 63) mod 2 ^ 64 = (x + 2 ^ 63) mod (2 ^ 64 :: int)"
    using mod_add_self2 [of "x + 2 ^ 63" "2 ^ 64"] by (simp only: ac_simps)
  then show ?thesis by (simp only: wrap64_def)
qed

lemma wrap64_over: "2 ^ 63 \<le> x \<Longrightarrow> x < 2 ^ 64 \<Longrightarrow> wrap64 x = x - 2 ^ 64"
  using wrap64_shift [of "x - 2 ^ 64"] wrap64_id [of "x - 2 ^ 64"] by (simp add: in_int64_def)

lemma wrap64_under: "x < - (2 ^ 63) \<Longrightarrow> - (2 ^ 64) \<le> x \<Longrightarrow> wrap64 x = x + 2 ^ 64"
  using wrap64_shift [of x] wrap64_id [of "x + 2 ^ 64"] by (simp add: in_int64_def)

lemma sign_test:
  assumes "in_int64 s" "n \<noteq> 0" "\<bar>n\<bar> < 1000000000" "s < 0 \<longrightarrow> n \<le> 0" "s > 0 \<longrightarrow> n \<ge> 0"
  shows "(wrap64 (s + n) < 0) = (n < 0) \<longleftrightarrow> in_int64 (s + n)"
proof (cases "in_int64 (s + n)")
  case True
  then show ?thesis using assms by (cases "s < 0"; cases "s = 0") (auto simp: wrap64_id)
next
  case False
  then consider "2 ^ 63 \<le> s + n" | "s + n < - (2 ^ 63)" by (auto simp: in_int64_def)
  then show ?thesis
  proof cases
    case 1
    with assms have n: "n > 0" "s + n < 2 ^ 64" by (auto simp: in_int64_def)
    with False 1 show ?thesis using wrap64_over [of "s + n"] by simp
  next
    case 2
    with assms have n: "n < 0" "s + n \<ge> - (2 ^ 64)" by (auto simp: in_int64_def)
    with False 2 show ?thesis using wrap64_under [of "s + n"] by simp
  qed
qed

text \<open>The exact value the code computes whenever it returns one.\<close>

lemma ptypes_Duration_Inr:
  "ptypes_Duration p = Inr d \<longleftrightarrow>
     validateDuration p = None \<and> in_int64 (Seconds p * Second) \<and>
     in_int64 (Seconds p * Second + Nanos p) \<and> d = Seconds p * Second + Nanos p"
  (is "?L \<longleftrightarrow> ?R")
proof (cases "validateDuration p = None \<and> in_int64 (Seconds p * Second)")
  case False
  then show ?thesis by (auto simp: ptypes_Duration_def sdiv_back split: option.splits)
next
  case True
  let ?s = "Seconds p * Second" and ?n = "Nanos p"
  have w: "wrap64 ?s = ?s" using True by (simp add: wrap64_id)
  have sg: "Second > 0" by (simp add: Second_def)
  have v: "\<bar>?n\<bar> < 1000000000" "?s < 0 \<Longrightarrow> ?n \<le> 0" "?s > 0 \<Longrightarrow> ?n \<ge> 0"
    using True sg by (auto simp: validateDuration_def mult_less_0_iff zero_less_mult_iff split: if_splits)
  show ?thesis
  proof (cases "?n = 0")
    case True
    then show ?thesis
      using \<open>_ \<and> _\<close> w sdiv_back [of "Seconds p"] by (auto simp: ptypes_Duration_def Let_def)
  next
    case False
    have "(wrap64 (?s + ?n) < 0) = (?n < 0) \<longleftrightarrow> in_int64 (?s + ?n)"
      using sign_test [of ?s ?n] True False v by blast
    then show ?thesis
      using True False w sdiv_back [of "Seconds p"] wrap64_id [of "?s + ?n"]
      by (auto simp: ptypes_Duration_def Let_def)
  qed
qed

section \<open>Properties\<close>

text \<open>
  \<open>ptypes.Duration\<close> returns a duration exactly if the message is valid and the count of
  nanoseconds fits in 64 bits, and then it is that count: the two wrap-around tests (the
  division back and the sign comparison) catch every overflow and nothing else.
\<close>

theorem ptypes_Duration_exact:
  "ptypes_Duration p = Inr d \<longleftrightarrow>
     validateDuration p = None \<and> d = Seconds p * 1000000000 + Nanos p \<and>
     in_int64 (Seconds p * 1000000000) \<and> in_int64 d"
  using ptypes_Duration_Inr [of p d] by (auto simp: Second_def)

end
