(* ===== verification/Build_Proto.thy ===== *)
theory Build_Proto
  imports Duration "HOL-Library.AList"
begin

text \<open>
  The build request (the generated \<open>cloudbuild.pb.go\<close>), with the fields the program reads
  or writes. A nil pointer is \<open>None\<close>. A Go map is a list of bindings; its order stands
  for the order in which the map is ranged over, which Go leaves open.

  The two image lists are the one place where the program lets two fields share a slice:
  validation stores the slice of \<open>.images\<close> in \<open>.artifacts.images\<close> (and back), and
  substitution writes through both. These two fields are therefore references into a
  store of slices: \<open>None\<close> is the nil slice, \<open>Some a\<close> the slice whose elements are
  \<open>h a\<close> in the store \<open>h\<close>.
\<close>

type_synonym strmap = "(string \<times> string) list"
type_synonym slice_ref = "nat option"
type_synonym store = "nat \<Rightarrow> string list"

definition deref :: "store \<Rightarrow> slice_ref \<Rightarrow> string list" where
  "deref h r = (case r of None \<Rightarrow> [] | Some a \<Rightarrow> h a)"

datatype revision = NoRevision | BranchName string | TagName string | CommitSha string

record repo_source =
  RepoName :: string
  Revision :: revision
  RepoDir :: string

datatype source = StorageSource | RepoSource repo_source

record source_provenance =
  ResolvedRepoSource :: "repo_source option"

record volume_pb =
  v_Name :: string
  v_Path :: string

record build_step =
  s_Name :: string
  s_Env :: "string list"
  s_Args :: "string list"
  s_Dir :: string
  s_Id :: string
  s_WaitFor :: "string list"
  s_Entrypoint :: string
  s_SecretEnv :: "string list"
  s_Volumes :: "volume_pb list"
  s_Timeout :: "duration_pb option"

record artifact_objects =
  Location :: string
  Paths :: "string list"

record artifacts =
  a_Images :: slice_ref
  a_Objects :: "artifact_objects option"

datatype substitution_option = MUST_MATCH | ALLOW_LOOSE

record build_options =
  SubstitutionOption :: substitution_option
  o_Env :: "string list"
  o_SecretEnv :: "string list"
  o_Volumes :: "volume_pb list"

record secret =
  KmsKeyName :: string
  SecretEnvs :: strmap

record build =
  Id :: string
  ProjectId :: string
  Source :: "source option"
  Steps :: "build_step list"
  Timeout :: "duration_pb option"
  Images :: slice_ref
  Tags :: "string list"
  Artifacts :: "artifacts option"
  LogsBucket :: string
  SourceProvenance :: "source_provenance option"
  Options :: "build_options option"
  Substitutions :: strmap
  Secrets :: "secret list"

section \<open>The nil-safe getters\<close>

fun GetBranchName :: "revision \<Rightarrow> string" where
  "GetBranchName (BranchName s) = s"
| "GetBranchName _ = []"

fun GetTagName :: "revision \<Rightarrow> string" where
  "GetTagName (TagName s) = s"
| "GetTagName _ = []"

fun GetCommitSha :: "revision \<Rightarrow> string" where
  "GetCommitSha (CommitSha s) = s"
| "GetCommitSha _ = []"

definition GetRepoSource :: "build \<Rightarrow> repo_source option" where
  "GetRepoSource b = (case Source b of Some (RepoSource rs) \<Rightarrow> Some rs | _ \<Rightarrow> None)"

definition GetResolvedRepoSource :: "build \<Rightarrow> repo_source option" where
  "GetResolvedRepoSource b =
     (case SourceProvenance b of Some sp \<Rightarrow> ResolvedRepoSource sp | None \<Rightarrow> None)"

definition options_Env :: "build \<Rightarrow> string list" where
  "options_Env b = (case Options b of Some o' \<Rightarrow> o_Env o' | None \<Rightarrow> [])"

definition options_SecretEnv :: "build \<Rightarrow> string list" where
  "options_SecretEnv b = (case Options b of Some o' \<Rightarrow> o_SecretEnv o' | None \<Rightarrow> [])"

definition options_Volumes :: "build \<Rightarrow> volume_pb list" where
  "options_Volumes b = (case Options b of Some o' \<Rightarrow> o_Volumes o' | None \<Rightarrow> [])"

definition options_SubstitutionOption :: "build \<Rightarrow> substitution_option" where
  "options_SubstitutionOption b =
     (case Options b of Some o' \<Rightarrow> SubstitutionOption o' | None \<Rightarrow> MUST_MATCH)"

definition artifacts_images :: "build \<Rightarrow> slice_ref" where
  "artifacts_images b = (case Artifacts b of Some a \<Rightarrow> a_Images a | None \<Rightarrow> None)"

definition artifacts_objects :: "build \<Rightarrow> artifact_objects option" where
  "artifacts_objects b = (case Artifacts b of Some a \<Rightarrow> a_Objects a | None \<Rightarrow> None)"

text \<open>The status of a step; the program uses these values of the enum.\<close>

datatype step_status = QUEUED | WORKING | SUCCESS | FAILURE | TIMEOUT | CANCELLED

text \<open>A build with nothing in it, for concrete examples.\<close>

definition empty_step :: build_step where
  "empty_step = \<lparr>s_Name = [], s_Env = [], s_Args = [], s_Dir = [], s_Id = [], s_WaitFor = [],
     s_Entrypoint = [], s_SecretEnv = [], s_Volumes = [], s_Timeout = None\<rparr>"

definition empty_build :: build where
  "empty_build = \<lparr>Id = [], ProjectId = [], Source = None, Steps = [], Timeout = None,
     Images = None, Tags = [], Artifacts = None, LogsBucket = [], SourceProvenance = None,
     Options = None, Substitutions = [], Secrets = []\<rparr>"

lemma deref_simps [simp]: "deref h None = []" "deref h (Some a) = h a"
  by (simp_all add: deref_def)

text \<open>
  The map written by a range over another map (\<open>for k, v := range m { r[k] = v }\<close>) does
  not depend on the order of the range, because the keys of a map are distinct.
\<close>

lemma map_add_order:
  assumes "distinct (map fst m)" "distinct (map fst m')" "set m = set m'"
  shows "r ++ map_of m = r ++ map_of m'"
proof -
  have "map_of m = map_of m'" using assms by (metis map_of_inject_set)
  then show ?thesis by simp
qed

end
