(* ===== verification/GoRegexp.thy ===== *)
theory GoRegexp
  imports Prelude
begin

text \<open>
  The part of Go's package \<open>regexp\<close> that the program uses. A pattern is a tree \<open>re\<close>;
  \<open>bt\<close> is the leftmost-first search of Go (the priorities of a backtracking matcher,
  with submatches), \<open>find_submatch\<close> is \<open>FindStringSubmatchIndex\<close>, and \<open>accepts\<close> runs
  partial derivatives and is what \<open>MatchString\<close> answers for a pattern anchored at both
  ends. Both are proved to decide the language \<open>matches\<close> of the pattern, and the locale
  \<open>regexp_engine\<close> is the interface the validation code relies on.

  The classes of the program's patterns are ASCII classes or complements of them, so
  matching bytes and matching code points give the same answers.
\<close>

section \<open>Patterns\<close>

type_synonym ranges = "(char \<times> char) list"

datatype re =
  Eps
| Bol                 \<comment> \<open>\<^verbatim>\<open>^\<close>\<close>
| Eol                 \<comment> \<open>\<^verbatim>\<open>$\<close>\<close>
| Cls bool ranges     \<comment> \<open>a class; \<open>Cls True\<close> is the complemented class\<close>
| Cat re re
| Alt re re           \<comment> \<open>the left alternative is preferred\<close>
| Star re             \<comment> \<open>greedy\<close>
| UpTo nat re         \<comment> \<open>\<^verbatim>\<open>r{0,n}\<close>, greedy\<close>
| Cap nat re          \<comment> \<open>a capturing group\<close>

definition in_cls :: "ranges \<Rightarrow> char \<Rightarrow> bool" where
  "in_cls rs c = list_ex (\<lambda>(a, b). a \<le> c \<and> c \<le> b) rs"

lemma in_cls_mono: "in_cls rs c \<Longrightarrow> set rs \<subseteq> set rs' \<Longrightarrow> in_cls rs' c"
  by (auto simp: in_cls_def list_ex_iff)

definition opt :: "re \<Rightarrow> re" where "opt r = Alt r Eps"
definition plus1 :: "re \<Rightarrow> re" where "plus1 r = Cat r (Star r)"
definition chr :: "char \<Rightarrow> re" where "chr c = Cls False [(c, c)]"

fun lit :: "string \<Rightarrow> re" where
  "lit [] = Eps"
| "lit [c] = chr c"
| "lit (c # cs) = Cat (chr c) (lit cs)"

fun anchor_free :: "re \<Rightarrow> bool" where
  "anchor_free Bol = False"
| "anchor_free Eol = False"
| "anchor_free (Cat r s) = (anchor_free r \<and> anchor_free s)"
| "anchor_free (Alt r s) = (anchor_free r \<and> anchor_free s)"
| "anchor_free (Star r) = anchor_free r"
| "anchor_free (UpTo n r) = anchor_free r"
| "anchor_free (Cap k r) = anchor_free r"
| "anchor_free _ = True"

text \<open>The language of a pattern without anchors.\<close>

inductive matches :: "re \<Rightarrow> string \<Rightarrow> bool" where
  m_Eps: "matches Eps []"
| m_Cls: "in_cls rs c \<noteq> neg \<Longrightarrow> matches (Cls neg rs) [c]"
| m_Cat: "matches r u \<Longrightarrow> matches s v \<Longrightarrow> matches (Cat r s) (u @ v)"
| m_Alt1: "matches r u \<Longrightarrow> matches (Alt r s) u"
| m_Alt2: "matches s u \<Longrightarrow> matches (Alt r s) u"
| m_Star0: "matches (Star r) []"
| m_Star1: "matches r u \<Longrightarrow> matches (Star r) v \<Longrightarrow> matches (Star r) (u @ v)"
| m_UpTo0: "matches (UpTo n r) []"
| m_UpTo1: "matches r u \<Longrightarrow> matches (UpTo n r) v \<Longrightarrow> matches (UpTo (Suc n) r) (u @ v)"
| m_Cap: "matches r u \<Longrightarrow> matches (Cap k r) u"

inductive_simps matches_Eps [simp]: "matches Eps u"
inductive_simps matches_Bol [simp]: "matches Bol u"
inductive_simps matches_Eol [simp]: "matches Eol u"
inductive_simps matches_Cls: "matches (Cls neg rs) u"
inductive_simps matches_Cat: "matches (Cat r s) u"
inductive_simps matches_Alt [simp]: "matches (Alt r s) u"
inductive_simps matches_Cap [simp]: "matches (Cap k r) u"
inductive_cases matches_StarE: "matches (Star r) u"
inductive_cases matches_UpToE: "matches (UpTo n r) u"

lemma matches_Cls_single [simp]: "matches (Cls neg rs) [c] \<longleftrightarrow> in_cls rs c \<noteq> neg"
  by (auto simp: matches_Cls)

lemma matches_chr [simp]: "matches (chr c) u \<longleftrightarrow> u = [c]"
  by (auto simp: chr_def matches_Cls in_cls_def)

lemma matches_lit [simp]: "matches (lit w) u \<longleftrightarrow> u = w"
  by (induction w arbitrary: u rule: lit.induct) (auto simp: matches_Cat)

lemma matches_opt [simp]: "matches (opt r) u \<longleftrightarrow> matches r u \<or> u = []"
  by (auto simp: opt_def)

lemma matches_Star_append:
  "matches (Star r) u \<Longrightarrow> matches (Star r) v \<Longrightarrow> matches (Star r) (u @ v)"
proof (induction "Star r" u rule: matches.induct)
  case (m_Star1 u w)
  then show ?case using matches.m_Star1 [of r u "w @ v"] by simp
qed simp

lemma matches_Star_Cls:
  "matches (Star (Cls neg rs)) u \<longleftrightarrow> (\<forall>c\<in>set u. in_cls rs c \<noteq> neg)" (is "?L u \<longleftrightarrow> ?R u")
proof
  assume "?L u"
  then show "?R u"
    by (induction "Star (Cls neg rs)" u rule: matches.induct) (auto simp: matches_Cls)
next
  assume "?R u"
  then show "?L u"
  proof (induction u)
    case (Cons c u)
    then have "matches (Cls neg rs) [c]" "matches (Star (Cls neg rs)) u" by simp_all
    from m_Star1 [OF this] show ?case by simp
  qed (rule m_Star0)
qed

lemma matches_Cat_Cls [simp]:
  "matches (Cat (Cls neg rs) r) u \<longleftrightarrow> (\<exists>c t. u = c # t \<and> in_cls rs c \<noteq> neg \<and> matches r t)"
proof -
  have "matches (Cat (Cls neg rs) r) u \<longleftrightarrow> (\<exists>a t. u = a @ t \<and> matches (Cls neg rs) a \<and> matches r t)"
    by (auto simp: matches_Cat)
  also have "\<dots> \<longleftrightarrow> (\<exists>c t. u = [c] @ t \<and> in_cls rs c \<noteq> neg \<and> matches r t)"
    unfolding matches_Cls by blast
  finally show ?thesis by simp
qed

lemma matches_Cat_chr [simp]:
  "matches (Cat (chr a) r) u \<longleftrightarrow> (\<exists>t. u = a # t \<and> matches r t)"
  by (auto simp: chr_def in_cls_def)

lemma matches_plus1_Cls:
  "matches (plus1 (Cls neg rs)) u \<longleftrightarrow> u \<noteq> [] \<and> (\<forall>c\<in>set u. in_cls rs c \<noteq> neg)"
  by (cases u) (auto simp: plus1_def matches_Star_Cls)

lemma matches_UpTo_mono: "matches (UpTo m r) u \<Longrightarrow> m \<le> n \<Longrightarrow> matches (UpTo n r) u"
proof (induction "UpTo m r" u arbitrary: m n rule: matches.induct)
  case (m_UpTo1 u k v)
  then obtain n' where "n = Suc n'" "k \<le> n'" by (cases n) auto
  with m_UpTo1 show ?case by (auto intro: matches.m_UpTo1)
qed (rule m_UpTo0)

lemma matches_UpTo_Cls:
  "matches (UpTo n (Cls neg rs)) u \<longleftrightarrow> length u \<le> n \<and> (\<forall>c\<in>set u. in_cls rs c \<noteq> neg)"
  (is "?L n u \<longleftrightarrow> ?R n u")
proof
  assume "?L n u"
  then show "?R n u"
    by (induction "UpTo n (Cls neg rs)" u arbitrary: n rule: matches.induct) (auto simp: matches_Cls)
next
  assume "?R n u"
  then show "?L n u"
  proof (induction u arbitrary: n)
    case (Cons c u)
    then obtain n' where n: "n = Suc n'" "length u \<le> n'" by (cases n) auto
    with Cons have "matches (Cls neg rs) [c]" "matches (UpTo n' (Cls neg rs)) u" by simp_all
    from m_UpTo1 [OF this] n show ?case by simp
  qed (rule m_UpTo0)
qed

section \<open>Leftmost-first search with submatches\<close>

text \<open>
  A state is the position in the input, the rest of the input and the groups recorded so
  far (group, start, end; the latest first). \<open>bt r\<close> lists the ways to match \<open>r\<close> from a
  state in Go's order of preference. An iteration of a star must consume a byte, which is
  what keeps \<open>regexp\<close> from looping.
\<close>

type_synonym caps = "(nat \<times> nat \<times> nat) list"
type_synonym mstate = "nat \<times> string \<times> caps"

fun weight :: "re \<Rightarrow> nat" where
  "weight (Cat r s) = Suc (weight r + weight s)"
| "weight (Alt r s) = Suc (weight r + weight s)"
| "weight (Star r) = Suc (weight r)"
| "weight (UpTo n r) = Suc (n + weight r)"
| "weight (Cap k r) = Suc (weight r)"
| "weight _ = 0"

function bt :: "re \<Rightarrow> mstate \<Rightarrow> mstate list" where
  "bt Eps st = [st]"
| "bt Bol st = (if fst st = 0 then [st] else [])"
| "bt Eol st = (if fst (snd st) = [] then [st] else [])"
| "bt (Cls neg rs) st = (case st of (i, xs, c) \<Rightarrow>
     (case xs of [] \<Rightarrow> []
      | x # ys \<Rightarrow> if in_cls rs x \<noteq> neg then [(Suc i, ys, c)] else []))"
| "bt (Cat r s) st = concat (map (bt s) (bt r st))"
| "bt (Alt r s) st = bt r st @ bt s st"
| "bt (Star r) st =
     concat (map (\<lambda>st'. if length (fst (snd st')) < length (fst (snd st)) then bt (Star r) st' else [])
       (bt r st)) @ [st]"
| "bt (UpTo n r) st =
     (case n of 0 \<Rightarrow> [st] | Suc m \<Rightarrow> concat (map (bt (UpTo m r)) (bt r st)) @ [st])"
| "bt (Cap k r) st = map (\<lambda>(j, ys, c). (j, ys, (k, fst st, j) # c)) (bt r st)"
  by pat_completeness auto
termination
  by (relation "measures [\<lambda>(r, st). weight r, \<lambda>(r, st). length (fst (snd st))]") auto

declare bt.simps(7,8) [simp del]

lemma bt_Star_set:
  "x \<in> set (bt (Star r) st) \<longleftrightarrow> x = st \<or>
     (\<exists>y\<in>set (bt r st). length (fst (snd y)) < length (fst (snd st)) \<and> x \<in> set (bt (Star r) y))"
  by (subst bt.simps(7)) (auto split: if_splits)

lemma bt_UpTo_set:
  "x \<in> set (bt (UpTo n r) st) \<longleftrightarrow> x = st \<or>
     (\<exists>m. n = Suc m \<and> (\<exists>y\<in>set (bt r st). x \<in> set (bt (UpTo m r) y)))"
  by (subst bt.simps(8)) (auto split: nat.splits)

text \<open>
  \<open>FindStringSubmatchIndex\<close>: the first match at the leftmost position that has one, as
  its start, its end and its groups.
\<close>

fun find_at :: "re \<Rightarrow> nat \<Rightarrow> string \<Rightarrow> (nat \<times> nat \<times> caps) option" where
  "find_at r i s =
     (case bt r (i, s, []) of
        (j, ys, c) # _ \<Rightarrow> Some (i, j, c)
      | [] \<Rightarrow> (case s of [] \<Rightarrow> None | x # xs \<Rightarrow> find_at r (Suc i) xs))"

declare find_at.simps [simp del]

definition find_submatch :: "re \<Rightarrow> string \<Rightarrow> (nat \<times> nat \<times> caps) option" where
  "find_submatch r s = find_at r 0 s"

definition slice :: "string \<Rightarrow> nat \<Rightarrow> nat \<Rightarrow> string" where
  "slice s a b = take (b - a) (drop a s)"

text \<open>Every match of \<open>bt\<close> is a word of the language, read where the state points.\<close>

lemma bt_sound:
  assumes "anchor_free r" "(j, ys, c') \<in> set (bt r (i, xs, c))"
  shows "\<exists>u. xs = u @ ys \<and> j = i + length u \<and> matches r u"
  using assms
proof (induction r "(i, xs, c)" arbitrary: i xs c j ys c' rule: bt.induct)
  case (4 neg rs)
  then show ?case by (auto split: list.splits if_splits intro!: m_Cls)
next
  case (5 r s)
  then obtain i1 xs1 c1 where a: "(i1, xs1, c1) \<in> set (bt r (i, xs, c))"
      "(j, ys, c') \<in> set (bt s (i1, xs1, c1))" by force
  from "5.hyps"(1) [OF _ a(1)] "5.prems" obtain u
    where "xs = u @ xs1" "i1 = i + length u" "matches r u" by auto
  moreover from "5.hyps"(2) [OF a(1) _ a(2)] "5.prems" obtain v
    where "xs1 = v @ ys" "j = i1 + length v" "matches s v" by auto
  ultimately show ?case by (intro exI [of _ "u @ v"]) (auto intro: m_Cat)
next
  case (6 r s)
  then show ?case by (fastforce intro: m_Alt1 m_Alt2)
next
  case (7 r)
  show ?case
  proof (cases "(j, ys, c') = (i, xs, c)")
    case True
    then show ?thesis by (auto intro: m_Star0)
  next
    case False
    with "7.prems" obtain i1 xs1 c1 where a: "(i1, xs1, c1) \<in> set (bt r (i, xs, c))"
        "length xs1 < length xs" "(j, ys, c') \<in> set (bt (Star r) (i1, xs1, c1))"
      by (auto simp: bt_Star_set [of _ r "(i, xs, c)"])
    from "7.hyps"(1) [OF _ a(1)] "7.prems" obtain u
      where "xs = u @ xs1" "i1 = i + length u" "matches r u" by auto
    moreover from "7.hyps"(2) [OF a(1) _ _ a(3)] a(2) "7.prems" obtain v
      where "xs1 = v @ ys" "j = i1 + length v" "matches (Star r) v" by auto
    ultimately show ?thesis by (intro exI [of _ "u @ v"]) (auto intro: m_Star1)
  qed
next
  case (8 n r)
  show ?case
  proof (cases "(j, ys, c') = (i, xs, c)")
    case True
    then show ?thesis by (auto intro: m_UpTo0)
  next
    case False
    with "8.prems" obtain m i1 xs1 c1 where a: "n = Suc m" "(i1, xs1, c1) \<in> set (bt r (i, xs, c))"
        "(j, ys, c') \<in> set (bt (UpTo m r) (i1, xs1, c1))"
      by (auto simp: bt_UpTo_set [of _ n r])
    from "8.hyps"(1) [OF a(1) _ a(2)] "8.prems" obtain u
      where "xs = u @ xs1" "i1 = i + length u" "matches r u" by auto
    moreover from "8.hyps"(2) [OF a(1,2) _ a(3)] "8.prems" obtain v
      where "xs1 = v @ ys" "j = i1 + length v" "matches (UpTo m r) v" by auto
    ultimately show ?thesis using a(1) by (intro exI [of _ "u @ v"]) (auto intro: m_UpTo1)
  qed
next
  case (9 k r)
  then show ?case by (fastforce intro: m_Cap)
qed (auto intro: matches.intros)

lemma bt_complete:
  "matches r u \<Longrightarrow> \<exists>c'. (i + length u, ys, c') \<in> set (bt r (i, u @ ys, c))"
proof (induction arbitrary: i ys c rule: matches.induct)
  case (m_Cat r u s v)
  from m_Cat.IH(1) [of i "v @ ys" c] obtain c1
    where c1: "(i + length u, v @ ys, c1) \<in> set (bt r (i, u @ v @ ys, c))" by auto
  from m_Cat.IH(2) [of "i + length u" ys c1] c1 show ?case by (force simp: add.assoc)
next
  case (m_Star1 r u v)
  show ?case
  proof (cases "u = []")
    case True
    with m_Star1.IH(2) [of i ys c] show ?thesis by simp
  next
    case False
    from m_Star1.IH(1) [of i "v @ ys" c] obtain c1
      where c1: "(i + length u, v @ ys, c1) \<in> set (bt r (i, u @ v @ ys, c))" by auto
    from m_Star1.IH(2) [of "i + length u" ys c1] obtain c2
      where "(i + length (u @ v), ys, c2) \<in> set (bt (Star r) (i + length u, v @ ys, c1))"
      by (auto simp: add.assoc)
    with c1 False show ?thesis
      by (intro exI [of _ c2]) (auto simp: bt_Star_set [of _ r "(i, u @ v @ ys, c)"] intro!: bexI [OF _ c1])
  qed
next
  case (m_UpTo1 r u n v)
  from m_UpTo1.IH(1) [of i "v @ ys" c] obtain c1
    where c1: "(i + length u, v @ ys, c1) \<in> set (bt r (i, u @ v @ ys, c))" by auto
  from m_UpTo1.IH(2) [of "i + length u" ys c1] obtain c2
    where "(i + length (u @ v), ys, c2) \<in> set (bt (UpTo n r) (i + length u, v @ ys, c1))"
    by (auto simp: add.assoc)
  with c1 show ?case
    by (intro exI [of _ c2]) (auto simp: bt_UpTo_set [of _ "Suc n"] intro!: bexI [OF _ c1])
next
  case (m_Alt1 r u s)
  from m_Alt1.IH [of i ys c] show ?case by auto
next
  case (m_Alt2 s u r)
  from m_Alt2.IH [of i ys c] show ?case by auto
next
  case (m_UpTo0 n r)
  show ?case by (rule exI [of _ c], subst bt_UpTo_set) simp
next
  case (m_Star0 r)
  show ?case by (rule exI [of _ c], subst bt_Star_set) simp
next
  case (m_Cap r u k)
  from m_Cap.IH [of i ys c] show ?case by force
qed auto

section \<open>Matching by partial derivatives\<close>

fun nullable :: "re \<Rightarrow> bool" where
  "nullable Eps = True"
| "nullable (Cat r s) = (nullable r \<and> nullable s)"
| "nullable (Alt r s) = (nullable r \<or> nullable s)"
| "nullable (Star r) = True"
| "nullable (UpTo n r) = True"
| "nullable (Cap k r) = nullable r"
| "nullable _ = False"

fun mkCat :: "re \<Rightarrow> re \<Rightarrow> re" where
  "mkCat Eps s = s"
| "mkCat r s = Cat r s"

fun pd :: "char \<Rightarrow> re \<Rightarrow> re list" where
  "pd c (Cls neg rs) = (if in_cls rs c \<noteq> neg then [Eps] else [])"
| "pd c (Cat r s) = map (\<lambda>r'. mkCat r' s) (pd c r) @ (if nullable r then pd c s else [])"
| "pd c (Alt r s) = pd c r @ pd c s"
| "pd c (Star r) = map (\<lambda>r'. mkCat r' (Star r)) (pd c r)"
| "pd c (UpTo n r) = (case n of 0 \<Rightarrow> [] | Suc m \<Rightarrow> map (\<lambda>r'. mkCat r' (UpTo m r)) (pd c r))"
| "pd c (Cap k r) = pd c r"
| "pd c _ = []"

fun run_pd :: "re list \<Rightarrow> string \<Rightarrow> bool" where
  "run_pd rs [] = list_ex nullable rs"
| "run_pd rs (c # cs) = run_pd (remdups (concat (map (pd c) rs))) cs"

definition accepts :: "re \<Rightarrow> string \<Rightarrow> bool" where
  "accepts r s = run_pd [r] s"

lemma nullable_matches: "nullable r \<longleftrightarrow> matches r []"
  by (induction r) (auto simp: matches_Cat matches_Cls intro: m_Star0 m_UpTo0)

lemma matches_mkCat: "matches (mkCat r s) u \<longleftrightarrow> matches (Cat r s) u"
  by (cases r) (auto simp: matches_Cat)

lemma matches_Star_Cons:
  "matches (Star r) (c # s) \<longleftrightarrow> (\<exists>u v. s = u @ v \<and> matches r (c # u) \<and> matches (Star r) v)"
proof
  assume "matches (Star r) (c # s)"
  then show "\<exists>u v. s = u @ v \<and> matches r (c # u) \<and> matches (Star r) v"
    by (induction "Star r" "c # s" rule: matches.induct) (auto simp: append_eq_Cons_conv)
next
  assume "\<exists>u v. s = u @ v \<and> matches r (c # u) \<and> matches (Star r) v"
  then show "matches (Star r) (c # s)" using m_Star1 by fastforce
qed

lemma matches_UpTo_Cons:
  "matches (UpTo n r) (c # s) \<longleftrightarrow>
     (\<exists>m u v. n = Suc m \<and> s = u @ v \<and> matches r (c # u) \<and> matches (UpTo m r) v)"
proof
  assume "matches (UpTo n r) (c # s)"
  then show "\<exists>m u v. n = Suc m \<and> s = u @ v \<and> matches r (c # u) \<and> matches (UpTo m r) v"
  proof (induction "UpTo n r" "c # s" arbitrary: n rule: matches.induct)
    case (m_UpTo1 u k v)
    show ?case
    proof (cases u)
      case Nil
      with m_UpTo1 obtain m u' v' where "k = Suc m" "s = u' @ v'" "matches r (c # u')"
        "matches (UpTo m r) v'" by auto
      moreover from this(4) have "matches (UpTo k r) v'"
        using \<open>k = Suc m\<close> by (auto intro: matches_UpTo_mono)
      ultimately show ?thesis by auto
    next
      case (Cons a w)
      with m_UpTo1 show ?thesis by auto
    qed
  qed
next
  assume "\<exists>m u v. n = Suc m \<and> s = u @ v \<and> matches r (c # u) \<and> matches (UpTo m r) v"
  then show "matches (UpTo n r) (c # s)" using m_UpTo1 by fastforce
qed

lemma matches_pd: "matches r (c # s) \<longleftrightarrow> (\<exists>r'\<in>set (pd c r). matches r' s)"
proof (induction r arbitrary: s)
  case (Cls neg rs)
  show ?case by (auto simp: matches_Cls)
next
  case (Cat r1 r2)
  have "matches (Cat r1 r2) (c # s) \<longleftrightarrow>
      (\<exists>u v. s = u @ v \<and> matches r1 (c # u) \<and> matches r2 v) \<or> (matches r1 [] \<and> matches r2 (c # s))"
    by (auto simp: matches_Cat Cons_eq_append_conv)
  also have "\<dots> \<longleftrightarrow> (\<exists>r'\<in>set (pd c (Cat r1 r2)). matches r' s)"
    by (simp add: Cat.IH nullable_matches matches_mkCat matches_Cat bex_Un ex_disj_distrib) blast
  finally show ?case .
next
  case (Star r)
  show ?case by (simp add: matches_Star_Cons Star.IH matches_mkCat matches_Cat) blast
next
  case (UpTo n r)
  show ?case
    by (cases n; simp add: matches_UpTo_Cons UpTo.IH matches_mkCat matches_Cat) blast
qed auto

lemma run_pd_matches: "run_pd rs s \<longleftrightarrow> (\<exists>r\<in>set rs. matches r s)"
  by (induction s arbitrary: rs) (auto simp: nullable_matches list_ex_iff matches_pd)

lemma accepts_matches: "accepts r s \<longleftrightarrow> matches r s"
  by (simp add: accepts_def run_pd_matches)

section \<open>The interface of the matcher\<close>

text \<open>
  The validation code asks one question of a compiled pattern: does it match the whole
  string. \<open>engine r s\<close> is the answer for the pattern \<^verbatim>\<open>^r$\<close>; the law is that it decides
  the language. The lemmas are what the callers use.
\<close>

locale regexp_engine =
  fixes engine :: "re \<Rightarrow> string \<Rightarrow> bool"
  assumes engine_decides: "anchor_free r \<Longrightarrow> engine r s \<longleftrightarrow> matches r s"
begin

lemma engine_plus_class:
  "engine (plus1 (Cls neg rs)) s \<longleftrightarrow> s \<noteq> [] \<and> (\<forall>c\<in>set s. in_cls rs c \<noteq> neg)"
proof (subst engine_decides)
  show "anchor_free (plus1 (Cls neg rs))" by (simp add: plus1_def)
qed (rule matches_plus1_Cls)

lemma engine_prefixed_plus_class:
  "engine (Cat (chr a) (plus1 (Cls neg rs))) s \<longleftrightarrow>
     (\<exists>t. s = a # t \<and> t \<noteq> [] \<and> (\<forall>c\<in>set t. in_cls rs c \<noteq> neg))"
proof (subst engine_decides)
  show "anchor_free (Cat (chr a) (plus1 (Cls neg rs)))" by (simp add: chr_def plus1_def)
qed (auto simp: matches_plus1_Cls)

lemma engine_class_class_plus:
  "engine (Cat (Cls n1 r1) (plus1 (Cls n2 r2))) s \<longleftrightarrow>
     (\<exists>c t. s = c # t \<and> in_cls r1 c \<noteq> n1 \<and> t \<noteq> [] \<and> (\<forall>c\<in>set t. in_cls r2 c \<noteq> n2))"
proof (subst engine_decides)
  show "anchor_free (Cat (Cls n1 r1) (plus1 (Cls n2 r2)))" by (simp add: plus1_def)
qed (auto simp: matches_plus1_Cls)

lemma engine_class_upto:
  "engine (Cat (Cls n1 r1) (UpTo n (Cls n2 r2))) s \<longleftrightarrow>
     (\<exists>c t. s = c # t \<and> in_cls r1 c \<noteq> n1 \<and> length t \<le> n \<and> (\<forall>c\<in>set t. in_cls r2 c \<noteq> n2))"
  by (subst engine_decides) (auto simp: matches_UpTo_Cls)

end

text \<open>Both matchers implement it: the derivatives, and the search with the anchored pattern.\<close>

interpretation deriv_engine: regexp_engine accepts
  by unfold_locales (simp add: accepts_matches)

definition search_full :: "re \<Rightarrow> string \<Rightarrow> bool" where
  "search_full r s = (find_submatch (Cat Bol (Cat r Eol)) s \<noteq> None)"

lemma bt_anchored_Nil: "i \<noteq> 0 \<Longrightarrow> bt (Cat Bol r) (i, s, c) = []"
  by simp

lemma find_at_Bol_pos: "i \<noteq> 0 \<Longrightarrow> find_at (Cat Bol r) i s = None"
  by (induction s arbitrary: i) (simp_all add: find_at.simps)

lemma find_submatch_Bol:
  "find_submatch (Cat Bol r) s =
     (case bt r (0, s, []) of [] \<Rightarrow> None | (j, ys, c) # _ \<Rightarrow> Some (0, j, c))"
  by (auto simp: find_submatch_def find_at.simps [of _ 0] find_at_Bol_pos split: list.splits)

lemma search_full_matches:
  assumes "anchor_free r"
  shows "search_full r s \<longleftrightarrow> matches r s"
proof -
  have "search_full r s \<longleftrightarrow> concat (map (bt Eol) (bt r (0, s, []))) \<noteq> []"
    by (simp add: search_full_def find_submatch_Bol del: concat_eq_Nil_conv split: list.splits)
  also have "\<dots> \<longleftrightarrow> (\<exists>st\<in>set (bt r (0, s, [])). fst (snd st) = [])"
    by auto
  also have "\<dots> \<longleftrightarrow> matches r s"
    using bt_sound [OF assms, of _ "[]" _ 0 s "[]"] bt_complete [of r s 0 "[]" "[]"] by force
  finally show ?thesis .
qed

interpretation search_engine: regexp_engine search_full
  by unfold_locales (rule search_full_matches)

text \<open>So the two agree, and either may evaluate \<open>MatchString\<close>.\<close>

lemma accepts_search_full: "anchor_free r \<Longrightarrow> accepts r s = search_full r s"
  by (simp add: deriv_engine.engine_decides search_engine.engine_decides)

section \<open>What the groups hold\<close>

fun cap_groups :: "re \<Rightarrow> (nat \<times> re) list" where
  "cap_groups (Cat r s) = cap_groups r @ cap_groups s"
| "cap_groups (Alt r s) = cap_groups r @ cap_groups s"
| "cap_groups (Star r) = cap_groups r"
| "cap_groups (UpTo n r) = cap_groups r"
| "cap_groups (Cap k r) = (k, r) # cap_groups r"
| "cap_groups _ = []"

text \<open>A recorded group is a piece of the input that its own pattern matches.\<close>

definition good_cap :: "(nat \<times> re) set \<Rightarrow> string \<Rightarrow> nat \<times> nat \<times> nat \<Rightarrow> bool" where
  "good_cap R s x \<longleftrightarrow>
     (\<exists>k a b r. x = (k, a, b) \<and> (k, r) \<in> R \<and> a \<le> b \<and> b \<le> length s \<and> matches r (slice s a b))"

text \<open>The state stands at position \<open>i\<close> of the input.\<close>

definition at :: "string \<Rightarrow> mstate \<Rightarrow> bool" where
  "at s st \<longleftrightarrow> fst st \<le> length s \<and> fst (snd st) = drop (fst st) s"

lemma at_Cls:
  assumes "at s (i, x # ys, c)"
  shows "at s (Suc i, ys, c)"
proof -
  have "i < length s" "drop i s = x # ys" using assms by (auto simp: at_def not_less le_less)
  then show ?thesis by (simp add: at_def) (metis drop_Suc list.sel(3) tl_drop)
qed

lemma slice_consumed: "drop i s = u @ ys \<Longrightarrow> slice s i (i + length u) = u"
  by (simp add: slice_def)

lemma bt_groups:
  assumes "y \<in> set (bt r st)" "set (cap_groups r) \<subseteq> R" "\<forall>(k, r0)\<in>R. anchor_free r0"
    "at s st" "\<forall>x\<in>set (snd (snd st)). good_cap R s x"
  shows "at s y \<and> fst st \<le> fst y \<and> (\<forall>x\<in>set (snd (snd y)). good_cap R s x)"
  using assms
proof (induction r st arbitrary: y rule: bt.induct)
  case (4 neg rs st)
  obtain i xs c where st: "st = (i, xs, c)" using prod_cases3 by blast
  show ?case
  proof (cases xs)
    case (Cons x ys)
    then show ?thesis using 4 st at_Cls [of s i x ys c] by (auto split: if_splits)
  qed (use 4 st in auto)
next
  case (5 r s' st)
  then obtain z where z: "z \<in> set (bt r st)" "y \<in> set (bt s' z)" by auto
  from "5.IH"(1) [OF z(1)] "5.prems" have
    1: "at s z \<and> fst st \<le> fst z \<and> (\<forall>x\<in>set (snd (snd z)). good_cap R s x)" by auto
  from "5.IH"(2) [OF z] "5.prems" 1 show ?case by auto
next
  case (6 r s' st)
  have sub: "set (cap_groups r) \<subseteq> R" "set (cap_groups s') \<subseteq> R" using "6.prems"(2) by auto
  show ?case
  proof (cases "y \<in> set (bt r st)")
    case True
    then show ?thesis using "6.IH"(1) sub "6.prems"(3-5) by blast
  next
    case False
    then have "y \<in> set (bt s' st)" using "6.prems"(1) by simp
    then show ?thesis using "6.IH"(2) sub "6.prems"(3-5) by blast
  qed
next
  case (7 r st)
  show ?case
  proof (cases "y = st")
    case True
    then show ?thesis using 7 by simp
  next
    case False
    then obtain z where z: "z \<in> set (bt r st)" "length (fst (snd z)) < length (fst (snd st))"
        "y \<in> set (bt (Star r) z)"
      using "7.prems"(1) by (auto simp: bt_Star_set [of _ r st])
    from "7.IH"(1) [OF z(1)] "7.prems" have
      1: "at s z \<and> fst st \<le> fst z \<and> (\<forall>x\<in>set (snd (snd z)). good_cap R s x)" by auto
    from "7.IH"(2) [OF z] "7.prems" 1 show ?thesis by auto
  qed
next
  case (8 n r st)
  show ?case
  proof (cases "y = st")
    case True
    then show ?thesis using 8 by simp
  next
    case False
    then obtain m z where z: "n = Suc m" "z \<in> set (bt r st)" "y \<in> set (bt (UpTo m r) z)"
      using "8.prems"(1) by (auto simp: bt_UpTo_set [of _ n r st])
    from "8.IH"(1) [OF z(1,2)] "8.prems" have
      1: "at s z \<and> fst st \<le> fst z \<and> (\<forall>x\<in>set (snd (snd z)). good_cap R s x)" by auto
    from "8.IH"(2) [OF z] "8.prems" 1 show ?thesis by auto
  qed
next
  case (9 k r st)
  then obtain j ys c where z: "(j, ys, c) \<in> set (bt r st)" "y = (j, ys, (k, fst st, j) # c)" by auto
  obtain i xs c0 where st: "st = (i, xs, c0)" using prod_cases3 by blast
  have kr: "(k, r) \<in> R" using "9.prems"(2) by simp
  from "9.IH" [OF z(1)] "9.prems" have
    1: "at s (j, ys, c)" "fst st \<le> j" "\<forall>x\<in>set c. good_cap R s x" by auto
  obtain u where u: "xs = u @ ys" "j = i + length u" "matches r u"
    using bt_sound [of r j ys c i xs c0] z(1) st kr "9.prems"(3) by auto
  have "slice s i j = u" using u "9.prems"(4) st slice_consumed [of i s u ys] by (simp add: at_def)
  then have "good_cap R s (k, i, j)"
    using u(3) 1 kr st by (auto simp: good_cap_def at_def)
  then show ?case using 1 z(2) st by (auto simp: at_def)
qed (auto split: if_splits)

lemma find_at_groups:
  assumes "find_at r i xs = Some (a, b, caps)" "\<forall>(k, r0)\<in>set (cap_groups r). anchor_free r0"
    "at s (i, xs, [])"
  shows "\<forall>x\<in>set caps. good_cap (set (cap_groups r)) s x"
  using assms
proof (induction r i xs rule: find_at.induct)
  case (1 r i xs)
  show ?case
  proof (cases "bt r (i, xs, [])")
    case Nil
    then obtain x ys where xs: "xs = x # ys" "find_at r (Suc i) ys = Some (a, b, caps)"
      using "1.prems"(1) by (auto simp: find_at.simps [of r i xs] split: list.splits)
    have "at s (Suc i, ys, [])" using "1.prems"(3) xs(1) at_Cls by blast
    then show ?thesis using "1.IH" [OF Nil xs(1)] xs(2) "1.prems"(2) by blast
  next
    case (Cons y l)
    obtain j ys c where y: "y = (j, ys, c)" using prod_cases3 by blast
    then have "caps = c" using "1.prems"(1) Cons by (simp add: find_at.simps [of r i xs])
    then show ?thesis
      using bt_groups [of y r "(i, xs, [])" "set (cap_groups r)" s] Cons y "1.prems"(2,3) by auto
  qed
qed

lemma find_submatch_groups:
  assumes "find_submatch r s = Some (a, b, caps)" "\<forall>(k, r0)\<in>set (cap_groups r). anchor_free r0"
    "(k, i, j) \<in> set caps"
  obtains r0 where "(k, r0) \<in> set (cap_groups r)" "matches r0 (slice s i j)"
proof -
  have "at s (0, s, [])" by (simp add: at_def)
  then have "good_cap (set (cap_groups r)) s (k, i, j)"
    using find_at_groups assms unfolding find_submatch_def by blast
  then show thesis using that by (auto simp: good_cap_def)
qed

end
