(* ===== verification/Subst.thy ===== *)
theory Subst
  imports Build_Proto GoRegexp "HOL-Library.Monad_Syntax"
begin

text \<open>
  Package \<open>subst\<close> (\<open>subst/subst.go\<close>): finding the template parameters of a string and
  substituting them in the fields of a build. The definitions follow the code: index
  arithmetic over the input, the pattern \<open>validSubstKeyRE\<close>, and slices that panic when
  out of range (\<open>None\<close>). The lemmas replace them by a recursive description of template
  expansion, \<open>expand\<close>, on which the properties are proved.
\<close>

section \<open>Finding parameters\<close>

definition unbracedKeyRE :: "nat \<Rightarrow> re" where
  "unbracedKeyRE k =
     Cap k (Cat (Cls False [(CHR ''A'', CHR ''Z''), (CHR ''_'', CHR ''_'')])
       (Star (Cls False [(CHR ''A'', CHR ''Z''), (CHR ''0'', CHR ''9''), (CHR ''_'', CHR ''_'')])))"

definition bracedKeyRE :: "nat \<Rightarrow> re" where
  "bracedKeyRE k = Cat (chr CHR ''{'') (Cat (unbracedKeyRE k) (chr CHR ''}''))"

definition validSubstKeyRE :: re where
  "validSubstKeyRE = Cat Bol (Cat (chr CHR ''$'') (Alt (bracedKeyRE 1) (unbracedKeyRE 2)))"

record template_parameter =
  Start :: nat
  End :: nat
  Key :: string
  Escape :: bool

text \<open>
  A match of the pattern has one of the two groups; the default of the second lookup is
  never taken.
\<close>

definition findValidKeyFromIndex :: "string \<Rightarrow> nat \<Rightarrow> template_parameter option" where
  "findValidKeyFromIndex input i =
     (case find_submatch validSubstKeyRE (drop i input) of
        None \<Rightarrow> None
      | Some (_, e, groups) \<Rightarrow>
          (let keyIndices =
             (case map_of groups 1 of
                Some ix \<Rightarrow> ix
              | None \<Rightarrow> (case map_of groups 2 of Some ix \<Rightarrow> ix | None \<Rightarrow> (0, 0)))
           in Some \<lparr>Start = i, End = i + e - 1,
                Key = slice input (i + fst keyIndices) (i + snd keyIndices), Escape = False\<rparr>))"

subsection \<open>What the pattern matches\<close>

definition key_start :: "char \<Rightarrow> bool" where
  "key_start c = in_cls [(CHR ''A'', CHR ''Z''), (CHR ''_'', CHR ''_'')] c"

definition key_char :: "char \<Rightarrow> bool" where
  "key_char c = in_cls [(CHR ''A'', CHR ''Z''), (CHR ''0'', CHR ''9''), (CHR ''_'', CHR ''_'')] c"

fun take_key :: "string \<Rightarrow> (string \<times> string) option" where
  "take_key [] = None"
| "take_key (c # s) =
     (if key_start c then Some (c # takeWhile key_char s, dropWhile key_char s) else None)"

text \<open>The parameter after a dollar sign, as its key and the rest of the input.\<close>

definition parse_key :: "string \<Rightarrow> (string \<times> string) option" where
  "parse_key s =
     (case s of
        [] \<Rightarrow> None
      | c # t \<Rightarrow>
          if c = CHR ''{'' then
            (case take_key t of
               Some (k, d # r) \<Rightarrow> if d = CHR ''}'' then Some (k, r) else None
             | _ \<Rightarrow> None)
          else take_key s)"

lemma key_chars [simp]:
  "\<not> key_start CHR ''{''" "\<not> key_start CHR ''$''" "\<not> key_char CHR ''}''" "\<not> key_char CHR ''$''"
  by (simp_all add: key_start_def key_char_def in_cls_def less_eq_char_def)

lemma take_key_append: "take_key s = Some (k, r) \<Longrightarrow> s = k @ r \<and> k \<noteq> []"
  by (cases s) (auto split: if_splits)

lemma take_key_shorter: "take_key s = Some (k, r) \<Longrightarrow> length r < length s"
  using take_key_append by fastforce

lemma parse_key_braced: "parse_key (CHR ''{'' # t) = Some (k, r) \<longleftrightarrow> take_key t = Some (k, CHR ''}'' # r)"
  by (auto simp: parse_key_def split: option.splits list.splits)

lemma parse_key_unbraced: "c \<noteq> CHR ''{'' \<Longrightarrow> parse_key (c # t) = take_key (c # t)"
  by (simp add: parse_key_def)

lemma parse_key_Nil [simp]: "parse_key [] = None"
  by (simp add: parse_key_def)

lemma parse_key_shorter: "parse_key s = Some (k, r) \<Longrightarrow> length r < length s"
proof (cases s)
  case (Cons c t)
  assume "parse_key s = Some (k, r)"
  then show ?thesis
    using Cons take_key_shorter [of t k "CHR ''}'' # r"] take_key_shorter [of "c # t" k r]
    by (cases "c = CHR ''{''") (auto simp: parse_key_braced parse_key_unbraced simp del: take_key.simps)
qed simp

lemma parse_key_append: "parse_key s = Some (k, r) \<Longrightarrow> \<exists>u. s = u @ r"
proof (cases s)
  case (Cons c t)
  assume a: "parse_key s = Some (k, r)"
  show ?thesis
  proof (cases "c = CHR ''{''")
    case True
    with a Cons have "t = (k @ ''}'') @ r" by (auto simp: parse_key_braced dest: take_key_append)
    with Cons show ?thesis by (metis append_Cons)
  next
    case False
    with a Cons have "s = k @ r" by (metis parse_key_unbraced take_key_append)
    then show ?thesis by blast
  qed
qed simp

text \<open>The search in Go's order: a greedy star offers the longest run first.\<close>

lemma bt_Star_Cls:
  "bt (Star (Cls neg rs)) (i, xs, c) =
     map (\<lambda>m. (i + m, drop m xs, c)) (rev [0..<Suc (length (takeWhile (\<lambda>x. in_cls rs x \<noteq> neg) xs))])"
proof (induction xs arbitrary: i)
  case Nil
  show ?case by (subst bt.simps(7)) simp
next
  case (Cons x xs)
  have shift: "rev [0..<Suc (Suc n)] = map Suc (rev [0..<Suc n]) @ [0]" for n
    by (simp add: rev_map [symmetric] map_Suc_upt upt_conv_Cons del: upt_Suc)
  show ?case
    using Cons by (subst bt.simps(7)) (auto simp: shift upt_rec [of 0 "Suc 0"] simp del: upt_Suc)
qed

lemma bt_unbracedKeyRE:
  "bt (unbracedKeyRE k) (i, xs, c) =
     (case xs of
        [] \<Rightarrow> []
      | x # ys \<Rightarrow>
          if key_start x then
            map (\<lambda>m. (Suc i + m, drop m ys, (k, i, Suc i + m) # c))
              (rev [0..<Suc (length (takeWhile key_char ys))])
          else [])"
  unfolding unbracedKeyRE_def
  by (auto simp: bt_Star_Cls key_start_def key_char_def [abs_def] comp_def simp del: upt_Suc split: list.splits)

lemma drop_takeWhile_key:
  "m < length (takeWhile key_char ys) \<Longrightarrow> \<exists>d r. drop m ys = d # r \<and> d \<noteq> CHR ''}''"
proof -
  assume m: "m < length (takeWhile key_char ys)"
  then have "key_char (ys ! m)" by (metis nth_mem set_takeWhileD takeWhile_nth)
  moreover have "drop m ys = ys ! m # drop (Suc m) ys"
    using m by (metis Cons_nth_drop_Suc length_takeWhile_le less_le_trans)
  ultimately show ?thesis using key_chars(3) by metis
qed

lemma bt_chr:
  "bt (chr a) (i, xs, c) =
     (case xs of [] \<Rightarrow> [] | x # ys \<Rightarrow> if x = a then [(Suc i, ys, c)] else [])"
  by (auto simp: chr_def in_cls_def split: list.splits)

lemma bt_bracedKeyRE:
  "bt (bracedKeyRE k) (i, xs, c) =
     (case xs of
        [] \<Rightarrow> []
      | x # ys \<Rightarrow>
          if x = CHR ''{'' then
            (case take_key ys of
               Some (w, d # r) \<Rightarrow>
                 if d = CHR ''}'' then
                   [(i + length w + 2, r, (k, Suc i, Suc i + length w) # c)] else []
             | _ \<Rightarrow> [])
          else [])"
proof (cases xs)
  case Nil
  then show ?thesis by (simp add: bracedKeyRE_def bt_chr)
next
  case (Cons x ys)
  show ?thesis
  proof (cases "x = CHR ''{'' \<and> ys \<noteq> [] \<and> key_start (hd ys)")
    case False
    then show ?thesis using Cons
      by (auto simp: bracedKeyRE_def bt_chr bt_unbracedKeyRE neq_Nil_conv split: list.splits)
  next
    case True
    then obtain z zs where ys: "ys = z # zs" "key_start z" "x = CHR ''{''" by (cases ys) auto
    let ?n = "length (takeWhile key_char zs)"
    let ?st = "\<lambda>m. (Suc (Suc i) + m, drop m zs, (k, Suc i, Suc (Suc i) + m) # c)"
    have short: "concat (map (\<lambda>m. bt (chr CHR ''}'') (?st m)) (rev [0..<?n])) = []"
      using drop_takeWhile_key [of _ zs] by (fastforce simp: bt_chr)
    have long: "drop ?n zs = dropWhile key_char zs" by (simp add: dropWhile_eq_drop)
    have "bt (bracedKeyRE k) (i, xs, c) = concat (map (\<lambda>m. bt (chr CHR ''}'') (?st m)) (rev [0..<Suc ?n]))"
      using Cons ys by (simp add: bracedKeyRE_def bt_chr bt_unbracedKeyRE comp_def del: upt_Suc)
    also have "\<dots> = bt (chr CHR ''}'') (?st ?n)" using short by simp
    finally have "bt (bracedKeyRE k) (i, xs, c) =
        bt (chr CHR ''}'') (Suc (Suc i) + ?n, dropWhile key_char zs, (k, Suc i, Suc (Suc i) + ?n) # c)"
      by (simp only: long)
    then show ?thesis using Cons ys
      by (cases "dropWhile key_char zs") (simp_all add: bt_chr del: dropWhile_eq_Nil_conv)
  qed
qed

lemma findValidKeyFromIndex_spec:
  assumes "i < length input" "input ! i = CHR ''$''"
  shows "findValidKeyFromIndex input i =
     (case parse_key (drop (Suc i) input) of
        None \<Rightarrow> None
      | Some (k, r) \<Rightarrow> Some \<lparr>Start = i, End = length input - length r - 1, Key = k, Escape = False\<rparr>)"
proof -
  let ?s = "drop (Suc i) input"
  have d: "drop i input = CHR ''$'' # ?s" using assms by (metis Cons_nth_drop_Suc)
  have len: "length input = Suc i + length ?s" using assms by simp
  have sl: "slice input (i + Suc m) (i + Suc m + n) = take n (drop m ?s)" for m n
    by (simp add: slice_def add.commute)
  have find: "find_submatch validSubstKeyRE (drop i input) =
      (case bt (Alt (bracedKeyRE 1) (unbracedKeyRE 2)) (1, ?s, []) of
         [] \<Rightarrow> None | (j, ys, c) # _ \<Rightarrow> Some (0, j, c))"
    unfolding d by (simp add: validSubstKeyRE_def find_submatch_Bol bt_chr)
  have result: "findValidKeyFromIndex input i =
        Some \<lparr>Start = i, End = length input - length r - 1, Key = k, Escape = False\<rparr>"
    if "bt (Alt (bracedKeyRE 1) (unbracedKeyRE 2)) (1, ?s, []) = (Suc (m + length k + p), r, [(g, Suc m, Suc (m + length k))]) # tl"
      and "g = 1 \<or> g = 2" and "take (length k) (drop m ?s) = k" and "length ?s = m + length k + p + length r"
    for k r m p g tl
  proof -
    from that(1) find have "find_submatch validSubstKeyRE (drop i input) =
        Some (0, Suc (m + length k + p), [(g, Suc m, Suc (m + length k))])" by simp
    moreover have "slice input (i + Suc m) (i + Suc (m + length k)) = k"
      using sl [of m "length k"] that(3) by (simp add: add.assoc)
    moreover have "i + Suc (m + length k + p) - 1 = length input - length r - 1"
      using len that(4) by simp
    ultimately show ?thesis
      using that(2) by (elim disjE) (simp_all add: findValidKeyFromIndex_def)
  qed
  show ?thesis
  proof (cases "parse_key ?s")
    case None
    then have "bt (Alt (bracedKeyRE 1) (unbracedKeyRE 2)) (1, ?s, []) = []"
      by (auto simp: parse_key_def bt_bracedKeyRE bt_unbracedKeyRE split: list.splits if_splits option.splits)
    with None find show ?thesis by (simp add: findValidKeyFromIndex_def)
  next
    case (Some kr)
    obtain k r where kr: "kr = (k, r)" by (cases kr)
    from Some kr obtain c t where ct: "?s = c # t" by (cases ?s) auto
    show ?thesis
    proof (cases "c = CHR ''{''")
      case True
      with Some kr ct have t: "take_key t = Some (k, CHR ''}'' # r)" by (simp add: parse_key_braced)
      then have tk: "t = k @ CHR ''}'' # r" by (auto dest: take_key_append)
      have "findValidKeyFromIndex input i =
          Some \<lparr>Start = i, End = length input - length r - 1, Key = k, Escape = False\<rparr>"
        by (rule result [where m = 1 and p = 1 and g = 1])
           (use True ct t tk in \<open>auto simp: bt_bracedKeyRE bt_unbracedKeyRE\<close>)
      with Some kr show ?thesis by simp
    next
      case False
      with Some kr ct have "take_key (c # t) = Some (k, r)" by (simp add: parse_key_unbraced)
      then have t: "key_start c" "k = c # takeWhile key_char t" "r = dropWhile key_char t"
        by (auto split: if_splits)
      have len_t: "length t = length (takeWhile key_char t) + length r"
        using t(3) by (metis length_append takeWhile_dropWhile_id)
      have "findValidKeyFromIndex input i =
          Some \<lparr>Start = i, End = length input - length r - 1, Key = k, Escape = False\<rparr>"
      proof (rule result [where m = 0 and p = 0 and g = 2])
        show "bt (Alt (bracedKeyRE 1) (unbracedKeyRE 2)) (1, ?s, []) =
            (Suc (0 + length k + 0), r, [(2, Suc 0, Suc (0 + length k))]) #
            map (\<lambda>m. (Suc 1 + m, drop m t, [(2, 1, Suc 1 + m)])) (rev [0..<length (takeWhile key_char t)])"
          using False ct t by (simp add: bt_bracedKeyRE bt_unbracedKeyRE dropWhile_eq_drop)
        show "take (length k) (drop 0 ?s) = k" using ct t by (simp add: takeWhile_eq_take [symmetric])
        show "length ?s = 0 + length k + 0 + length r"
          using ct t(2) len_t by simp
      qed simp
      with Some kr show ?thesis by simp
    qed
  qed
qed

text \<open>The loop of \<open>FindTemplateParameters\<close> over the index \<open>i\<close>.\<close>

lemma findValidKeyFromIndex_End:
  assumes "i < length input" "input ! i = CHR ''$''" "findValidKeyFromIndex input i = Some p"
  obtains k r where "parse_key (drop (Suc i) input) = Some (k, r)"
    and "p = \<lparr>Start = i, End = length input - length r - 1, Key = k, Escape = False\<rparr>"
    and "i < End p" and "End p < length input" and "drop (Suc (End p)) input = r"
proof -
  from assms obtain k r where kr: "parse_key (drop (Suc i) input) = Some (k, r)"
      "p = \<lparr>Start = i, End = length input - length r - 1, Key = k, Escape = False\<rparr>"
    by (auto simp: findValidKeyFromIndex_spec split: option.splits)
  from parse_key_shorter [OF kr(1)] have len: "length r + Suc i < length input" by simp
  from parse_key_append [OF kr(1)] obtain u where "drop (Suc i) input = u @ r" by blast
  then have "input = (take (Suc i) input @ u) @ r" by (metis append_assoc append_take_drop_id)
  then have "drop (length input - length r) input = r"
    by (metis append_eq_conv_conj diff_diff_cancel length_append length_drop le_add2 add_diff_cancel_right')
  moreover have "Suc (End p) = length input - length r" using kr(2) len by simp
  moreover have "i < End p" "End p < length input" using kr(2) len by simp_all
  ultimately show thesis using that kr by metis
qed

lemma findValidKeyFromIndex_less:
  "findValidKeyFromIndex input i = Some p \<Longrightarrow> i < length input \<Longrightarrow> input ! i = CHR ''$'' \<Longrightarrow> i < End p"
  by (erule (2) findValidKeyFromIndex_End [rotated 2])

function find_loop :: "string \<Rightarrow> nat \<Rightarrow> template_parameter list" where
  "find_loop input i =
     (if i < length input then
        if input ! i = CHR ''$'' \<and> i < length input - 1 \<and> input ! (i + 1) = CHR ''$'' then
          \<lparr>Start = i, End = i + 1, Key = [], Escape = True\<rparr> # find_loop input (i + 2)
        else if input ! i = CHR ''$'' then
          (case findValidKeyFromIndex input i of
             Some p \<Rightarrow> p # find_loop input (End p + 1)
           | None \<Rightarrow> find_loop input (i + 1))
        else find_loop input (i + 1)
      else [])"
  by pat_completeness auto
termination
  by (relation "measure (\<lambda>(input, i). length input - i)") (auto dest: findValidKeyFromIndex_less)

declare find_loop.simps [simp del]

definition FindTemplateParameters :: "string \<Rightarrow> template_parameter list" where
  "FindTemplateParameters input = find_loop input 0"

section \<open>Substituting in a string\<close>

text \<open>A slice expression \<open>in[a:b]\<close>: it panics unless \<open>0 \<le> a \<le> b \<le> len(in)\<close>.\<close>

definition go_slice :: "string \<Rightarrow> int \<Rightarrow> int \<Rightarrow> string option" where
  "go_slice s a b =
     (if 0 \<le> a \<and> a \<le> b \<and> b \<le> int (length s) then Some (slice s (nat a) (nat b)) else None)"

fun apply_params ::
  "(string \<Rightarrow> string option) \<Rightarrow> string \<Rightarrow> int \<Rightarrow> string \<Rightarrow> template_parameter list \<Rightarrow> string option"
where
  "apply_params replacements input lastEnd out [] =
     do { s \<leftarrow> go_slice input (lastEnd + 1) (int (length input)); Some (out @ s) }"
| "apply_params replacements input lastEnd out (p # ps) =
     do { s \<leftarrow> go_slice input (lastEnd + 1) (int (Start p));
          let val = (case replacements (Key p) of Some v \<Rightarrow> v | None \<Rightarrow> []);
              val = (if Escape p then ''$'' else val)
          in apply_params replacements input (int (End p)) (out @ s @ val) ps }"

definition applyReplacements :: "(string \<Rightarrow> string option) \<Rightarrow> string \<Rightarrow> string option" where
  "applyReplacements replacements input =
     apply_params replacements input (- 1) [] (FindTemplateParameters input)"

subsection \<open>The specification: template expansion\<close>

text \<open>
  A dollar sign followed by a dollar sign is a dollar sign; followed by a key, braced or
  not, it is the value of the key, empty if it has none; any other is left as it is.
\<close>

function expand :: "(string \<Rightarrow> string option) \<Rightarrow> string \<Rightarrow> string" where
  "expand m [] = []"
| "expand m (c # s) =
     (if c \<noteq> CHR ''$'' then c # expand m s
      else if s \<noteq> [] \<and> hd s = CHR ''$'' then CHR ''$'' # expand m (tl s)
      else case parse_key s of
             Some (k, r) \<Rightarrow> (case m k of Some v \<Rightarrow> v | None \<Rightarrow> []) @ expand m r
           | None \<Rightarrow> CHR ''$'' # expand m s)"
  by pat_completeness auto
termination
  by (relation "measure (\<lambda>(m, s). length s)") (auto dest: parse_key_shorter)

lemma slice_snoc: "a \<le> i \<Longrightarrow> i < length s \<Longrightarrow> slice s a (Suc i) = slice s a i @ [s ! i]"
  by (simp add: slice_def Suc_diff_le take_Suc_conv_app_nth)

lemma slice_same [simp]: "slice s a a = []"
  by (simp add: slice_def)

text \<open>
  The loop invariant: the parameters found from index \<open>i\<close> on, applied with everything up
  to \<open>lastEnd\<close> already written, append the pending bytes and the expansion of the rest.
\<close>

lemma apply_params_find_loop:
  assumes "j \<le> i" "i \<le> length input" "lastEnd = int j - 1"
  shows "apply_params m input lastEnd out (find_loop input i) =
     Some (out @ slice input j i @ expand m (drop i input))"
  using assms
proof (induction input i arbitrary: j lastEnd out rule: find_loop.induct)
  case (1 input i)
  note pre = "1.prems"
  show ?case
  proof (cases "i < length input")
    case False
    with pre show ?thesis
      by (subst find_loop.simps) (simp add: go_slice_def)
  next
    case True
    have d: "drop i input = input ! i # drop (Suc i) input" using True by (simp add: Cons_nth_drop_Suc)
    have plain: "apply_params m input lastEnd out (find_loop input (i + 1)) =
        Some (out @ slice input j i @ input ! i # expand m (drop (Suc i) input))"
      if "\<not> (input ! i = CHR ''$'' \<and> i < length input - 1 \<and> input ! (i + 1) = CHR ''$'')"
        "input ! i \<noteq> CHR ''$'' \<or> findValidKeyFromIndex input i = None"
      using that True pre "1.IH"(2,4) [of j lastEnd out]
      by (cases "input ! i = CHR ''$''") (auto simp: slice_snoc)
    show ?thesis
    proof (cases "input ! i = CHR ''$''")
      case False
      then show ?thesis using plain True d by (subst find_loop.simps) simp
    next
      case dollar: True
      show ?thesis
      proof (cases "i < length input - 1 \<and> input ! (i + 1) = CHR ''$''")
        case esc: True
        then have d2: "drop (Suc i) input = CHR ''$'' # drop (Suc (Suc i)) input"
          by (metis Cons_nth_drop_Suc Suc_eq_plus1 less_diff_conv)
        have "apply_params m input (int (i + 1)) (out @ slice input j i @ ''$'') (find_loop input (i + 2)) =
            Some ((out @ slice input j i @ ''$'') @ slice input (i + 2) (i + 2) @ expand m (drop (i + 2) input))"
          by (rule "1.IH"(1)) (use True dollar esc in auto)
        then show ?thesis using True dollar esc d d2 pre
          by (subst find_loop.simps) (simp add: go_slice_def)
      next
        case no_esc: False
        then have hd: "\<not> (drop (Suc i) input \<noteq> [] \<and> hd (drop (Suc i) input) = CHR ''$'')"
          by (auto simp: hd_drop_conv_nth)
        show ?thesis
        proof (cases "findValidKeyFromIndex input i")
          case None
          then have "parse_key (drop (Suc i) input) = None"
            using findValidKeyFromIndex_spec [OF True dollar] by (auto split: option.splits)
          then show ?thesis using plain None True dollar no_esc hd d
            by (subst find_loop.simps) auto
        next
          case (Some p)
          obtain k r where p: "parse_key (drop (Suc i) input) = Some (k, r)"
            "p = \<lparr>Start = i, End = length input - length r - 1, Key = k, Escape = False\<rparr>"
            "i < End p" "End p < length input" "drop (Suc (End p)) input = r"
            using findValidKeyFromIndex_End [OF True dollar Some] by metis
          let ?v = "case m k of Some v \<Rightarrow> v | None \<Rightarrow> []"
          have "apply_params m input (int (End p)) (out @ slice input j i @ ?v) (find_loop input (End p + 1)) =
              Some ((out @ slice input j i @ ?v) @ slice input (End p + 1) (End p + 1) @ expand m (drop (End p + 1) input))"
            by (rule "1.IH"(3)) (use True dollar no_esc Some p(4) in auto)
          moreover have "find_loop input i = p # find_loop input (End p + 1)"
            using True dollar no_esc Some by (subst find_loop.simps) auto
          moreover have "Key p = k" "Start p = i" "\<not> Escape p" using p(2) by simp_all
          ultimately show ?thesis using True dollar hd d pre p(1,5) by (auto simp: go_slice_def)
        qed
      qed
    qed
  qed
qed

lemma applyReplacements_eq [simp]: "applyReplacements m s = Some (expand m s)"
  using apply_params_find_loop [of 0 0 s "- 1" m "[]"]
  by (simp add: applyReplacements_def FindTemplateParameters_def)

section \<open>Substituting in a build\<close>

definition MaxShortShaLength :: nat where "MaxShortShaLength = 7"

definition builtin_replacements :: "build \<Rightarrow> strmap" where
  "builtin_replacements b =
     (let (repoName, branchName, tagName) =
            (case GetRepoSource b of
               Some rs \<Rightarrow> (RepoName rs, GetBranchName (Revision rs), GetTagName (Revision rs))
             | None \<Rightarrow> ([], [], []));
          commitSHA =
            (case GetResolvedRepoSource b of Some rrs \<Rightarrow> GetCommitSha (Revision rrs) | None \<Rightarrow> []);
          shortSHA =
            (if length commitSHA > MaxShortShaLength then slice commitSHA 0 MaxShortShaLength
             else commitSHA)
      in [(''PROJECT_ID'', ProjectId b), (''BUILD_ID'', Id b), (''REPO_NAME'', repoName),
          (''BRANCH_NAME'', branchName), (''TAG_NAME'', tagName), (''REVISION_ID'', commitSHA),
          (''COMMIT_SHA'', commitSHA), (''SHORT_SHA'', shortSHA)])"

definition replacements_of :: "build \<Rightarrow> string \<Rightarrow> string option" where
  "replacements_of b = map_of (builtin_replacements b) ++ map_of (Substitutions b)"

text \<open>\<open>for i, a := range xs { xs[i] = f(a) }\<close> on a slice nothing else refers to.\<close>

definition subst_list :: "(string \<Rightarrow> string option) \<Rightarrow> string list \<Rightarrow> string list option" where
  "subst_list f xs = those (map f xs)"

text \<open>The same loop on a slice of the store: it writes the elements every holder sees.\<close>

definition subst_slice :: "(string \<Rightarrow> string option) \<Rightarrow> slice_ref \<Rightarrow> store \<Rightarrow> store option" where
  "subst_slice f r h =
     (case r of
        None \<Rightarrow> Some h
      | Some a \<Rightarrow> do { xs \<leftarrow> subst_list f (h a); Some (h(a := xs)) })"

definition subst_step :: "(string \<Rightarrow> string option) \<Rightarrow> build_step \<Rightarrow> build_step option" where
  "subst_step f s =
     do { name \<leftarrow> f (s_Name s);
          args \<leftarrow> subst_list f (s_Args s);
          env \<leftarrow> subst_list f (s_Env s);
          dir \<leftarrow> f (s_Dir s);
          entrypoint \<leftarrow> f (s_Entrypoint s);
          Some (s\<lparr>s_Name := name, s_Args := args, s_Env := env, s_Dir := dir,
                  s_Entrypoint := entrypoint\<rparr>) }"

definition subst_objects :: "(string \<Rightarrow> string option) \<Rightarrow> artifact_objects \<Rightarrow> artifact_objects option" where
  "subst_objects f obj =
     do { location \<leftarrow> f (Location obj);
          paths \<leftarrow> subst_list f (Paths obj);
          Some (obj\<lparr>Location := location, Paths := paths\<rparr>) }"

definition subst_artifacts ::
  "(string \<Rightarrow> string option) \<Rightarrow> store \<Rightarrow> artifacts \<Rightarrow> (store \<times> artifacts) option"
where
  "subst_artifacts f h a =
     do { h \<leftarrow> subst_slice f (a_Images a) h;
          case a_Objects a of
            None \<Rightarrow> Some (h, a)
          | Some obj \<Rightarrow> do { obj \<leftarrow> subst_objects f obj; Some (h, a\<lparr>a_Objects := Some obj\<rparr>) } }"

definition SubstituteBuildFields :: "store \<Rightarrow> build \<Rightarrow> (store \<times> build) option" where
  "SubstituteBuildFields h b =
     (let f = applyReplacements (replacements_of b)
      in do { steps \<leftarrow> those (map (subst_step f) (Steps b));
              h \<leftarrow> subst_slice f (Images b) h;
              tags \<leftarrow> subst_list f (Tags b);
              logs \<leftarrow> f (LogsBucket b);
              (h, arts) \<leftarrow>
                (case Artifacts b of
                   None \<Rightarrow> Some (h, None)
                 | Some a \<Rightarrow> do { (h, a) \<leftarrow> subst_artifacts f h a; Some (h, Some a) });
              Some (h, b\<lparr>Steps := steps, Tags := tags, LogsBucket := logs, Artifacts := arts\<rparr>) })"

subsection \<open>The same functions without the panics\<close>

definition expand_step :: "(string \<Rightarrow> string option) \<Rightarrow> build_step \<Rightarrow> build_step" where
  "expand_step m s =
     s\<lparr>s_Name := expand m (s_Name s), s_Args := map (expand m) (s_Args s),
       s_Env := map (expand m) (s_Env s), s_Dir := expand m (s_Dir s),
       s_Entrypoint := expand m (s_Entrypoint s)\<rparr>"

definition expand_slice :: "(string \<Rightarrow> string option) \<Rightarrow> slice_ref \<Rightarrow> store \<Rightarrow> store" where
  "expand_slice m r h = (case r of None \<Rightarrow> h | Some a \<Rightarrow> h(a := map (expand m) (h a)))"

definition expand_objects :: "(string \<Rightarrow> string option) \<Rightarrow> artifact_objects \<Rightarrow> artifact_objects" where
  "expand_objects m obj =
     obj\<lparr>Location := expand m (Location obj), Paths := map (expand m) (Paths obj)\<rparr>"

definition expand_build :: "(string \<Rightarrow> string option) \<Rightarrow> build \<Rightarrow> build" where
  "expand_build m b =
     b\<lparr>Steps := map (expand_step m) (Steps b), Tags := map (expand m) (Tags b),
       LogsBucket := expand m (LogsBucket b),
       Artifacts := map_option (\<lambda>a. a\<lparr>a_Objects := map_option (expand_objects m) (a_Objects a)\<rparr>) (Artifacts b)\<rparr>"

lemma those_Some [simp]: "those (map (\<lambda>x. Some (g x)) xs) = Some (map g xs)"
  by (induction xs) simp_all

lemma applyReplacements_fun: "applyReplacements m = (\<lambda>s. Some (expand m s))"
  by (rule ext) simp

lemma subst_list_expand [simp]: "subst_list (\<lambda>s. Some (expand m s)) xs = Some (map (expand m) xs)"
  by (simp add: subst_list_def)

lemma subst_step_expand [simp]: "subst_step (\<lambda>s. Some (expand m s)) = (\<lambda>s. Some (expand_step m s))"
  by (rule ext) (simp add: subst_step_def expand_step_def)

lemma subst_slice_expand [simp]: "subst_slice (\<lambda>s. Some (expand m s)) r h = Some (expand_slice m r h)"
  by (cases r) (simp_all add: subst_slice_def expand_slice_def)

lemma subst_objects_expand [simp]:
  "subst_objects (\<lambda>s. Some (expand m s)) obj = Some (expand_objects m obj)"
  by (simp add: subst_objects_def expand_objects_def)

lemma subst_artifacts_expand [simp]:
  "subst_artifacts (\<lambda>s. Some (expand m s)) h a =
     Some (expand_slice m (a_Images a) h, a\<lparr>a_Objects := map_option (expand_objects m) (a_Objects a)\<rparr>)"
  by (cases "a_Objects a") (simp_all add: subst_artifacts_def)

lemma SubstituteBuildFields_expand:
  "SubstituteBuildFields h b =
     (let m = replacements_of b
      in Some (expand_slice m (artifacts_images b) (expand_slice m (Images b) h), expand_build m b))"
  by (cases "Artifacts b")
     (simp_all add: SubstituteBuildFields_def applyReplacements_fun expand_build_def
        artifacts_images_def expand_slice_def Let_def)

section \<open>Facts about expansion\<close>

text \<open>
  The double dollar escapes a dollar sign: a string in which every dollar sign is doubled
  expands to the string itself.
\<close>

definition escape_dollars :: "string \<Rightarrow> string" where
  "escape_dollars s = concat (map (\<lambda>c. if c = CHR ''$'' then ''$$'' else [c]) s)"

lemma expand_no_dollar: "CHR ''$'' \<notin> set s \<Longrightarrow> expand m s = s"
  by (induction s) auto

lemma expand_plain_append: "CHR ''$'' \<notin> set u \<Longrightarrow> expand m (u @ s) = u @ expand m s"
  by (induction u) auto

lemma expand_escape_dollars: "expand m (escape_dollars s) = s"
  by (induction s) (auto simp: escape_dollars_def)

definition valid_key :: "string \<Rightarrow> bool" where
  "valid_key k \<longleftrightarrow> (\<exists>c t. k = c # t \<and> key_start c \<and> (\<forall>d\<in>set t. key_char d))"

lemma take_key_valid:
  assumes "valid_key k" "r = [] \<or> \<not> key_char (hd r)"
  shows "take_key (k @ r) = Some (k, r)"
proof -
  from assms(1) obtain c t where k: "k = c # t" "key_start c" "\<forall>d\<in>set t. key_char d"
    by (auto simp: valid_key_def)
  have "takeWhile key_char r = []" "dropWhile key_char r = r" using assms(2) by (cases r; simp)+
  with k show ?thesis by (simp add: takeWhile_append2 dropWhile_append2)
qed

lemma take_key_Some_valid:
  "take_key s = Some (k, r) \<Longrightarrow> valid_key k \<and> s = k @ r \<and> (r = [] \<or> \<not> key_char (hd r))"
  using hd_dropWhile [of key_char]
  by (cases s) (auto simp: valid_key_def split: if_splits dest: set_takeWhileD)

abbreviation value_or_empty :: "(string \<Rightarrow> string option) \<Rightarrow> string \<Rightarrow> string" where
  "value_or_empty m k \<equiv> (case m k of Some v \<Rightarrow> v | None \<Rightarrow> [])"

lemma expand_braced:
  assumes "valid_key k"
  shows "expand m (''${'' @ k @ ''}'' @ s) = value_or_empty m k @ expand m s"
proof -
  have "parse_key (CHR ''{'' # k @ CHR ''}'' # s) = Some (k, s)"
    using take_key_valid [OF assms, of "''}'' @ s"] by (simp add: parse_key_braced)
  then show ?thesis by simp
qed

lemma expand_unbraced:
  assumes "valid_key k" "s = [] \<or> \<not> key_char (hd s)"
  shows "expand m (''$'' @ k @ s) = value_or_empty m k @ expand m s"
proof -
  obtain c t where k: "k = c # t" "key_start c" using assms(1) by (auto simp: valid_key_def)
  then have "c \<noteq> CHR ''{''" "c \<noteq> CHR ''$''" using key_chars by metis+
  then show ?thesis using take_key_valid [OF assms] k
    by (simp add: parse_key_unbraced del: take_key.simps)
qed

text \<open>Expansion only looks up valid keys, and is unchanged when only other keys change.\<close>

lemma parse_key_valid: "parse_key s = Some (k, r) \<Longrightarrow> valid_key k"
proof (cases s)
  case (Cons c t)
  assume a: "parse_key s = Some (k, r)"
  with Cons show ?thesis
    by (cases "c = CHR ''{''")
       (auto simp: parse_key_braced parse_key_unbraced simp del: take_key.simps dest: take_key_Some_valid)
qed simp

lemma expand_cong: "(\<And>k. valid_key k \<Longrightarrow> m k = m' k) \<Longrightarrow> expand m s = expand m' s"
proof (induction m s rule: expand.induct)
  case (2 m c s)
  then show ?case by (auto split: option.splits dest: parse_key_valid)
qed simp

section \<open>The parameters that are found\<close>

definition well_placed :: "string \<Rightarrow> nat \<Rightarrow> template_parameter \<Rightarrow> bool" where
  "well_placed input i p \<longleftrightarrow>
     i \<le> Start p \<and> Start p < End p \<and> End p < length input \<and> input ! Start p = CHR ''$'' \<and>
     (if Escape p then End p = Suc (Start p) \<and> input ! End p = CHR ''$'' else valid_key (Key p))"

lemma find_loop_placed:
  "(\<forall>p\<in>set (find_loop input i). well_placed input i p) \<and>
   sorted_wrt (\<lambda>p q. End p < Start q) (find_loop input i)"
proof (induction input i rule: find_loop.induct)
  case (1 input i)
  have later: "well_placed input j p \<Longrightarrow> i \<le> j \<Longrightarrow> well_placed input i p" for j p
    by (auto simp: well_placed_def)
  have push: ?case
    if "find_loop input i = q # find_loop input j" "well_placed input i q" "End q < j" "i \<le> j"
      "(\<forall>p\<in>set (find_loop input j). well_placed input j p) \<and>
       sorted_wrt (\<lambda>p q. End p < Start q) (find_loop input j)" for q j
  proof -
    have "End q < Start p" if "well_placed input j p" for p
      using that \<open>End q < j\<close> by (simp add: well_placed_def)
    then show ?thesis using that(2,4,5) later by (simp add: that(1)) blast
  qed
  have skip: ?case
    if "find_loop input i = find_loop input j" "i \<le> j"
      "(\<forall>p\<in>set (find_loop input j). well_placed input j p) \<and>
       sorted_wrt (\<lambda>p q. End p < Start q) (find_loop input j)" for j
    unfolding that(1) using that(2,3) later by blast
  show ?case
  proof (cases "i < length input")
    case False
    then show ?thesis by (subst (1 2) find_loop.simps) simp
  next
    case i: True
    consider (esc) "input ! i = CHR ''$''" "i < length input - 1" "input ! (i + 1) = CHR ''$''"
      | (plain) "input ! i \<noteq> CHR ''$''"
      | (dollar) "input ! i = CHR ''$''" "\<not> (i < length input - 1 \<and> input ! (i + 1) = CHR ''$'')"
      by blast
    then show ?thesis
    proof cases
      case esc
      have "find_loop input i = \<lparr>Start = i, End = i + 1, Key = [], Escape = True\<rparr> # find_loop input (i + 2)"
        using i esc by (subst find_loop.simps) simp
      moreover have "well_placed input i \<lparr>Start = i, End = i + 1, Key = [], Escape = True\<rparr>"
        using i esc by (simp add: well_placed_def)
      ultimately show ?thesis by (rule push) (use i esc "1.IH"(1) in auto)
    next
      case plain
      have "find_loop input i = find_loop input (i + 1)" using i plain by (subst find_loop.simps) simp
      then show ?thesis by (rule skip) (use i plain "1.IH"(4) in auto)
    next
      case dollar
      show ?thesis
      proof (cases "findValidKeyFromIndex input i")
        case None
        then have "find_loop input i = find_loop input (i + 1)"
          using i dollar by (subst find_loop.simps) auto
        then show ?thesis by (rule skip) (use i dollar None "1.IH"(2) in auto)
      next
        case (Some q)
        obtain k r where q: "parse_key (drop (Suc i) input) = Some (k, r)"
          "q = \<lparr>Start = i, End = length input - length r - 1, Key = k, Escape = False\<rparr>"
          "i < End q" "End q < length input"
          using findValidKeyFromIndex_End [OF i dollar(1) Some] by metis
        have "find_loop input i = q # find_loop input (End q + 1)"
          using i dollar Some by (subst find_loop.simps) auto
        moreover have "well_placed input i q"
          using q dollar(1) parse_key_valid [OF q(1)] by (simp add: well_placed_def)
        ultimately show ?thesis by (rule push) (use i dollar Some q(3) "1.IH"(3) in auto)
      qed
    qed
  qed
qed

section \<open>Properties\<close>

text \<open>
  C13: \<open>applyReplacements\<close> implements template expansion. The index arithmetic over the
  parameters, every slice of it, stays in range (the result is never the panic \<open>None\<close>), and
  the bytes written are those of the recursive specification \<open>expand\<close>.
\<close>

theorem applyReplacements_refines_expand:
  "applyReplacements m s = Some (expand m s)"
  by simp

text \<open>
  The parameters \<open>FindTemplateParameters\<close> reports are in range, in order and disjoint;
  each starts at a dollar sign and is either a double dollar or carries a valid key.
\<close>

theorem FindTemplateParameters_placed:
  "sorted_wrt (\<lambda>p q. End p < Start q) (FindTemplateParameters s) \<and>
   set (FindTemplateParameters s) \<subseteq> {p. well_placed s 0 p}"
  using find_loop_placed [of s 0] by (auto simp: FindTemplateParameters_def)

text \<open>
  Escaping round trip: a string whose dollar signs are doubled is substituted to the
  string itself, whatever the replacements.
\<close>

theorem applyReplacements_escape: "applyReplacements m (escape_dollars s) = Some s"
  by (simp add: expand_escape_dollars)

text \<open>
  C26: \<open>SubstituteBuildFields\<close> never panics, rewrites exactly the template fields of the
  build by expansion, and rewrites the image slices through the references to them: a slice
  of the store is expanded once for each of \<open>.images\<close> and \<open>.artifacts.images\<close> that refers
  to it, so a slice both refer to is expanded twice, and any other slice is unchanged.
\<close>

theorem SubstituteBuildFields_effect:
  "\<exists>h'. SubstituteBuildFields h b = Some (h', expand_build (replacements_of b) b) \<and>
     (\<forall>a. h' a = ((map (expand (replacements_of b))) ^^
        (of_bool (Images b = Some a) + of_bool (artifacts_images b = Some a))) (h a))"
proof -
  let ?m = "replacements_of b"
  have once: "expand_slice m r g a = ((map (expand m)) ^^ of_bool (r = Some a)) (g a)" for m r g a
    by (auto simp: expand_slice_def split: option.splits)
  have "expand_slice ?m (artifacts_images b) (expand_slice ?m (Images b) h) a =
      ((map (expand ?m)) ^^ (of_bool (Images b = Some a) + of_bool (artifacts_images b = Some a))) (h a)" for a
    unfolding once [of ?m "artifacts_images b"] once [of ?m "Images b"]
    by (cases "Images b = Some a"; cases "artifacts_images b = Some a") simp_all
  then show ?thesis by (simp add: SubstituteBuildFields_expand Let_def)
qed

end
