(* ===== verification/Validate_Subst.thy ===== *)
theory Validate_Subst
  imports Subst
begin

text \<open>
  The substitution checks of package \<open>validate\<close> (\<open>validate/validate.go\<close>): the limits on a
  substitutions map (\<open>CheckSubstitutions\<close>, \<open>CheckSubstitutionsLoose\<close>) and the comparison
  of the map with the templates of the build (\<open>CheckSubstitutionTemplate\<close>). The lemmas
  characterise acceptance without reference to the order in which Go ranges over the map.
\<close>

definition maxNumSubstitutions :: nat where "maxNumSubstitutions = 100"
definition maxSubstKeyLength :: nat where "maxSubstKeyLength = 100"
definition maxSubstValueLength :: nat where "maxSubstValueLength = 4000"

text \<open>The pattern \<^verbatim>\<open>^_[A-Z0-9_]+$\<close>, and \<open>MatchString\<close> on it.\<close>

definition validUserSubstKeyRE :: re where
  "validUserSubstKeyRE =
     Cat (chr CHR ''_'')
       (plus1 (Cls False [(CHR ''A'', CHR ''Z''), (CHR ''0'', CHR ''9''), (CHR ''_'', CHR ''_'')]))"

definition user_key :: "string \<Rightarrow> bool" where
  "user_key k = accepts validUserSubstKeyRE k"

definition validBuiltInSubstitutions :: "(string \<times> bool) list" where
  "validBuiltInSubstitutions =
     [(''PROJECT_ID'', False), (''BUILD_ID'', False), (''REPO_NAME'', True),
      (''BRANCH_NAME'', True), (''TAG_NAME'', True), (''REVISION_ID'', True),
      (''COMMIT_SHA'', True), (''SHORT_SHA'', True)]"

datatype subst_error =
  TooManySubstitutions nat
| SubstKeyTooLong string
| SubstKeyInvalid string
| SubstValueTooLong string
| SubstKeyNotUserDefined string

section \<open>The substitutions map\<close>

text \<open>The body of the loop of \<open>CheckSubstitutionsLoose\<close>.\<close>

definition check_subst_entry :: "string \<times> string \<Rightarrow> subst_error option" where
  "check_subst_entry = (\<lambda>(k, v).
     or_err (err_if (length k > maxSubstKeyLength) (SubstKeyTooLong k))
       (or_err
         (err_if (\<not> user_key k \<and> map_of validBuiltInSubstitutions k \<noteq> Some True) (SubstKeyInvalid k))
         (err_if (length v > maxSubstValueLength) (SubstValueTooLong v))))"

definition CheckSubstitutionsLoose :: "strmap \<Rightarrow> subst_error option" where
  "CheckSubstitutionsLoose substitutions =
     or_err
       (err_if (length substitutions > maxNumSubstitutions)
          (TooManySubstitutions (length substitutions)))
       (first_err check_subst_entry substitutions)"

definition CheckSubstitutions :: "strmap \<Rightarrow> subst_error option" where
  "CheckSubstitutions substitutions =
     or_err (CheckSubstitutionsLoose substitutions)
       (first_err (\<lambda>(k, v). err_if (\<not> user_key k) (SubstKeyNotUserDefined k)) substitutions)"

lemma user_key_iff:
  "user_key k \<longleftrightarrow> (\<exists>t. k = CHR ''_'' # t \<and> t \<noteq> [] \<and> (\<forall>c\<in>set t. key_char c))"
  unfolding user_key_def validUserSubstKeyRE_def
  by (subst deriv_engine.engine_prefixed_plus_class) (simp add: key_char_def)

lemma user_key_valid: "user_key k \<Longrightarrow> valid_key k"
  by (auto simp: user_key_iff valid_key_def key_start_def in_cls_def)

lemma user_key_not_builtin: "user_key k \<Longrightarrow> map_of validBuiltInSubstitutions k = None"
  by (auto simp: user_key_iff validBuiltInSubstitutions_def)

text \<open>An entry the checks accept.\<close>

definition loose_entry :: "string \<Rightarrow> string \<Rightarrow> bool" where
  "loose_entry k v \<longleftrightarrow>
     length k \<le> maxSubstKeyLength \<and> length v \<le> maxSubstValueLength \<and>
     (user_key k \<or> map_of validBuiltInSubstitutions k = Some True)"

lemma CheckSubstitutionsLoose_None:
  "CheckSubstitutionsLoose m = None \<longleftrightarrow>
     length m \<le> maxNumSubstitutions \<and> (\<forall>(k, v)\<in>set m. loose_entry k v)"
  by (auto simp: CheckSubstitutionsLoose_def check_subst_entry_def loose_entry_def)

lemma CheckSubstitutions_None:
  "CheckSubstitutions m = None \<longleftrightarrow>
     length m \<le> maxNumSubstitutions \<and> (\<forall>(k, v)\<in>set m. loose_entry k v \<and> user_key k)"
  by (auto simp: CheckSubstitutions_def CheckSubstitutionsLoose_None)

section \<open>The templates of a build\<close>

datatype warning = KeyNotInData string | KeyNotInTemplate string

datatype template_error = NotABuiltIn string

text \<open>The warnings so far, and \<open>substitutionsUsed\<close>.\<close>

type_synonym template_state = "warning list \<times> (string \<times> bool) list"

text \<open>The closure \<open>checkParameters\<close>, on the parameters of one string.\<close>

fun check_params ::
  "strmap \<Rightarrow> template_state \<Rightarrow> template_parameter list \<Rightarrow> template_state \<times> template_error option"
where
  "check_params subs st [] = (st, None)"
| "check_params subs (warnings, used) (p # ps) =
     (if Escape p then check_params subs (warnings, used) ps
      else if map_of subs (Key p) = None \<and> user_key (Key p) then
        check_params subs (warnings @ [KeyNotInData (Key p)], used) ps
      else if map_of subs (Key p) = None \<and> map_of validBuiltInSubstitutions (Key p) = None then
        ((warnings, used), Some (NotABuiltIn (Key p)))
      else check_params subs (warnings, AList.update (Key p) True used) ps)"

definition checkParameters ::
  "strmap \<Rightarrow> template_state \<Rightarrow> string \<Rightarrow> template_state \<times> template_error option"
where
  "checkParameters subs st input = check_params subs st (FindTemplateParameters input)"

text \<open>The loops over the fields: they stop at the first error.\<close>

fun check_fields ::
  "strmap \<Rightarrow> template_state \<Rightarrow> string list \<Rightarrow> template_state \<times> template_error option"
where
  "check_fields subs st [] = (st, None)"
| "check_fields subs st (f # fs) =
     (case checkParameters subs st f of
        (st, Some e) \<Rightarrow> (st, Some e)
      | (st, None) \<Rightarrow> check_fields subs st fs)"

text \<open>The strings the function checks, in its order.\<close>

definition step_templates :: "build_step \<Rightarrow> string list" where
  "step_templates s = s_Name s # s_Args s @ s_Env s @ [s_Dir s, s_Entrypoint s]"

definition template_fields :: "store \<Rightarrow> build \<Rightarrow> string list" where
  "template_fields h b =
     concat (map step_templates (Steps b)) @ deref h (Images b) @ Tags b @
     (case artifacts_objects b of
        Some objs \<Rightarrow> Location objs # Paths objs
      | None \<Rightarrow> [])"

definition CheckSubstitutionTemplate ::
  "store \<Rightarrow> build \<Rightarrow> warning list \<times> template_error option"
where
  "CheckSubstitutionTemplate h b =
     (let subs = Substitutions b
      in case check_fields subs ([], map (\<lambda>(k, _). (k, False)) subs) (template_fields h b) of
           ((warnings, used), Some e) \<Rightarrow> (warnings, Some e)
         | ((warnings, used), None) \<Rightarrow>
             (warnings @ map (\<lambda>(k, _). KeyNotInTemplate k) (filter (\<lambda>(_, v). \<not> v) used), None))"

subsection \<open>What it accepts\<close>

text \<open>The keys a string refers to.\<close>

definition keys_of_params :: "template_parameter list \<Rightarrow> string set" where
  "keys_of_params ps = Key ` {p \<in> set ps. \<not> Escape p}"

definition template_keys :: "string \<Rightarrow> string set" where
  "template_keys s = keys_of_params (FindTemplateParameters s)"

definition known_key :: "strmap \<Rightarrow> string \<Rightarrow> bool" where
  "known_key subs k \<longleftrightarrow>
     map_of subs k \<noteq> None \<or> (\<not> user_key k \<and> map_of validBuiltInSubstitutions k \<noteq> None)"

lemma known_key_alt:
  "known_key subs k \<longleftrightarrow> map_of subs k \<noteq> None \<or> map_of validBuiltInSubstitutions k \<noteq> None"
  by (auto simp: known_key_def dest: user_key_not_builtin)

text \<open>The keys marked as used after a run, and the absence of warnings.\<close>

definition marked :: "(string \<times> bool) list \<Rightarrow> string set" where
  "marked used = {k. map_of used k = Some True}"

lemma keys_of_params_simps [simp]:
  "keys_of_params [] = {}"
  "keys_of_params (p # ps) = (if Escape p then {} else {Key p}) \<union> keys_of_params ps"
  by (auto simp: keys_of_params_def)

lemma check_params_clean:
  "(\<exists>used'. check_params subs ([], used) ps = (([], used'), None)) \<longleftrightarrow>
     (\<forall>k\<in>keys_of_params ps. known_key subs k)" (is "?L used ps \<longleftrightarrow> _")
proof -
  have stuck: "w \<noteq> [] \<Longrightarrow> fst (fst (check_params subs (w, used) ps)) \<noteq> []" for w used ps
    by (induction subs "(w, used)" ps arbitrary: w used rule: check_params.induct) auto
  show ?thesis
  proof (induction ps arbitrary: used)
    case (Cons p ps)
    have "\<not> (\<exists>used'. check_params subs ([KeyNotInData (Key p)], used) ps = (([], used'), None))"
      using stuck [of "[KeyNotInData (Key p)]" used ps] by auto
    then show ?case using Cons
      by (auto simp: known_key_def)
  qed simp
qed

lemma check_params_marked:
  assumes "check_params subs (w, used) ps = (([], used'), None)"
  shows "marked used' = marked used \<union> keys_of_params ps \<and> dom (map_of used') = dom (map_of used) \<union> keys_of_params ps"
  using assms
proof (induction subs "(w, used)" ps arbitrary: w used rule: check_params.induct)
  case (2 subs warnings used p ps)
  have stuck: "w \<noteq> [] \<Longrightarrow> fst (fst (check_params subs (w, used) ps)) \<noteq> []" for w used ps
    by (induction subs "(w, used)" ps arbitrary: w used rule: check_params.induct) auto
  have upd: "marked (AList.update k True u) = insert k (marked u)"
    "dom (map_of (AList.update k True u)) = insert k (dom (map_of u))" for k and u :: "(string \<times> bool) list"
    by (auto simp: marked_def update_conv' split: if_splits)
  show ?case
    using 2 stuck [of "warnings @ [KeyNotInData (Key p)]" used ps]
    by (auto simp: upd split: if_splits)
qed simp

text \<open>The nested loops visit the parameters of all the fields in order.\<close>

lemma check_params_append:
  "check_params subs st (ps @ qs) =
     (case check_params subs st ps of
        (st, Some e) \<Rightarrow> (st, Some e)
      | (st, None) \<Rightarrow> check_params subs st qs)"
  by (induction subs st ps rule: check_params.induct) auto

lemma check_fields_params:
  "check_fields subs st fs = check_params subs st (concat (map FindTemplateParameters fs))"
  by (induction subs st fs rule: check_fields.induct)
     (auto simp: checkParameters_def check_params_append split: prod.splits option.splits)

lemma keys_of_params_concat:
  "keys_of_params (concat (map FindTemplateParameters fs)) = (\<Union>f\<in>set fs. template_keys f)"
  by (auto simp: keys_of_params_def template_keys_def)

lemma check_params_distinct:
  "check_params subs (w, used) ps = ((w', used'), r) \<Longrightarrow> distinct (map fst used) \<Longrightarrow> distinct (map fst used')"
proof (induction subs "(w, used)" ps arbitrary: w used rule: check_params.induct)
  case (2 subs w used p ps)
  then show ?case by (auto simp: distinct_update split: if_splits)
qed simp

lemma all_marked:
  assumes "distinct (map fst used)"
  shows "filter (\<lambda>(_, v). \<not> v) used = [] \<longleftrightarrow> dom (map_of used) \<subseteq> marked used"
proof -
  have look: "map_of used k = Some v" if "(k, v) \<in> set used" for k v
    using that assms by simp
  have "filter (\<lambda>(_, v). \<not> v) used = [] \<longleftrightarrow> (\<forall>(k, v)\<in>set used. v)"
    by (auto simp: filter_empty_conv)
  also have "\<dots> \<longleftrightarrow> (\<forall>k\<in>fst ` set used. map_of used k = Some True)"
    using look by fastforce
  also have "\<dots> \<longleftrightarrow> dom (map_of used) \<subseteq> marked used"
    by (auto simp: marked_def dom_map_of_conv_image_fst)
  finally show ?thesis .
qed

definition build_keys :: "store \<Rightarrow> build \<Rightarrow> string set" where
  "build_keys h b = (\<Union>f\<in>set (template_fields h b). template_keys f)"

lemma CheckSubstitutionTemplate_clean:
  assumes "distinct (map fst (Substitutions b))"
  shows "CheckSubstitutionTemplate h b = ([], None) \<longleftrightarrow>
     (\<forall>k\<in>build_keys h b. known_key (Substitutions b) k) \<and> fst ` set (Substitutions b) \<subseteq> build_keys h b"
proof -
  let ?subs = "Substitutions b"
  let ?used = "map (\<lambda>(k, _). (k, False)) ?subs"
  let ?ps = "concat (map FindTemplateParameters (template_fields h b))"
  have keys: "keys_of_params ?ps = build_keys h b"
    by (simp add: keys_of_params_concat build_keys_def)
  have fst: "map fst ?used = map fst ?subs" by (induction ?subs) auto
  have m0: "marked ?used = {}" by (auto simp: marked_def dest!: map_of_SomeD)
  have d0: "dom (map_of ?used) = fst ` set ?subs" by (force simp: dom_map_of_conv_image_fst)
  have run: "CheckSubstitutionTemplate h b = ([], None) \<longleftrightarrow>
      (\<exists>used'. check_params ?subs ([], ?used) ?ps = (([], used'), None) \<and> filter (\<lambda>(_, v). \<not> v) used' = [])"
    by (auto simp: CheckSubstitutionTemplate_def check_fields_params Let_def split: prod.splits option.splits)
  have used': "filter (\<lambda>(_, v). \<not> v) used' = [] \<longleftrightarrow> fst ` set ?subs \<subseteq> build_keys h b"
    if "check_params ?subs ([], ?used) ?ps = (([], used'), None)" for used'
  proof -
    have "distinct (map fst used')" using check_params_distinct [OF that] assms by (simp only: fst)
    then show ?thesis
      using check_params_marked [OF that] by (simp add: all_marked m0 d0 keys)
  qed
  show ?thesis
    unfolding run using used' check_params_clean [of ?subs ?used ?ps] by (auto simp: keys)
qed

text \<open>Errors: the first key in the build that is neither user-defined nor built in.\<close>

lemma check_params_error:
  "snd (check_params subs st ps) = Some (NotABuiltIn k) \<Longrightarrow>
     k \<in> keys_of_params ps \<and> map_of subs k = None \<and> \<not> user_key k \<and> map_of validBuiltInSubstitutions k = None"
  by (induction subs st ps rule: check_params.induct) (auto split: if_splits)

lemma check_params_no_error:
  "snd (check_params subs st ps) = None \<longleftrightarrow>
     (\<forall>k\<in>keys_of_params ps. known_key subs k \<or> user_key k)"
  by (induction subs st ps rule: check_params.induct) (auto simp: known_key_def)

lemma CheckSubstitutionTemplate_no_error:
  "snd (CheckSubstitutionTemplate h b) = None \<longleftrightarrow>
     (\<forall>k\<in>build_keys h b. known_key (Substitutions b) k \<or> user_key k)"
proof -
  have "snd (CheckSubstitutionTemplate h b) =
      snd (check_params (Substitutions b) ([], map (\<lambda>(k, _). (k, False)) (Substitutions b))
        (concat (map FindTemplateParameters (template_fields h b))))"
    by (auto simp: CheckSubstitutionTemplate_def check_fields_params Let_def split: prod.splits option.splits)
  then show ?thesis by (simp add: check_params_no_error keys_of_params_concat build_keys_def)
qed

section \<open>Properties\<close>

text \<open>
  \<open>CheckSubstitutions\<close> accepts a map exactly if it has at most 100 entries, each with a
  key of at most 100 bytes that is an underscore followed by at least one capital letter,
  digit or underscore, and a value of at most 4000 bytes. The order in which the map is
  ranged over does not matter.
\<close>

theorem CheckSubstitutions_accepts:
  "CheckSubstitutions m = None \<longleftrightarrow>
     length m \<le> 100 \<and>
     (\<forall>(k, v)\<in>set m. length k \<le> 100 \<and> length v \<le> 4000 \<and>
        (\<exists>t. k = CHR ''_'' # t \<and> t \<noteq> [] \<and> (\<forall>c\<in>set t. key_char c)))"
  unfolding CheckSubstitutions_None loose_entry_def user_key_iff
  by (auto simp: maxNumSubstitutions_def maxSubstKeyLength_def maxSubstValueLength_def)

theorem CheckSubstitutions_accepts_witness:
  "CheckSubstitutions [(''_A'', ''x''), (''_LONG_1'', [])] = None"
  by (subst CheckSubstitutions_accepts) (simp add: key_char_def in_cls_def less_eq_char_def)

text \<open>
  \<open>CheckSubstitutionTemplate\<close> is silent (no error and no warning) exactly if every key
  the templates of the build refer to is in the substitution data or is a built-in one, and
  every key of the data is referred to.
\<close>

theorem CheckSubstitutionTemplate_silent:
  assumes "distinct (map fst (Substitutions b))"
  shows "CheckSubstitutionTemplate h b = ([], None) \<longleftrightarrow>
     (\<forall>f\<in>set (template_fields h b). \<forall>k\<in>template_keys f.
        k \<in> fst ` set (Substitutions b) \<or> k \<in> fst ` set validBuiltInSubstitutions) \<and>
     (\<forall>k\<in>fst ` set (Substitutions b). \<exists>f\<in>set (template_fields h b). k \<in> template_keys f)"
proof -
  have "known_key subs k \<longleftrightarrow> k \<in> fst ` set subs \<or> k \<in> fst ` set validBuiltInSubstitutions" for subs k
    using map_of_eq_None_iff [of subs k] map_of_eq_None_iff [of validBuiltInSubstitutions k]
    by (auto simp only: known_key_alt)
  then show ?thesis
    unfolding CheckSubstitutionTemplate_clean [OF assms] build_keys_def by blast
qed

theorem CheckSubstitutionTemplate_silent_witness:
  "let b = empty_build\<lparr>Steps := [empty_step\<lparr>s_Name := ''a'', s_Args := [''$_A-${BUILD_ID}'']\<rparr>],
             Substitutions := [(''_A'', ''x'')]\<rparr>
   in CheckSubstitutionTemplate (\<lambda>_. []) b = ([], None) \<and>
      ''_A'' \<in> fst ` set (Substitutions b) \<and>
      (\<exists>f\<in>set (template_fields (\<lambda>_. []) b). ''_A'' \<in> template_keys f)"
proof -
  let ?b = "empty_build\<lparr>Steps := [empty_step\<lparr>s_Name := ''a'', s_Args := [''$_A-${BUILD_ID}'']\<rparr>],
             Substitutions := [(''_A'', ''x'')]\<rparr>"
  have run: "CheckSubstitutionTemplate (\<lambda>_. []) ?b = ([], None)" by code_simp
  have d: "distinct (map fst (Substitutions ?b))" by simp
  have k: "''_A'' \<in> fst ` set (Substitutions ?b)" by simp
  from run k have "\<exists>f\<in>set (template_fields (\<lambda>_. []) ?b). ''_A'' \<in> template_keys f"
    using CheckSubstitutionTemplate_silent [OF d, of "\<lambda>_. []"] by blast
  with run k show ?thesis unfolding Let_def by blast
qed

end
