(* ===== verification/Validate_Steps.thy ===== *)
theory Validate_Steps
  imports Build_Proto
begin

text \<open>
  \<open>CheckBuildSteps\<close> and \<open>CheckArtifacts\<close> of package \<open>validate\<close>. The first is a loop over
  the steps that carries the set of step ids seen so far; the lemmas turn it into a
  condition on positions, the one the scheduler of package \<open>build\<close> needs. The second also
  writes the build: it makes \<open>.images\<close> and \<open>.artifacts.images\<close> the same slice.
\<close>

definition StartStep :: string where "StartStep = ''-''"

text \<open>24 hours in nanoseconds.\<close>

definition MaxTimeout :: int where "MaxTimeout = 24 * 60 * 60 * Second"
definition maxNumSteps :: nat where "maxNumSteps = 100"
definition maxStepNameLength :: nat where "maxStepNameLength = 1000"
definition maxNumArgs :: nat where "maxNumArgs = 100"
definition maxArgLength :: nat where "maxArgLength = 4000"
definition maxDirLength :: nat where "maxDirLength = 1000"
definition maxNumImages :: nat where "maxNumImages = 100"
definition MaxImageLength :: nat where "MaxImageLength = 1000"
definition maxArtifactsPaths :: nat where "maxArtifactsPaths = 100"

section \<open>Build steps\<close>

datatype steps_error =
  NoSteps
| TooManySteps
| StepNameMissing nat
| StepNameTooLong nat
| TooManyArgs nat
| ArgTooLong nat nat
| DirTooLong nat
| DependencyUndefined nat string string
| StepIdNotUnique nat string
| StepIdReserved nat string
| EnvNotKeyValue nat string string
| StepTimeoutInvalid nat duration_error
| StepTimeoutExceedsLimit nat int
| StepTimeoutExceedsBuild nat int int
| StepTimeoutNegative nat

definition check_step_fields :: "nat \<Rightarrow> build_step \<Rightarrow> steps_error option" where
  "check_step_fields i s =
     or_err (err_if (s_Name s = []) (StepNameMissing i))
      (or_err (err_if (length (s_Name s) > maxStepNameLength) (StepNameTooLong i))
        (or_err (err_if (length (s_Args s) > maxNumArgs) (TooManyArgs i))
          (or_err
            (first_err_idx (\<lambda>ai a. err_if (length a > maxArgLength) (ArgTooLong i ai)) (s_Args s))
            (err_if (length (s_Dir s) > maxDirLength) (DirTooLong i)))))"

definition check_step_id :: "nat \<Rightarrow> string list \<Rightarrow> build_step \<Rightarrow> steps_error option" where
  "check_step_id i knownSteps s =
     (if s_Id s \<noteq> [] then
        or_err (err_if (s_Id s \<in> set knownSteps) (StepIdNotUnique i (s_Id s)))
          (err_if (s_Id s = StartStep) (StepIdReserved i (s_Id s)))
      else None)"

definition check_step_timeout :: "int \<Rightarrow> nat \<Rightarrow> build_step \<Rightarrow> steps_error option" where
  "check_step_timeout buildTimeout i s =
     (case s_Timeout s of
        None \<Rightarrow> None
      | Some t \<Rightarrow>
          (case ptypes_Duration t of
             Inl e \<Rightarrow> Some (StepTimeoutInvalid i e)
           | Inr timeout \<Rightarrow>
               if timeout > MaxTimeout then Some (StepTimeoutExceedsLimit i timeout)
               else if timeout > buildTimeout then Some (StepTimeoutExceedsBuild i timeout buildTimeout)
               else if timeout < 0 then Some (StepTimeoutNegative i)
               else None))"

text \<open>The body of the loop, on the ids known before the step.\<close>

definition check_step :: "int \<Rightarrow> nat \<Rightarrow> string list \<Rightarrow> build_step \<Rightarrow> steps_error option" where
  "check_step buildTimeout i knownSteps s =
     or_err (check_step_fields i s)
      (or_err
        (first_err (\<lambda>dep. err_if (dep \<notin> set knownSteps) (DependencyUndefined i (s_Id s) dep)) (s_WaitFor s))
        (or_err (check_step_id i knownSteps s)
          (or_err
            (first_err (\<lambda>e. err_if (\<not> str_contains e ''='') (EnvNotKeyValue i (s_Id s) e)) (s_Env s))
            (check_step_timeout buildTimeout i s))))"

fun check_steps :: "int \<Rightarrow> nat \<Rightarrow> string list \<Rightarrow> build_step list \<Rightarrow> steps_error option" where
  "check_steps buildTimeout i knownSteps [] = None"
| "check_steps buildTimeout i knownSteps (s # ss) =
     (case check_step buildTimeout i knownSteps s of
        Some e \<Rightarrow> Some e
      | None \<Rightarrow>
          check_steps buildTimeout (Suc i) (if s_Id s \<noteq> [] then s_Id s # knownSteps else knownSteps) ss)"

definition CheckBuildSteps :: "build_step list \<Rightarrow> int \<Rightarrow> steps_error option" where
  "CheckBuildSteps steps buildTimeout =
     (let buildTimeout = (if buildTimeout = 0 then MaxTimeout else buildTimeout)
      in or_err (err_if (steps = []) NoSteps)
          (or_err (err_if (length steps > maxNumSteps) TooManySteps)
            (check_steps buildTimeout 0 [StartStep] steps)))"

subsection \<open>What it accepts\<close>

definition step_limits :: "build_step \<Rightarrow> bool" where
  "step_limits s \<longleftrightarrow>
     s_Name s \<noteq> [] \<and> length (s_Name s) \<le> maxStepNameLength \<and>
     length (s_Args s) \<le> maxNumArgs \<and> (\<forall>a\<in>set (s_Args s). length a \<le> maxArgLength) \<and>
     length (s_Dir s) \<le> maxDirLength \<and> (\<forall>e\<in>set (s_Env s). CHR ''='' \<in> set e)"

definition timeout_within :: "int \<Rightarrow> build_step \<Rightarrow> bool" where
  "timeout_within bt s \<longleftrightarrow>
     (case s_Timeout s of
        None \<Rightarrow> True
      | Some t \<Rightarrow> (\<exists>d. ptypes_Duration t = Inr d \<and> 0 \<le> d \<and> d \<le> MaxTimeout \<and> d \<le> bt))"

text \<open>Dependencies name the start step or a step that comes before; ids do not repeat.\<close>

definition deps_backwards :: "build_step list \<Rightarrow> bool" where
  "deps_backwards steps \<longleftrightarrow>
     (\<forall>i<length steps. \<forall>d\<in>set (s_WaitFor (steps ! i)).
        d = StartStep \<or> (d \<noteq> [] \<and> (\<exists>j<i. s_Id (steps ! j) = d)))"

definition ids_unique :: "build_step list \<Rightarrow> bool" where
  "ids_unique steps \<longleftrightarrow>
     (\<forall>i<length steps. s_Id (steps ! i) \<noteq> [] \<longrightarrow>
        s_Id (steps ! i) \<noteq> StartStep \<and> (\<forall>j<i. s_Id (steps ! j) \<noteq> s_Id (steps ! i)))"

lemma StartStep_not_empty [simp]: "StartStep \<noteq> []"
  by (simp add: StartStep_def)

lemma check_step_fields_None:
  "check_step_fields i s = None \<longleftrightarrow>
     s_Name s \<noteq> [] \<and> length (s_Name s) \<le> maxStepNameLength \<and> length (s_Args s) \<le> maxNumArgs \<and>
     (\<forall>a\<in>set (s_Args s). length a \<le> maxArgLength) \<and> length (s_Dir s) \<le> maxDirLength"
  by (auto simp: check_step_fields_def first_err_idx_None all_set_conv_all_nth not_less)

lemma check_step_timeout_None: "check_step_timeout bt i s = None \<longleftrightarrow> timeout_within bt s"
  by (auto simp: check_step_timeout_def timeout_within_def split: option.splits sum.splits)

lemma check_step_None:
  assumes "StartStep \<in> set K"
  shows "check_step bt i K s = None \<longleftrightarrow>
     step_limits s \<and> timeout_within bt s \<and> set (s_WaitFor s) \<subseteq> set K \<and> (s_Id s \<noteq> [] \<longrightarrow> s_Id s \<notin> set K)"
  using assms
  by (auto simp: check_step_def check_step_fields_None check_step_timeout_None check_step_id_def
      step_limits_def str_contains_char)

text \<open>The ids known before position \<open>j\<close>.\<close>

definition known_before :: "string list \<Rightarrow> build_step list \<Rightarrow> nat \<Rightarrow> string set" where
  "known_before K steps j = set K \<union> {d. d \<noteq> [] \<and> (\<exists>k<j. s_Id (steps ! k) = d)}"

lemma known_before_0 [simp]: "known_before K steps 0 = set K"
  by (simp add: known_before_def)

lemma known_before_Cons:
  "known_before K (s # ss) (Suc j) =
     known_before (if s_Id s \<noteq> [] then s_Id s # K else K) ss j"
  by (auto simp: known_before_def less_Suc_eq_0_disj)

lemma check_steps_None:
  assumes "StartStep \<in> set K"
  shows "check_steps bt i K steps = None \<longleftrightarrow>
     (\<forall>j<length steps. step_limits (steps ! j) \<and> timeout_within bt (steps ! j) \<and>
        set (s_WaitFor (steps ! j)) \<subseteq> known_before K steps j \<and>
        (s_Id (steps ! j) \<noteq> [] \<longrightarrow> s_Id (steps ! j) \<notin> known_before K steps j))"
  using assms
proof (induction steps arbitrary: i K)
  case (Cons s ss)
  let ?K = "if s_Id s \<noteq> [] then s_Id s # K else K"
  have "check_steps bt i K (s # ss) = None \<longleftrightarrow> check_step bt i K s = None \<and> check_steps bt (Suc i) ?K ss = None"
    by (auto split: option.splits)
  also have "check_steps bt (Suc i) ?K ss = None \<longleftrightarrow>
     (\<forall>j<length ss. step_limits (ss ! j) \<and> timeout_within bt (ss ! j) \<and>
        set (s_WaitFor (ss ! j)) \<subseteq> known_before ?K ss j \<and>
        (s_Id (ss ! j) \<noteq> [] \<longrightarrow> s_Id (ss ! j) \<notin> known_before ?K ss j))"
    using Cons by (intro Cons.IH) simp
  finally show ?case
    using Cons.prems by (simp add: check_step_None All_less_Suc2 known_before_Cons)
qed simp

lemma known_before_deps:
  "(\<forall>j<length steps. set (s_WaitFor (steps ! j)) \<subseteq> known_before [StartStep] steps j) \<longleftrightarrow> deps_backwards steps"
  by (auto simp: known_before_def deps_backwards_def subset_iff)

lemma known_before_ids:
  "(\<forall>j<length steps. s_Id (steps ! j) \<noteq> [] \<longrightarrow> s_Id (steps ! j) \<notin> known_before [StartStep] steps j)
     \<longleftrightarrow> ids_unique steps"
  by (auto simp: known_before_def ids_unique_def)

lemma CheckBuildSteps_None:
  "CheckBuildSteps steps bt = None \<longleftrightarrow>
     steps \<noteq> [] \<and> length steps \<le> maxNumSteps \<and>
     (\<forall>s\<in>set steps. step_limits s \<and> timeout_within (if bt = 0 then MaxTimeout else bt) s) \<and>
     deps_backwards steps \<and> ids_unique steps"
proof -
  have "CheckBuildSteps steps bt = None \<longleftrightarrow> steps \<noteq> [] \<and> length steps \<le> maxNumSteps \<and>
      check_steps (if bt = 0 then MaxTimeout else bt) 0 [StartStep] steps = None"
    by (auto simp: CheckBuildSteps_def Let_def)
  also have "\<dots> \<longleftrightarrow> steps \<noteq> [] \<and> length steps \<le> maxNumSteps \<and>
     (\<forall>s\<in>set steps. step_limits s \<and> timeout_within (if bt = 0 then MaxTimeout else bt) s) \<and>
     deps_backwards steps \<and> ids_unique steps"
    unfolding known_before_deps [symmetric] known_before_ids [symmetric]
    by (subst check_steps_None) (auto simp: all_set_conv_all_nth)
  finally show ?thesis .
qed

section \<open>Artifacts\<close>

datatype artifacts_error =
  DifferentImages
| TooManyImages
| ImageTooLong nat
| LocationEmpty
| LocationNotGS string
| PathsEmpty
| TooManyPaths nat
| PathHasWhitespace string
| DuplicatePaths "string list"

definition empty_artifacts :: artifacts where
  "empty_artifacts = \<lparr>a_Images = None, a_Objects = None\<rparr>"

text \<open>The loop over the paths returns at the first path with white space, and otherwise
  reports the repeated paths it has collected.\<close>

definition check_paths :: "string list \<Rightarrow> artifacts_error option" where
  "check_paths paths =
     or_err (err_if (paths = []) PathsEmpty)
      (or_err (err_if (length paths > maxArtifactsPaths) (TooManyPaths (length paths)))
        (or_err (first_err (\<lambda>p. err_if (has_space p) (PathHasWhitespace p)) paths)
          (err_if (scan_dups [] paths \<noteq> []) (DuplicatePaths (scan_dups [] paths)))))"

definition with_slash :: "string \<Rightarrow> string" where
  "with_slash url = (if has_suffix url ''/'' then url else url @ ''/'')"

definition check_objects :: "artifact_objects \<Rightarrow> artifact_objects \<times> artifacts_error option" where
  "check_objects obj =
     (let gcsURL = Location obj
      in if gcsURL = [] then (obj, Some LocationEmpty)
         else if \<not> has_prefix gcsURL ''gs://'' then (obj, Some (LocationNotGS gcsURL))
         else (obj\<lparr>Location := with_slash gcsURL\<rparr>, check_paths (Paths obj)))"

text \<open>The three parts of the function: the top-level images are stored in the artifacts,
  the images and the objects are checked, the images are stored back.\<close>

definition copy_images_in :: "store \<Rightarrow> build \<Rightarrow> build" where
  "copy_images_in h b =
     (if deref h (Images b) \<noteq> [] then
        b\<lparr>Artifacts :=
          Some ((case Artifacts b of Some a \<Rightarrow> a | None \<Rightarrow> empty_artifacts)\<lparr>a_Images := Images b\<rparr>)\<rparr>
      else b)"

definition check_images :: "string list \<Rightarrow> artifacts_error option" where
  "check_images imgs =
     or_err (err_if (length imgs > maxNumImages) TooManyImages)
       (first_err_idx (\<lambda>ii i. err_if (length i > MaxImageLength) (ImageTooLong ii)) imgs)"

definition check_artifact_objects :: "build \<Rightarrow> build \<times> artifacts_error option" where
  "check_artifact_objects b =
     (case Artifacts b of
        None \<Rightarrow> (b, None)
      | Some a \<Rightarrow>
          (case a_Objects a of
             None \<Rightarrow> (b, None)
           | Some obj \<Rightarrow>
               (case check_objects obj of
                  (obj', e) \<Rightarrow> (b\<lparr>Artifacts := Some (a\<lparr>a_Objects := Some obj'\<rparr>)\<rparr>, e))))"

definition copy_images_out :: "store \<Rightarrow> build \<Rightarrow> build" where
  "copy_images_out h b =
     (if deref h (artifacts_images b) \<noteq> [] then b\<lparr>Images := artifacts_images b\<rparr> else b)"

definition CheckArtifacts :: "store \<Rightarrow> build \<Rightarrow> build \<times> artifacts_error option" where
  "CheckArtifacts h b =
     (if deref h (Images b) \<noteq> [] \<and> deref h (artifacts_images b) \<noteq> [] \<and>
         deref h (artifacts_images b) \<noteq> deref h (Images b)
      then (b, Some DifferentImages)
      else
        (let b = copy_images_in h b
         in case check_images (deref h (artifacts_images b)) of
              Some e \<Rightarrow> (b, Some e)
            | None \<Rightarrow>
                (case check_artifact_objects b of
                   (b, Some e) \<Rightarrow> (b, Some e)
                 | (b, None) \<Rightarrow> (copy_images_out h b, None))))"

subsection \<open>What it accepts and what it writes\<close>

lemma check_paths_None:
  "check_paths ps = None \<longleftrightarrow>
     ps \<noteq> [] \<and> length ps \<le> maxArtifactsPaths \<and> distinct ps \<and> (\<forall>p\<in>set ps. \<not> has_space p)"
  by (auto simp: check_paths_def scan_dups_Nil)

lemma check_images_None:
  "check_images imgs = None \<longleftrightarrow> length imgs \<le> maxNumImages \<and> (\<forall>i\<in>set imgs. length i \<le> MaxImageLength)"
  by (auto simp: check_images_def first_err_idx_None all_set_conv_all_nth not_less)

lemma check_objects_None:
  "check_objects obj = (obj', None) \<longleftrightarrow>
     has_prefix (Location obj) ''gs://'' \<and> check_paths (Paths obj) = None \<and>
     obj' = obj\<lparr>Location := with_slash (Location obj)\<rparr>"
  by (auto simp: check_objects_def Let_def)

lemma with_slash_suffix: "has_suffix (with_slash u) ''/''"
  by (auto simp: with_slash_def has_suffix_iff)

text \<open>The effective image list of a request, whichever field gives it.\<close>

definition given_images :: "store \<Rightarrow> build \<Rightarrow> string list" where
  "given_images h b =
     (if deref h (Images b) \<noteq> [] then deref h (Images b) else deref h (artifacts_images b))"

lemma artifacts_images_upd [simp]:
  "artifacts_images (b\<lparr>Artifacts := Some a\<rparr>) = a_Images a"
  "artifacts_images (b\<lparr>Images := r\<rparr>) = artifacts_images b"
  by (simp_all add: artifacts_images_def)

lemma copy_images_in_facts:
  "deref h (artifacts_images (copy_images_in h b)) = given_images h b"
  "Images (copy_images_in h b) = Images b"
  "artifacts_objects (copy_images_in h b) = artifacts_objects b"
  "deref h (Images b) \<noteq> [] \<Longrightarrow> artifacts_images (copy_images_in h b) = Images b"
  by (auto simp: copy_images_in_def given_images_def artifacts_objects_def empty_artifacts_def
      split: option.splits)

lemma check_artifact_objects_facts:
  assumes "check_artifact_objects b = (b', e)"
  shows "artifacts_images b' = artifacts_images b" "Images b' = Images b" "Steps b' = Steps b"
    "e = None \<Longrightarrow> artifacts_objects b' = map_option (\<lambda>obj. obj\<lparr>Location := with_slash (Location obj)\<rparr>) (artifacts_objects b)"
    "e = None \<longleftrightarrow> (\<forall>obj. artifacts_objects b = Some obj \<longrightarrow>
        has_prefix (Location obj) ''gs://'' \<and> check_paths (Paths obj) = None)"
  using assms
  by (auto simp: check_artifact_objects_def artifacts_images_def artifacts_objects_def check_objects_def Let_def
      split: option.splits if_splits prod.splits)

lemma CheckArtifacts_None:
  assumes "CheckArtifacts h b = (b', None)"
  shows "deref h (Images b') = given_images h b"
    and "given_images h b \<noteq> [] \<Longrightarrow> artifacts_images b' = Images b'"
    and "given_images h b = [] \<Longrightarrow> deref h (artifacts_images b') = []"
    and "check_images (given_images h b) = None"
    and "Steps b' = Steps b"
    and "artifacts_objects b' =
      map_option (\<lambda>obj. obj\<lparr>Location := with_slash (Location obj)\<rparr>) (artifacts_objects b)"
proof -
  let ?b1 = "copy_images_in h b"
  obtain b2 where b2: "check_artifact_objects ?b1 = (b2, None)" "b' = copy_images_out h b2"
      "check_images (given_images h b) = None"
    using assms by (auto simp: CheckArtifacts_def Let_def copy_images_in_facts
        split: if_splits option.splits prod.splits)
  note f = check_artifact_objects_facts [OF b2(1)]
  have i2: "deref h (artifacts_images b2) = given_images h b" "Images b2 = Images b"
    using f copy_images_in_facts by simp_all
  show "check_images (given_images h b) = None" by (rule b2(3))
  show "deref h (Images b') = given_images h b"
    using i2 by (auto simp: b2(2) copy_images_out_def given_images_def)
  show "given_images h b \<noteq> [] \<Longrightarrow> artifacts_images b' = Images b'"
    using i2 by (simp add: b2(2) copy_images_out_def)
  show "given_images h b = [] \<Longrightarrow> deref h (artifacts_images b') = []"
    using i2 by (simp add: b2(2) copy_images_out_def)
  have "Steps ?b1 = Steps b" by (simp add: copy_images_in_def)
  then show "Steps b' = Steps b" using f(3) by (simp add: b2(2) copy_images_out_def)
  show "artifacts_objects b' =
      map_option (\<lambda>obj. obj\<lparr>Location := with_slash (Location obj)\<rparr>) (artifacts_objects b)"
    using f(4) copy_images_in_facts(3) by (simp add: b2(2) copy_images_out_def artifacts_objects_def)
qed

text \<open>When it returns no error.\<close>

lemma CheckArtifacts_accepts:
  "snd (CheckArtifacts h b) = None \<longleftrightarrow>
     (deref h (Images b) \<noteq> [] \<longrightarrow> deref h (artifacts_images b) \<noteq> [] \<longrightarrow>
        deref h (artifacts_images b) = deref h (Images b)) \<and>
     check_images (given_images h b) = None \<and>
     (\<forall>obj. artifacts_objects b = Some obj \<longrightarrow>
        has_prefix (Location obj) ''gs://'' \<and> check_paths (Paths obj) = None)"
proof -
  obtain b2 e where b2: "check_artifact_objects (copy_images_in h b) = (b2, e)" by fastforce
  show ?thesis
    using check_artifact_objects_facts(5) [OF b2] b2
    by (auto simp: CheckArtifacts_def Let_def copy_images_in_facts split: option.splits)
qed

section \<open>Properties\<close>

text \<open>
  C23: \<open>CheckBuildSteps\<close> accepts a list of steps exactly if there are between 1 and 100 of
  them, each within its limits and with a timeout that is valid and at most the timeout of
  the build (24 hours if that is 0), every \<open>waitFor\<close> entry is the start step or the id of an
  earlier step, and no id repeats or is the start step.
\<close>

theorem CheckBuildSteps_accepts:
  "CheckBuildSteps steps d = None \<longleftrightarrow>
     1 \<le> length steps \<and> length steps \<le> 100 \<and>
     (\<forall>s\<in>set steps. step_limits s \<and> timeout_within (if d = 0 then MaxTimeout else d) s) \<and>
     (\<forall>i<length steps. \<forall>w\<in>set (s_WaitFor (steps ! i)).
        w = ''-'' \<or> (w \<noteq> [] \<and> (\<exists>j<i. s_Id (steps ! j) = w))) \<and>
     (\<forall>i<length steps. s_Id (steps ! i) \<noteq> [] \<longrightarrow>
        s_Id (steps ! i) \<noteq> ''-'' \<and> (\<forall>j<i. s_Id (steps ! j) \<noteq> s_Id (steps ! i)))"
proof -
  have "1 \<le> length steps \<longleftrightarrow> steps \<noteq> []" by (cases steps) auto
  then show ?thesis
    by (simp only: CheckBuildSteps_None deps_backwards_def ids_unique_def StartStep_def maxNumSteps_def)
qed

theorem CheckBuildSteps_accepts_witness:
  "CheckBuildSteps [empty_step\<lparr>s_Name := ''a'', s_Id := ''x''\<rparr>,
     empty_step\<lparr>s_Name := ''b'', s_WaitFor := [''x'', ''-'']\<rparr>] 0 = None"
  by (subst CheckBuildSteps_accepts)
     (simp add: empty_step_def step_limits_def timeout_within_def maxStepNameLength_def less_Suc_eq all_conj_distrib)

text \<open>
  A build that \<open>CheckArtifacts\<close> accepts has the images that were given in either field;
  if there are any, both fields are the same slice (not copies of it); the location of the
  objects ends with a slash, and nothing but the two fields is written.
\<close>

theorem CheckArtifacts_shares_images:
  assumes "CheckArtifacts h b = (b', None)" "given_images h b \<noteq> []"
  shows "deref h (Images b') = given_images h b \<and> artifacts_images b' = Images b' \<and>
     (\<forall>obj. artifacts_objects b' = Some obj \<longrightarrow> has_suffix (Location obj) ''/'') \<and>
     Steps b' = Steps b"
proof -
  note f = CheckArtifacts_None [OF assms(1)]
  have "has_suffix (Location obj) ''/''" if "artifacts_objects b' = Some obj" for obj
    using that f(6) by (cases "artifacts_objects b") (auto simp: with_slash_suffix)
  then show ?thesis using f(1,2,5) assms(2) by blast
qed

theorem CheckArtifacts_shares_images_witness:
  "let h = (\<lambda>_. [])(3 := [''gcr.io/p/i'']); b = empty_build\<lparr>Images := Some 3\<rparr>;
       b' = fst (CheckArtifacts h b)
   in Images b' = Some 3 \<and> artifacts_images b' = Images b'"
proof -
  let ?h = "(\<lambda>_. [])(3 := [''gcr.io/p/i''])" and ?b = "empty_build\<lparr>Images := Some (3::nat)\<rparr>"
  have run: "CheckArtifacts ?h ?b =
      (?b\<lparr>Artifacts := Some (empty_artifacts\<lparr>a_Images := Some 3\<rparr>)\<rparr>, None)"
    by (simp add: CheckArtifacts_def copy_images_in_def copy_images_out_def check_images_def
        check_artifact_objects_def artifacts_images_def empty_build_def empty_artifacts_def
        maxNumImages_def MaxImageLength_def or_err_def err_if_def)
  have "given_images ?h ?b \<noteq> []" by (simp add: given_images_def)
  from CheckArtifacts_shares_images [OF run this] run show ?thesis by simp
qed

end
