(* ===== verification/GoPath.thy ===== *)
theory GoPath
  imports Prelude
begin

text \<open>
  The functions of Go's package \<open>path\<close> that the program calls: \<open>path.Clean\<close>,
  \<open>path.IsAbs\<close> and \<open>path.Join\<close>, on slash-separated paths. \<open>Clean\<close> is lexical: it
  drops empty and \<^verbatim>\<open>.\<close> elements and lets \<^verbatim>\<open>..\<close> remove the element before it.
\<close>

definition is_abs :: "string \<Rightarrow> bool" where
  "is_abs p = has_prefix p ''/''"

definition comps :: "string \<Rightarrow> string list" where
  "comps p = filter (\<lambda>c. c \<noteq> [] \<and> c \<noteq> ''.'') (split_on CHR ''/'' p)"

text \<open>The elements kept so far, the last one first.\<close>

definition push_comp :: "bool \<Rightarrow> string list \<Rightarrow> string \<Rightarrow> string list" where
  "push_comp rooted st c =
     (if c = ''..'' then
        (case st of
           [] \<Rightarrow> if rooted then [] else [''..'']
         | t # ts \<Rightarrow> if t = ''..'' then ''..'' # st else ts)
      else c # st)"

definition resolve :: "bool \<Rightarrow> string list \<Rightarrow> string list" where
  "resolve rooted cs = rev (foldl (push_comp rooted) [] cs)"

definition path_clean :: "string \<Rightarrow> string" where
  "path_clean p =
     (if p = [] then ''.''
      else let out = join ''/'' (resolve (is_abs p) (comps p))
           in if is_abs p then CHR ''/'' # out else if out = [] then ''.'' else out)"

definition path_join :: "string list \<Rightarrow> string" where
  "path_join es =
     (case filter (\<lambda>e. e \<noteq> []) es of [] \<Rightarrow> [] | fs \<Rightarrow> path_clean (join ''/'' fs))"

section \<open>Normal forms\<close>

text \<open>
  The stack of a cleaned path: proper elements, and for a relative path a block of
  \<^verbatim>\<open>..\<close> below them.
\<close>

definition proper :: "string \<Rightarrow> bool" where
  "proper c \<longleftrightarrow> c \<noteq> [] \<and> c \<noteq> ''.'' \<and> CHR ''/'' \<notin> set c"

fun normal_stack :: "bool \<Rightarrow> string list \<Rightarrow> bool" where
  "normal_stack rooted [] = True"
| "normal_stack rooted (c # st) =
     (proper c \<and> (c = ''..'' \<longrightarrow> \<not> rooted \<and> (\<forall>d\<in>set st. d = ''..'')) \<and> normal_stack rooted st)"

lemma comps_proper: "c \<in> set (comps p) \<Longrightarrow> proper c"
  by (auto simp: comps_def proper_def dest: split_on_no_sep)

lemma push_comp_normal:
  "normal_stack r st \<Longrightarrow> proper c \<Longrightarrow> normal_stack r (push_comp r st c)"
  by (cases st) (auto simp: push_comp_def)

lemma foldl_push_normal:
  "normal_stack r st \<Longrightarrow> \<forall>c\<in>set cs. proper c \<Longrightarrow> normal_stack r (foldl (push_comp r) st cs)"
  by (induction cs arbitrary: st) (auto intro: push_comp_normal)

lemma resolve_normal: "\<forall>c\<in>set cs. proper c \<Longrightarrow> normal_stack r (rev (resolve r cs))"
  by (simp add: resolve_def foldl_push_normal)

lemma normal_stack_proper: "normal_stack r st \<Longrightarrow> \<forall>c\<in>set st. proper c"
  by (induction st) auto

text \<open>Pushing a normal stack again rebuilds it.\<close>

lemma foldl_push_rebuild: "normal_stack r st \<Longrightarrow> foldl (push_comp r) [] (rev st) = st"
proof (induction st)
  case (Cons c st)
  have "push_comp r st c = c # st"
  proof (cases "c = ''..''")
    case True
    with Cons.prems have "\<not> r" "st = [] \<or> hd st = ''..''" by (cases st; simp)+
    with True show ?thesis by (cases st) (simp_all add: push_comp_def)
  qed (simp add: push_comp_def)
  with Cons show ?case by simp
qed simp

lemma resolve_idem: "\<forall>c\<in>set cs. proper c \<Longrightarrow> resolve r (resolve r cs) = resolve r cs"
  using foldl_push_rebuild [OF resolve_normal, of cs r] by (simp add: resolve_def)

lemma resolve_proper: "\<forall>c\<in>set cs. proper c \<Longrightarrow> \<forall>c\<in>set (resolve r cs). proper c"
  using normal_stack_proper [OF resolve_normal] by simp

lemma comps_join:
  assumes "\<forall>c\<in>set cs. proper c"
  shows "comps (join ''/'' cs) = cs"
proof (cases "cs = []")
  case False
  with assms have "split_on CHR ''/'' (join ''/'' cs) = cs"
    by (intro split_on_join) (auto simp: proper_def)
  with assms show ?thesis by (auto simp: comps_def proper_def intro!: filter_True)
qed (simp add: comps_def)

lemma comps_slash: "comps (CHR ''/'' # p) = comps p"
  by (simp add: comps_def)

lemma join_proper_first:
  assumes "\<forall>c\<in>set cs. proper c" and "cs \<noteq> []"
  shows "join ''/'' cs \<noteq> []" and "\<not> is_abs (join ''/'' cs)"
proof -
  from assms obtain c ds where c: "cs = c # ds" "proper c" by (cases cs) auto
  then obtain x xs where "c = x # xs" "x \<noteq> CHR ''/''" by (cases c) (auto simp: proper_def)
  with c show "join ''/'' cs \<noteq> []" "\<not> is_abs (join ''/'' cs)"
    by (cases ds; simp add: is_abs_def)+
qed

text \<open>The path written for a list of elements.\<close>

definition render :: "bool \<Rightarrow> string list \<Rightarrow> string" where
  "render rooted cs =
     (if rooted then CHR ''/'' # join ''/'' cs else if cs = [] then ''.'' else join ''/'' cs)"

lemma path_clean_render: "path_clean p = render (is_abs p) (resolve (is_abs p) (comps p))"
proof (cases "p = []")
  case True
  then show ?thesis by (simp add: path_clean_def render_def is_abs_def comps_def resolve_def)
next
  case False
  let ?cs = "resolve (is_abs p) (comps p)"
  have "\<forall>c\<in>set ?cs. proper c" using comps_proper by (intro resolve_proper) blast
  then have "join ''/'' ?cs = [] \<longleftrightarrow> ?cs = []" using join_proper_first(1) by auto
  with False show ?thesis by (cases "is_abs p") (simp_all add: path_clean_def render_def Let_def)
qed

lemma render_facts:
  assumes "\<forall>c\<in>set cs. proper c"
  shows "is_abs (render r cs) = r" and "comps (render r cs) = cs"
proof -
  have dot: "\<not> is_abs ''.''" "comps ''.'' = []" by (simp_all add: is_abs_def comps_def)
  show "is_abs (render r cs) = r"
    using join_proper_first(2) [OF assms] dot
    by (cases r; cases "cs = []") (simp_all add: render_def is_abs_def)
  show "comps (render r cs) = cs"
    using dot by (simp add: render_def comps_slash comps_join [OF assms])
qed

lemma clean_proper: "\<forall>c\<in>set (resolve r (comps p)). proper c"
  using comps_proper by (intro resolve_proper) blast

lemma is_abs_clean [simp]: "is_abs (path_clean p) = is_abs p"
  by (simp add: path_clean_render render_facts clean_proper)

lemma comps_clean: "comps (path_clean p) = resolve (is_abs p) (comps p)"
  by (simp add: path_clean_render render_facts clean_proper)

lemma path_clean_idem: "path_clean (path_clean p) = path_clean p"
proof -
  have "resolve (is_abs p) (resolve (is_abs p) (comps p)) = resolve (is_abs p) (comps p)"
    using comps_proper by (intro resolve_idem) blast
  then show ?thesis
    by (simp add: path_clean_render [of "path_clean p"] comps_clean) (simp add: path_clean_render)
qed

text \<open>Without \<^verbatim>\<open>..\<close> elements nothing is removed.\<close>

lemma resolve_no_dotdot: "''..'' \<notin> set cs \<Longrightarrow> resolve r cs = cs"
proof -
  assume a: "''..'' \<notin> set cs"
  have "foldl (push_comp r) st cs = rev cs @ st" for st
    using a by (induction cs arbitrary: st) (auto simp: push_comp_def)
  then show ?thesis by (simp add: resolve_def)
qed

text \<open>In a rooted path no \<^verbatim>\<open>..\<close> survives.\<close>

lemma normal_stack_rooted: "normal_stack True st \<Longrightarrow> ''..'' \<notin> set st"
  by (induction st) auto

lemma comps_clean_abs: "is_abs p \<Longrightarrow> ''..'' \<notin> set (comps (path_clean p))"
  using normal_stack_rooted [OF resolve_normal, of "comps p"] comps_proper
  by (auto simp: comps_clean)

lemma comps_join_slash: "comps (p @ CHR ''/'' # q) = comps p @ comps q"
  by (simp add: comps_def split_on_sep)

end
