(* ===== verification/Validate_Env.thy ===== *)
theory Validate_Env
  imports Build_Proto GoRegexp GoPath
begin

text \<open>
  \<open>checkSecrets\<close>, \<open>checkEnvVars\<close> and \<open>checkVolumes\<close> of package \<open>validate\<close>. The sets the
  code keeps as maps are lists of the keys added so far. \<open>checkSecrets\<close> can panic: it
  slices every environment entry at its equals sign, and only the entries of the steps
  have been checked to have one.
\<close>

definition maxNumEnvs :: nat where "maxNumEnvs = 100"
definition maxEnvLength :: nat where "maxEnvLength = 1000"
definition maxNumSecretEnvs :: nat where "maxNumSecretEnvs = 100"
definition maxSecretSize :: int where "maxSecretSize = 64 * 1024"

section \<open>Environment variables\<close>

datatype env_error = TooManyEnvs | EnvTooLong nat

datatype env_vars_error = OptionsEnvInvalid env_error | StepEnvInvalid nat nat

definition runCommonEnvChecks :: "string list \<Rightarrow> env_error option" where
  "runCommonEnvChecks envs =
     or_err (err_if (length envs > maxNumEnvs) TooManyEnvs)
       (first_err_idx (\<lambda>ei a. err_if (length a > maxEnvLength) (EnvTooLong ei)) envs)"

text \<open>The message for a step prints the limit \<open>maxNumEnvs\<close> where the cause belongs.\<close>

definition checkEnvVars :: "build \<Rightarrow> env_vars_error option" where
  "checkEnvVars b =
     or_err (map_option OptionsEnvInvalid (runCommonEnvChecks (options_Env b)))
       (first_err_idx (\<lambda>i s. map_option (\<lambda>err. StepEnvInvalid i maxNumEnvs) (runCommonEnvChecks (s_Env s)))
          (Steps b))"

definition env_limits :: "string list \<Rightarrow> bool" where
  "env_limits envs \<longleftrightarrow> length envs \<le> maxNumEnvs \<and> (\<forall>e\<in>set envs. length e \<le> maxEnvLength)"

lemma runCommonEnvChecks_None: "runCommonEnvChecks envs = None \<longleftrightarrow> env_limits envs"
  by (auto simp: runCommonEnvChecks_def env_limits_def first_err_idx_None all_set_conv_all_nth not_less)

lemma checkEnvVars_None:
  "checkEnvVars b = None \<longleftrightarrow> env_limits (options_Env b) \<and> (\<forall>s\<in>set (Steps b). env_limits (s_Env s))"
  by (auto simp: checkEnvVars_def first_err_idx_None runCommonEnvChecks_None all_set_conv_all_nth)

section \<open>Secrets\<close>

datatype secrets_error =
  GlobalSecretRepeated string
| StepUsesGlobalSecret nat string
| StepSecretRepeated nat string
| KmsKeyRepeated string
| SecretDefinesNothing nat
| SecretEnvRepeated string
| SecretUndefined string
| SecretUnused string
| TooManySecretEnvs
| SecretTooLong string
| SecretAndEnv nat string

datatype 'e failure = Err 'e | Panic

text \<open>Adding keys to a set, with an error for one that is already there.\<close>

fun add_unique :: "('a \<Rightarrow> 'e) \<Rightarrow> 'a list \<Rightarrow> 'a list \<Rightarrow> 'e + 'a list" where
  "add_unique e seen [] = Inr seen"
| "add_unique e seen (x # xs) =
     (if x \<in> set seen then Inl (e x) else add_unique e (x # seen) xs)"

text \<open>The first three loops: the secret names that are used.\<close>

fun collect_step_secrets :: "nat \<Rightarrow> string list \<Rightarrow> build_step list \<Rightarrow> secrets_error + string list" where
  "collect_step_secrets i used [] = Inr used"
| "collect_step_secrets i used (s # ss) =
     (case add_unique (StepSecretRepeated i) [] (s_SecretEnv s) of
        Inl e \<Rightarrow> Inl e
      | Inr these \<Rightarrow> collect_step_secrets (Suc i) (these @ used) ss)"

definition used_secret_envs :: "build \<Rightarrow> secrets_error + string list" where
  "used_secret_envs b =
     (case add_unique GlobalSecretRepeated [] (options_SecretEnv b) of
        Inl e \<Rightarrow> Inl e
      | Inr global \<Rightarrow>
          (case first_err_idx (\<lambda>i s. first_err (\<lambda>se. err_if (se \<in> set global) (StepUsesGlobalSecret i se)) (s_SecretEnv s))
                  (Steps b) of
             Some e \<Rightarrow> Inl e
           | None \<Rightarrow> collect_step_secrets 0 global (Steps b)))"

text \<open>The fourth loop: the keys of the secrets and the names they define.\<close>

fun defined_secret_envs ::
  "nat \<Rightarrow> string list \<Rightarrow> string list \<Rightarrow> secret list \<Rightarrow> secrets_error + string list"
where
  "defined_secret_envs i keys envs [] = Inr envs"
| "defined_secret_envs i keys envs (sec # secs) =
     (if KmsKeyName sec \<in> set keys then Inl (KmsKeyRepeated (KmsKeyName sec))
      else if SecretEnvs sec = [] then Inl (SecretDefinesNothing i)
      else case add_unique SecretEnvRepeated envs (map fst (SecretEnvs sec)) of
             Inl e \<Rightarrow> Inl e
           | Inr envs \<Rightarrow> defined_secret_envs (Suc i) (KmsKeyName sec # keys) envs secs)"

text \<open>The last loop: \<open>e[:strings.Index(e, "=")]\<close> panics without an equals sign.\<close>

fun env_names :: "string list \<Rightarrow> string list option" where
  "env_names [] = Some []"
| "env_names (e # es) =
     (case str_index e ''='' of
        None \<Rightarrow> None
      | Some i \<Rightarrow> map_option ((#) (take i e)) (env_names es))"

definition check_secret_conflicts :: "build \<Rightarrow> nat \<Rightarrow> build_step \<Rightarrow> secrets_error failure option" where
  "check_secret_conflicts b i s =
     (case env_names (options_Env b @ s_Env s) of
        None \<Rightarrow> Some Panic
      | Some envs \<Rightarrow>
          map_option Err
            (first_err (\<lambda>se. err_if (se \<in> set envs) (SecretAndEnv i se))
               (options_SecretEnv b @ s_SecretEnv s)))"

text \<open>The checks on the two sets and on the sizes.\<close>

definition check_secret_sets :: "secret list \<Rightarrow> string list \<Rightarrow> string list \<Rightarrow> secrets_error option" where
  "check_secret_sets secs used defined =
     or_err (first_err (\<lambda>u. err_if (u \<notin> set defined) (SecretUndefined u)) used)
      (or_err (first_err (\<lambda>d. err_if (d \<notin> set used) (SecretUnused d)) defined)
        (or_err (err_if (length defined > maxNumSecretEnvs) TooManySecretEnvs)
          (first_err
            (\<lambda>sec. first_err (\<lambda>(k, v). err_if (int (length v) > maxSecretSize) (SecretTooLong k)) (SecretEnvs sec))
            secs)))"

definition checkSecrets :: "build \<Rightarrow> secrets_error failure option" where
  "checkSecrets b =
     (case used_secret_envs b of
        Inl e \<Rightarrow> Some (Err e)
      | Inr used \<Rightarrow>
          (case defined_secret_envs 0 [] [] (Secrets b) of
             Inl e \<Rightarrow> Some (Err e)
           | Inr defined \<Rightarrow>
               (case check_secret_sets (Secrets b) used defined of
                  Some e \<Rightarrow> Some (Err e)
                | None \<Rightarrow> first_err_idx (check_secret_conflicts b) (Steps b))))"

subsection \<open>What it accepts\<close>

lemma add_unique_Inr:
  "add_unique e seen xs = Inr ys \<longleftrightarrow> distinct xs \<and> set xs \<inter> set seen = {} \<and> ys = rev xs @ seen"
  by (induction e seen xs arbitrary: ys rule: add_unique.induct) auto

lemma collect_step_secrets_Inr:
  "(\<exists>used'. collect_step_secrets i used ss = Inr used') \<longleftrightarrow> (\<forall>s\<in>set ss. distinct (s_SecretEnv s))"
proof (induction i used ss rule: collect_step_secrets.induct)
  case (2 i used s ss)
  then show ?case
    using add_unique_Inr [of "StepSecretRepeated i" "[]" "s_SecretEnv s"]
    by (cases "add_unique (StepSecretRepeated i) [] (s_SecretEnv s)") auto
qed simp

lemma collect_step_secrets_set:
  "collect_step_secrets i used ss = Inr used' \<Longrightarrow> set used' = set used \<union> (\<Union>s\<in>set ss. set (s_SecretEnv s))"
  by (induction i used ss arbitrary: used' rule: collect_step_secrets.induct)
     (auto simp: add_unique_Inr split: sum.splits)

definition all_used :: "build \<Rightarrow> string set" where
  "all_used b = set (options_SecretEnv b) \<union> (\<Union>s\<in>set (Steps b). set (s_SecretEnv s))"

definition all_defined :: "build \<Rightarrow> string set" where
  "all_defined b = (\<Union>sec\<in>set (Secrets b). fst ` set (SecretEnvs sec))"

text \<open>A secret name is listed at most once per step, and not both globally and in a step.\<close>

definition secrets_listed_once :: "build \<Rightarrow> bool" where
  "secrets_listed_once b \<longleftrightarrow>
     distinct (options_SecretEnv b) \<and>
     (\<forall>s\<in>set (Steps b). distinct (s_SecretEnv s) \<and> set (s_SecretEnv s) \<inter> set (options_SecretEnv b) = {})"

lemma used_secret_envs_Inr:
  "(\<exists>used. used_secret_envs b = Inr used) \<longleftrightarrow> secrets_listed_once b"
proof (cases "add_unique GlobalSecretRepeated [] (options_SecretEnv b)")
  case (Inl e)
  then have "\<not> distinct (options_SecretEnv b)"
    using add_unique_Inr [of GlobalSecretRepeated "[]" "options_SecretEnv b"] by auto
  then show ?thesis using Inl by (simp add: used_secret_envs_def secrets_listed_once_def)
next
  case (Inr g)
  then have g: "distinct (options_SecretEnv b)" "set g = set (options_SecretEnv b)"
    by (auto simp: add_unique_Inr)
  let ?clash = "first_err_idx (\<lambda>i s. first_err (\<lambda>se. err_if (se \<in> set g) (StepUsesGlobalSecret i se)) (s_SecretEnv s)) (Steps b)"
  have "?clash = None \<longleftrightarrow> (\<forall>s\<in>set (Steps b). set (s_SecretEnv s) \<inter> set g = {})"
    by (rule first_err_idx_None_set) auto
  then show ?thesis
    using Inr g collect_step_secrets_Inr [of 0 g "Steps b"]
    by (cases ?clash) (auto simp: used_secret_envs_def secrets_listed_once_def)
qed

lemma used_secret_envs_set: "used_secret_envs b = Inr used \<Longrightarrow> set used = all_used b"
proof -
  assume a: "used_secret_envs b = Inr used"
  then obtain g where "add_unique GlobalSecretRepeated [] (options_SecretEnv b) = Inr g"
      "collect_step_secrets 0 g (Steps b) = Inr used"
    by (auto simp: used_secret_envs_def split: sum.splits option.splits)
  then show ?thesis
    using collect_step_secrets_set by (auto simp: all_used_def add_unique_Inr)
qed

text \<open>No two secrets share a key or define the same name.\<close>

definition secret_names :: "secret \<Rightarrow> string list" where
  "secret_names sec = map fst (SecretEnvs sec)"

definition all_secret_names :: "secret list \<Rightarrow> string list" where
  "all_secret_names secs = concat (map secret_names secs)"

definition secrets_well_defined :: "secret list \<Rightarrow> bool" where
  "secrets_well_defined secs \<longleftrightarrow>
     distinct (map KmsKeyName secs) \<and> (\<forall>sec\<in>set secs. SecretEnvs sec \<noteq> []) \<and>
     distinct (all_secret_names secs)"

lemma all_secret_names_simps [simp]:
  "all_secret_names [] = []"
  "all_secret_names (sec # secs) = secret_names sec @ all_secret_names secs"
  by (simp_all add: all_secret_names_def)

lemma secrets_well_defined_Cons:
  "secrets_well_defined (sec # secs) \<longleftrightarrow>
     KmsKeyName sec \<notin> set (map KmsKeyName secs) \<and> SecretEnvs sec \<noteq> [] \<and> distinct (secret_names sec) \<and>
     set (secret_names sec) \<inter> set (all_secret_names secs) = {} \<and> secrets_well_defined secs"
  unfolding secrets_well_defined_def by (simp only: all_secret_names_simps distinct_append) auto

lemma defined_secret_envs_Inr:
  "defined_secret_envs i keys envs secs = Inr ds \<longleftrightarrow>
     secrets_well_defined secs \<and> set (map KmsKeyName secs) \<inter> set keys = {} \<and>
     set (all_secret_names secs) \<inter> set envs = {} \<and> ds = rev (all_secret_names secs) @ envs"
proof (induction i keys envs secs arbitrary: ds rule: defined_secret_envs.induct)
  case (1 i keys envs)
  show ?case by (auto simp: secrets_well_defined_def)
next
  case (2 i keys envs sec secs)
  let ?add = "add_unique SecretEnvRepeated envs (map fst (SecretEnvs sec))"
  consider (bad) "KmsKeyName sec \<in> set keys \<or> SecretEnvs sec = []"
    | (clash) e where "KmsKeyName sec \<notin> set keys" "SecretEnvs sec \<noteq> []" "?add = Inl e"
    | (ok) envs' where "KmsKeyName sec \<notin> set keys" "SecretEnvs sec \<noteq> []" "?add = Inr envs'"
    by (cases ?add) auto
  then show ?case
  proof cases
    case bad
    then show ?thesis by (auto simp: secrets_well_defined_Cons)
  next
    case clash
    then have "\<not> (distinct (secret_names sec) \<and> set (secret_names sec) \<inter> set envs = {})"
      using add_unique_Inr [of SecretEnvRepeated envs "secret_names sec"] by (auto simp: secret_names_def)
    then show ?thesis using clash by (auto simp: secrets_well_defined_Cons)
  next
    case ok
    then have e: "distinct (secret_names sec)" "set (secret_names sec) \<inter> set envs = {}"
        "envs' = rev (secret_names sec) @ envs"
      by (simp_all add: secret_names_def add_unique_Inr)
    have "defined_secret_envs i keys envs (sec # secs) = Inr ds \<longleftrightarrow>
        secrets_well_defined secs \<and> set (map KmsKeyName secs) \<inter> set (KmsKeyName sec # keys) = {} \<and>
        set (all_secret_names secs) \<inter> set envs' = {} \<and> ds = rev (all_secret_names secs) @ envs'"
      using ok "2.IH" [of envs' ds] by simp
    then show ?thesis
      unfolding secrets_well_defined_Cons using e ok(1,2) by auto
  qed
qed

lemma env_names_Some: "(\<exists>ns. env_names es = Some ns) \<longleftrightarrow> (\<forall>e\<in>set es. CHR ''='' \<in> set e)"
proof (induction es)
  case (Cons e es)
  have "str_index e ''='' \<noteq> None \<longleftrightarrow> CHR ''='' \<in> set e"
    using str_contains_char [of e "CHR ''=''"] by (simp add: str_contains_def)
  with Cons show ?case by (auto split: option.splits)
qed simp

lemma env_names_set: "env_names es = Some ns \<Longrightarrow> set ns = (\<lambda>e. take (the (str_index e ''='')) e) ` set es"
  by (induction es arbitrary: ns) (auto split: option.splits)

text \<open>The variable an environment entry sets.\<close>

definition env_name :: "string \<Rightarrow> string" where
  "env_name e = hd (split2 CHR ''='' e)"

lemma str_index_char: "str_index (k @ c # v) [c] = Some (length k)" if "c \<notin> set k"
  using that by (induction k) (auto simp: str_index_Cons)

lemma env_name_index: "CHR ''='' \<in> set e \<Longrightarrow> take (the (str_index e ''='')) e = env_name e"
  by (cases rule: split2_cases [of "CHR ''=''" e]) (auto simp: env_name_def str_index_char)

definition no_secret_env_conflict :: "build \<Rightarrow> build_step \<Rightarrow> bool" where
  "no_secret_env_conflict b s \<longleftrightarrow>
     env_name ` set (options_Env b @ s_Env s) \<inter> set (options_SecretEnv b @ s_SecretEnv s) = {}"

lemma check_secret_conflicts_None:
  "check_secret_conflicts b i s = None \<longleftrightarrow>
     (\<forall>e\<in>set (options_Env b @ s_Env s). CHR ''='' \<in> set e) \<and> no_secret_env_conflict b s"
proof (cases "env_names (options_Env b @ s_Env s)")
  case None
  then show ?thesis
    using env_names_Some [of "options_Env b @ s_Env s"] by (auto simp: check_secret_conflicts_def)
next
  case (Some ns)
  then have eq: "\<forall>e\<in>set (options_Env b @ s_Env s). CHR ''='' \<in> set e"
    using env_names_Some by blast
  have "set ns = env_name ` set (options_Env b @ s_Env s)"
    using env_names_set [OF Some] eq env_name_index by (metis (no_types, lifting) image_cong)
  with Some eq show ?thesis
    by (auto simp: check_secret_conflicts_def no_secret_env_conflict_def)
qed

lemma check_secret_conflicts_Panic:
  "check_secret_conflicts b i s = Some Panic \<longleftrightarrow>
     \<not> (\<forall>e\<in>set (options_Env b @ s_Env s). CHR ''='' \<in> set e)"
  using env_names_Some [of "options_Env b @ s_Env s"]
  by (auto simp: check_secret_conflicts_def split: option.splits)

text \<open>Acceptance, put together.\<close>

definition secrets_ok :: "build \<Rightarrow> bool" where
  "secrets_ok b \<longleftrightarrow>
     secrets_listed_once b \<and> secrets_well_defined (Secrets b) \<and> all_used b = all_defined b \<and>
     card (all_defined b) \<le> maxNumSecretEnvs \<and>
     (\<forall>sec\<in>set (Secrets b). \<forall>kv\<in>set (SecretEnvs sec). int (length (snd kv)) \<le> maxSecretSize) \<and>
     (\<forall>s\<in>set (Steps b). (\<forall>e\<in>set (options_Env b @ s_Env s). CHR ''='' \<in> set e) \<and> no_secret_env_conflict b s)"

lemma check_secret_sets_None:
  assumes "set used = all_used b" "set ds = all_defined b" "distinct ds"
  shows "check_secret_sets (Secrets b) used ds = None \<longleftrightarrow>
     all_used b = all_defined b \<and> card (all_defined b) \<le> maxNumSecretEnvs \<and>
     (\<forall>sec\<in>set (Secrets b). \<forall>kv\<in>set (SecretEnvs sec). int (length (snd kv)) \<le> maxSecretSize)"
proof -
  have "length ds = card (all_defined b)" using assms(2,3) by (metis distinct_card)
  with assms show ?thesis
    by (auto simp: check_secret_sets_def not_less split_beta)
qed

lemma checkSecrets_None: "checkSecrets b = None \<longleftrightarrow> secrets_ok b"
proof (cases "secrets_listed_once b \<and> secrets_well_defined (Secrets b)")
  case False
  then show ?thesis
    using used_secret_envs_Inr [of b] defined_secret_envs_Inr [of 0 "[]" "[]" "Secrets b"]
    by (auto simp: checkSecrets_def secrets_ok_def split: sum.splits)
next
  case True
  then obtain used where used: "used_secret_envs b = Inr used" "set used = all_used b"
    using used_secret_envs_Inr used_secret_envs_set by blast
  obtain ds where ds: "defined_secret_envs 0 [] [] (Secrets b) = Inr ds"
      "ds = rev (all_secret_names (Secrets b))"
    using True by (auto simp: defined_secret_envs_Inr)
  have "set ds = all_defined b" "distinct ds"
    using True ds(2)
    by (auto simp: all_defined_def secrets_well_defined_def all_secret_names_def secret_names_def)
  note sets = check_secret_sets_None [OF used(2) this]
  have "first_err_idx (check_secret_conflicts b) (Steps b) = None \<longleftrightarrow>
      (\<forall>s\<in>set (Steps b). (\<forall>e\<in>set (options_Env b @ s_Env s). CHR ''='' \<in> set e) \<and> no_secret_env_conflict b s)"
    by (simp add: first_err_idx_None check_secret_conflicts_None all_set_conv_all_nth)
  with True used ds sets show ?thesis
    by (auto simp: checkSecrets_def secrets_ok_def split: option.splits)
qed

section \<open>Properties\<close>

text \<open>
  C24: \<open>checkSecrets\<close> returns no error exactly if each secret variable is listed once (not
  twice globally, not globally and in a step, not twice in a step), each is defined by one
  secret and each defined one is used, the keys are distinct, the limits on number and size
  hold, every environment entry has an equals sign, and no step sees a variable both as a
  secret and as an environment entry.
\<close>

theorem checkSecrets_accepts:
  "checkSecrets b = None \<longleftrightarrow>
     distinct (options_SecretEnv b) \<and>
     (\<forall>s\<in>set (Steps b). distinct (s_SecretEnv s) \<and> set (s_SecretEnv s) \<inter> set (options_SecretEnv b) = {}) \<and>
     secrets_well_defined (Secrets b) \<and> all_used b = all_defined b \<and> card (all_defined b) \<le> 100 \<and>
     (\<forall>sec\<in>set (Secrets b). \<forall>kv\<in>set (SecretEnvs sec). length (snd kv) \<le> 65536) \<and>
     (\<forall>s\<in>set (Steps b).
        (\<forall>e\<in>set (options_Env b @ s_Env s). CHR ''='' \<in> set e \<and>
           env_name e \<notin> set (options_SecretEnv b @ s_SecretEnv s)))"
  unfolding checkSecrets_None secrets_ok_def secrets_listed_once_def no_secret_env_conflict_def
    maxNumSecretEnvs_def maxSecretSize_def by (simp add: disjoint_iff) blast

theorem checkSecrets_accepts_witness:
  "checkSecrets (empty_build\<lparr>Steps := [empty_step\<lparr>s_SecretEnv := [''PW''], s_Env := [''A=b'']\<rparr>],
      Secrets := [\<lparr>KmsKeyName = ''k'', SecretEnvs = [(''PW'', ''x'')]\<rparr>]\<rparr>) = None"
  by (subst checkSecrets_accepts)
     (simp add: empty_build_def empty_step_def options_SecretEnv_def options_Env_def all_used_def
        all_defined_def secrets_well_defined_def all_secret_names_def secret_names_def env_name_def)

end
