(* ===== verification/Validate_Volumes.thy ===== *)
theory Validate_Volumes
  imports Build_Proto GoRegexp GoPath
begin

text \<open>
  \<open>commonVolumeChecks\<close> and \<open>checkVolumes\<close> of package \<open>validate\<close>: the volumes of the
  options and of the steps, and the conflicts between them.
\<close>

text \<open>\<^verbatim>\<open>^[a-zA-Z0-9][a-zA-Z0-9_.-]+$\<close>\<close>

definition validVolumeNameRE :: re where
  "validVolumeNameRE =
     Cat (Cls False [(CHR ''a'', CHR ''z''), (CHR ''A'', CHR ''Z''), (CHR ''0'', CHR ''9'')])
       (plus1 (Cls False [(CHR ''a'', CHR ''z''), (CHR ''A'', CHR ''Z''), (CHR ''0'', CHR ''9''),
          (CHR ''_'', CHR ''_''), (CHR ''.'', CHR ''.''), (CHR ''-'', CHR ''-'')]))"

definition reservedVolumePaths :: "string list" where
  "reservedVolumePaths = [''/workspace'', ''/builder/home'', ''/var/run/docker.sock'']"

datatype volume_error =
  VolumeNameInvalid string
| VolumePathNotAbsolute string
| VolumePathReserved string
| VolumePathCloudbuild string
| VolumeNameRepeated string
| VolumePathRepeated string

text \<open>The loop, with the names and the cleaned paths seen so far.\<close>

fun check_volume_list :: "string list \<Rightarrow> string list \<Rightarrow> volume_pb list \<Rightarrow> volume_error option" where
  "check_volume_list volumeNames volumePaths [] = None"
| "check_volume_list volumeNames volumePaths (vol # vols) =
     (let p = path_clean (v_Path vol)
      in if \<not> accepts validVolumeNameRE (v_Name vol) then Some (VolumeNameInvalid (v_Name vol))
         else if \<not> is_abs (path_clean p) then Some (VolumePathNotAbsolute (v_Path vol))
         else if p \<in> set reservedVolumePaths then Some (VolumePathReserved (v_Path vol))
         else if has_prefix p ''/cloudbuild/'' then Some (VolumePathCloudbuild (v_Path vol))
         else if v_Name vol \<in> set volumeNames then Some (VolumeNameRepeated (v_Name vol))
         else if p \<in> set volumePaths then Some (VolumePathRepeated p)
         else check_volume_list (v_Name vol # volumeNames) (p # volumePaths) vols)"

definition commonVolumeChecks :: "volume_pb list \<Rightarrow> volume_error option" where
  "commonVolumeChecks = check_volume_list [] []"

datatype volumes_error =
  GlobalVolumesNeedTwoSteps
| OptionsVolumesInvalid volume_error
| StepVolumesInvalid nat string volume_error
| VolumeNameConflict nat string string
| VolumePathConflict nat string string
| VolumeUsedOnce string

definition check_conflicts :: "string list \<Rightarrow> string list \<Rightarrow> nat \<Rightarrow> build_step \<Rightarrow> volumes_error option" where
  "check_conflicts globalNames globalPaths i s =
     first_err
       (\<lambda>vol. or_err (err_if (v_Name vol \<in> set globalNames) (VolumeNameConflict i (s_Id s) (v_Name vol)))
          (err_if (v_Path vol \<in> set globalPaths) (VolumePathConflict i (s_Id s) (v_Path vol))))
       (s_Volumes s)"

text \<open>Every mention of a volume by a step; a Go map from the name to their number.\<close>

definition volume_mentions :: "build_step list \<Rightarrow> string list" where
  "volume_mentions steps = concat (map (\<lambda>s. map v_Name (s_Volumes s)) steps)"

definition checkVolumes :: "build \<Rightarrow> volumes_error option" where
  "checkVolumes b =
     or_err
      (err_if (options_Volumes b \<noteq> [] \<and> length (Steps b) < 2) GlobalVolumesNeedTwoSteps)
      (or_err (map_option OptionsVolumesInvalid (commonVolumeChecks (options_Volumes b)))
        (or_err
          (first_err_idx
            (\<lambda>i s. map_option (StepVolumesInvalid i (s_Id s)) (commonVolumeChecks (s_Volumes s))) (Steps b))
          (or_err
            (first_err_idx
              (check_conflicts (map v_Name (options_Volumes b)) (map v_Path (options_Volumes b))) (Steps b))
            (let used = volume_mentions (Steps b)
             in first_err (\<lambda>v. err_if (count_list used v < 2) (VolumeUsedOnce v)) (remdups used)))))"

section \<open>What the checks accept\<close>

definition volume_ok :: "volume_pb \<Rightarrow> bool" where
  "volume_ok vol \<longleftrightarrow>
     accepts validVolumeNameRE (v_Name vol) \<and> is_abs (v_Path vol) \<and>
     path_clean (v_Path vol) \<notin> set reservedVolumePaths \<and>
     \<not> has_prefix (path_clean (v_Path vol)) ''/cloudbuild/''"

definition volumes_ok :: "volume_pb list \<Rightarrow> bool" where
  "volumes_ok vols \<longleftrightarrow>
     (\<forall>vol\<in>set vols. volume_ok vol) \<and> distinct (map v_Name vols) \<and>
     distinct (map (\<lambda>vol. path_clean (v_Path vol)) vols)"

lemma check_volume_list_None:
  "check_volume_list ns ps vols = None \<longleftrightarrow>
     volumes_ok vols \<and> v_Name ` set vols \<inter> set ns = {} \<and>
     (\<lambda>vol. path_clean (v_Path vol)) ` set vols \<inter> set ps = {}"
proof (induction ns ps vols rule: check_volume_list.induct)
  case (2 ns ps vol vols)
  define p where "p = path_clean (v_Path vol)"
  show ?case
  proof (cases "volume_ok vol \<and> v_Name vol \<notin> set ns \<and> p \<notin> set ps")
    case False
    then show ?thesis by (auto simp: Let_def volume_ok_def volumes_ok_def p_def)
  next
    case True
    then have "check_volume_list ns ps (vol # vols) = check_volume_list (v_Name vol # ns) (p # ps) vols"
      by (simp add: Let_def volume_ok_def p_def)
    with True "2.IH" [OF p_def] show ?thesis
      by (simp add: volume_ok_def volumes_ok_def p_def [symmetric]) (auto simp: p_def volume_ok_def)
  qed
qed (simp add: volumes_ok_def)

lemma commonVolumeChecks_None: "commonVolumeChecks vols = None \<longleftrightarrow> volumes_ok vols"
  by (simp add: commonVolumeChecks_def check_volume_list_None)

lemma count_list_distinct: "distinct xs \<Longrightarrow> count_list xs x = (if x \<in> set xs then 1 else 0)"
  by (induction xs) auto

text \<open>The number of steps that use a volume.\<close>

definition users :: "build_step list \<Rightarrow> string \<Rightarrow> nat" where
  "users steps v = length (filter (\<lambda>s. v \<in> v_Name ` set (s_Volumes s)) steps)"

lemma count_mentions:
  "\<forall>s\<in>set steps. volumes_ok (s_Volumes s) \<Longrightarrow> count_list (volume_mentions steps) v = users steps v"
proof (induction steps)
  case (Cons s steps)
  have "distinct (map v_Name (s_Volumes s))" using Cons.prems by (simp add: volumes_ok_def)
  then have "count_list (map v_Name (s_Volumes s)) v = (if v \<in> v_Name ` set (s_Volumes s) then 1 else 0)"
    by (simp add: count_list_distinct)
  with Cons show ?case by (simp add: volume_mentions_def users_def)
qed (simp add: volume_mentions_def users_def)

definition build_volumes_ok :: "build \<Rightarrow> bool" where
  "build_volumes_ok b \<longleftrightarrow>
     (options_Volumes b \<noteq> [] \<longrightarrow> length (Steps b) \<ge> 2) \<and> volumes_ok (options_Volumes b) \<and>
     (\<forall>s\<in>set (Steps b). volumes_ok (s_Volumes s) \<and>
        v_Name ` set (s_Volumes s) \<inter> v_Name ` set (options_Volumes b) = {} \<and>
        v_Path ` set (s_Volumes s) \<inter> v_Path ` set (options_Volumes b) = {} \<and>
        (\<forall>vol\<in>set (s_Volumes s). users (Steps b) (v_Name vol) \<ge> 2))"

lemma checkVolumes_None: "checkVolumes b = None \<longleftrightarrow> build_volumes_ok b"
proof (cases "volumes_ok (options_Volumes b) \<and> (\<forall>s\<in>set (Steps b). volumes_ok (s_Volumes s))")
  case False
  have "first_err_idx (\<lambda>i s. map_option (StepVolumesInvalid i (s_Id s)) (commonVolumeChecks (s_Volumes s))) (Steps b)
      = None \<longleftrightarrow> (\<forall>s\<in>set (Steps b). volumes_ok (s_Volumes s))"
    by (rule first_err_idx_None_set) (simp add: commonVolumeChecks_None)
  with False show ?thesis
    by (auto simp: checkVolumes_def build_volumes_ok_def commonVolumeChecks_None)
next
  case True
  have vols: "first_err_idx (\<lambda>i s. map_option (StepVolumesInvalid i (s_Id s)) (commonVolumeChecks (s_Volumes s))) (Steps b) = None"
    using True by (subst first_err_idx_None_set [where P = "\<lambda>s. volumes_ok (s_Volumes s)"])
      (auto simp: commonVolumeChecks_None)
  have conflicts: "first_err_idx (check_conflicts (map v_Name (options_Volumes b)) (map v_Path (options_Volumes b))) (Steps b) = None
      \<longleftrightarrow> (\<forall>s\<in>set (Steps b). v_Name ` set (s_Volumes s) \<inter> v_Name ` set (options_Volumes b) = {} \<and>
        v_Path ` set (s_Volumes s) \<inter> v_Path ` set (options_Volumes b) = {})"
    by (rule first_err_idx_None_set) (auto simp: check_conflicts_def)
  have "set (volume_mentions (Steps b)) = (\<Union>s\<in>set (Steps b). v_Name ` set (s_Volumes s))"
    by (simp add: volume_mentions_def)
  then have once: "first_err (\<lambda>v. err_if (count_list (volume_mentions (Steps b)) v < 2) (VolumeUsedOnce v))
        (remdups (volume_mentions (Steps b))) = None
      \<longleftrightarrow> (\<forall>s\<in>set (Steps b). \<forall>vol\<in>set (s_Volumes s). users (Steps b) (v_Name vol) \<ge> 2)"
    using True by (simp add: count_mentions not_less)
  show ?thesis
    unfolding checkVolumes_def build_volumes_ok_def or_err_None vols conflicts Let_def once
    using True by (simp only: commonVolumeChecks_None option.map_disc_iff err_if_None ball_conj_distrib not_less not_le) auto
qed

section \<open>Properties\<close>



text \<open>
  The conflict check between the options and a step compares the paths as they are written,
  not cleaned: a step can mount two volumes at one place.
\<close>

lemma checkVolumes_misses_conflict:
  "let v = \<lparr>v_Name = ''data'', v_Path = ''/d/''\<rparr>; s = empty_step\<lparr>s_Volumes := [v]\<rparr>;
       b = empty_build\<lparr>Steps := [s, s],
             Options := Some \<lparr>SubstitutionOption = MUST_MATCH, o_Env = [], o_SecretEnv = [],
               o_Volumes = [\<lparr>v_Name = ''all'', v_Path = ''/d''\<rparr>]\<rparr>\<rparr>
   in checkVolumes b = None \<and>
      \<not> distinct (map (path_clean \<circ> v_Path) (options_Volumes b @ s_Volumes s))"
  by code_simp

end
