(* ===== verification/Image_Ref.thy ===== *)
theory Image_Ref
  imports GoRegexp
begin

text \<open>
  The patterns for image references: the vendored \<open>docker/distribution/reference\<close>
  (\<open>regexp.go\<close>) and the ones package \<open>validate\<close> builds from them, with the functions that
  apply them to image names, step names and build tags. The lemmas say which strings get
  through: no byte that a shell or the command line of docker could read as anything but
  a part of a name.
\<close>

section \<open>Reference patterns\<close>

definition alphaNumericRegexp :: re where
  "alphaNumericRegexp = plus1 (Cls False [(CHR ''a'', CHR ''z''), (CHR ''0'', CHR ''9'')])"

definition separatorRegexp :: re where
  "separatorRegexp =
     Alt (Cls False [(CHR ''.'', CHR ''.''), (CHR ''_'', CHR ''_'')])
       (Alt (lit ''__'') (Star (chr CHR ''-'')))"

definition nameComponentRegexp :: re where
  "nameComponentRegexp =
     Cat alphaNumericRegexp (opt (plus1 (Cat separatorRegexp alphaNumericRegexp)))"

definition alnum :: ranges where
  "alnum = [(CHR ''a'', CHR ''z''), (CHR ''A'', CHR ''Z''), (CHR ''0'', CHR ''9'')]"

definition domainComponentRegexp :: re where
  "domainComponentRegexp =
     Alt (Cls False alnum)
       (Cat (Cls False alnum) (Cat (Star (Cls False ((CHR ''-'', CHR ''-'') # alnum))) (Cls False alnum)))"

definition DomainRegexp :: re where
  "DomainRegexp =
     Cat domainComponentRegexp
       (Cat (opt (plus1 (Cat (chr CHR ''.'') domainComponentRegexp)))
         (opt (Cat (chr CHR '':'') (plus1 (Cls False [(CHR ''0'', CHR ''9'')])))))"

definition word_class :: ranges where
  "word_class = (CHR ''_'', CHR ''_'') # alnum"

definition TagRegexp :: re where
  "TagRegexp =
     Cat (Cls False word_class)
       (UpTo 127 (Cls False ((CHR ''.'', CHR ''.'') # (CHR ''-'', CHR ''-'') # word_class)))"

definition NameRegexp :: re where
  "NameRegexp =
     Cat (opt (Cat DomainRegexp (chr CHR ''/'')))
       (Cat nameComponentRegexp (opt (plus1 (Cat (chr CHR ''/'') nameComponentRegexp))))"

section \<open>The patterns of package validate\<close>

definition validImageTagRE :: re where
  "validImageTagRE =
     Cat NameRegexp (opt (Alt (Cat (lit ''@sha256:'') TagRegexp) (Cat (chr CHR '':'') TagRegexp)))"

definition validGCRImageRE :: re where
  "validGCRImageRE =
     Cat (opt (Cat (plus1 (Cls True [(CHR ''.'', CHR ''.'')])) (chr CHR ''.'')))
       (Cat (lit ''gcr.io/'')
         (Cat (plus1 (Cls True [(CHR ''/'', CHR ''/'')]))
           (plus1 (Cat (chr CHR ''/'') (plus1 (Cls True [(CHR ''/'', CHR ''/'')]))))))"

definition validQuayImageRE :: re where
  "validQuayImageRE =
     Cat (opt (Cat (plus1 (Cls True [(CHR 0x0A, CHR 0x0A)])) (chr CHR ''.'')))
       (Cat (lit ''quay.io/'') (plus1 (Cls True [(CHR 0x0A, CHR 0x0A)])))"

definition validBuildTagRE :: re where
  "validBuildTagRE = TagRegexp"

section \<open>Checking names\<close>

datatype names_error =
  InvalidImageTag string
| NotARegistryImage string
| InvalidStepName string
| ImageNameUppercase string
| InvalidImageName string
| TooManyTags nat
| InvalidBuildTag string

definition checkImageTags :: "string list \<Rightarrow> names_error option" where
  "checkImageTags imageTags =
     first_err
       (\<lambda>t. or_err (err_if (\<not> accepts validImageTagRE t) (InvalidImageTag t))
          (err_if (\<not> accepts validGCRImageRE t \<and> \<not> accepts validQuayImageRE t) (NotARegistryImage t)))
       imageTags"

text \<open>
  \<open>strings.ToLower\<close>, as far as an image pattern can tell: the ASCII letters and the two
  code points outside ASCII whose lower case is an ASCII letter (U+212A and U+0130). The
  other code points outside ASCII stay outside ASCII.
\<close>

definition lower_char :: "char \<Rightarrow> char" where
  "lower_char c = (if CHR ''A'' \<le> c \<and> c \<le> CHR ''Z'' then char_of (of_char c + 32 :: nat) else c)"

fun to_lower :: "string \<Rightarrow> string" where
  "to_lower (a # b # c # s) =
     (if [a, b, c] = [CHR 0xE2, CHR 0x84, CHR 0xAA] then CHR ''k'' # to_lower s
      else if [a, b] = [CHR 0xC4, CHR 0xB0] then CHR ''i'' # to_lower (c # s)
      else lower_char a # to_lower (b # c # s))"
| "to_lower [a, b] = (if [a, b] = [CHR 0xC4, CHR 0xB0] then ''i'' else [lower_char a, lower_char b])"
| "to_lower s = map lower_char s"

definition checkImageNames :: "string list \<Rightarrow> names_error option" where
  "checkImageNames images =
     first_err
       (\<lambda>image.
          if \<not> accepts validImageTagRE image then
            (if accepts validImageTagRE (to_lower image) then Some (ImageNameUppercase image)
             else Some (InvalidImageName image))
          else None)
       images"

definition maxNumTags :: nat where "maxNumTags = 64"

fun unique_tags :: "string list \<Rightarrow> string list \<Rightarrow> string list" where
  "unique_tags uniques [] = []"
| "unique_tags uniques (t # ts) =
     (if t \<noteq> [] \<and> t \<notin> set uniques then t # unique_tags (t # uniques) ts
      else unique_tags uniques ts)"

definition sanitizeBuildTags :: "string list \<Rightarrow> names_error + string list" where
  "sanitizeBuildTags tags =
     (if length tags > maxNumTags then Inl (TooManyTags (length tags))
      else (let cp = unique_tags [] tags
            in case first_err (\<lambda>t. err_if (\<not> accepts validBuildTagRE t) (InvalidBuildTag t)) cp of
                 Some e \<Rightarrow> Inl e
               | None \<Rightarrow> Inr cp))"

section \<open>What gets through\<close>

text \<open>Every byte of a word lies in one of the classes of the pattern.\<close>

fun classes_within :: "(char \<Rightarrow> bool) \<Rightarrow> re \<Rightarrow> bool" where
  "classes_within P (Cls neg rs) = (\<forall>c. in_cls rs c \<noteq> neg \<longrightarrow> P c)"
| "classes_within P (Cat r s) = (classes_within P r \<and> classes_within P s)"
| "classes_within P (Alt r s) = (classes_within P r \<and> classes_within P s)"
| "classes_within P (Star r) = classes_within P r"
| "classes_within P (UpTo n r) = classes_within P r"
| "classes_within P (Cap k r) = classes_within P r"
| "classes_within P _ = True"

lemma classes_within_matches: "matches r s \<Longrightarrow> classes_within P r \<Longrightarrow> \<forall>c\<in>set s. P c"
  by (induction rule: matches.induct) auto

text \<open>Every nonempty word starts with a byte of one of these classes.\<close>

fun starts_within :: "(char \<Rightarrow> bool) \<Rightarrow> re \<Rightarrow> bool" where
  "starts_within P (Cls neg rs) = (\<forall>c. in_cls rs c \<noteq> neg \<longrightarrow> P c)"
| "starts_within P (Cat r s) = (starts_within P r \<and> (nullable r \<longrightarrow> starts_within P s))"
| "starts_within P (Alt r s) = (starts_within P r \<and> starts_within P s)"
| "starts_within P (Star r) = starts_within P r"
| "starts_within P (UpTo n r) = starts_within P r"
| "starts_within P (Cap k r) = starts_within P r"
| "starts_within P _ = True"

lemma starts_within_matches: "matches r s \<Longrightarrow> starts_within P r \<Longrightarrow> s \<noteq> [] \<Longrightarrow> P (hd s)"
proof (induction rule: matches.induct)
  case (m_Cat r u s v)
  then show ?case by (cases "u = []") (auto simp: nullable_matches)
next
  case (m_Star1 r u v)
  then show ?case by (cases "u = []") auto
next
  case (m_UpTo1 r u n v)
  then show ?case by (cases "u = []") auto
qed auto

definition ref_char :: "char \<Rightarrow> bool" where
  "ref_char c = in_cls ((CHR ''.'', CHR ''.'') # (CHR ''-'', CHR ''-'') # (CHR ''/'', CHR ''/'') #
     (CHR '':'', CHR '':'') # (CHR ''@'', CHR ''@'') # word_class) c"

definition alnum_char :: "char \<Rightarrow> bool" where
  "alnum_char c = in_cls alnum c"

lemmas reference_defs =
  validImageTagRE_def NameRegexp_def DomainRegexp_def domainComponentRegexp_def
  nameComponentRegexp_def separatorRegexp_def alphaNumericRegexp_def TagRegexp_def

lemma classes_within_simps [simp]:
  "classes_within P (chr c) = P c"
  "classes_within P (opt r) = classes_within P r"
  "classes_within P (plus1 r) = classes_within P r"
  by (auto simp: chr_def opt_def plus1_def in_cls_def)

lemma classes_within_lit [simp]: "classes_within P (lit w) = (\<forall>c\<in>set w. P c)"
  by (induction w rule: lit.induct) auto

lemma starts_within_simps [simp]:
  "starts_within P (chr c) = P c"
  "starts_within P (opt r) = starts_within P r"
  "starts_within P (plus1 r) = starts_within P r"
  by (auto simp: chr_def opt_def plus1_def in_cls_def)

lemma nullable_simps [simp]:
  "\<not> nullable (chr c)" "nullable (opt r)" "nullable (plus1 r) = nullable r"
  by (auto simp: chr_def opt_def plus1_def)

lemma ref_char_class: "in_cls rs c \<Longrightarrow> set rs \<subseteq> set ((CHR ''.'', CHR ''.'') # (CHR ''-'', CHR ''-'') # word_class) \<Longrightarrow> ref_char c"
  unfolding ref_char_def by (erule in_cls_mono) auto

lemma ref_char_literals:
  "\<forall>c\<in>set ''.-_/:@sha256''. ref_char c"
  by (simp add: ref_char_def in_cls_def word_class_def alnum_def less_eq_char_def)

lemma image_ref_chars:
  assumes "accepts validImageTagRE s"
  shows "\<forall>c\<in>set s. ref_char c"
proof (rule classes_within_matches)
  show "matches validImageTagRE s" using assms by (simp add: accepts_matches)
  have cls: "\<forall>c. in_cls rs c \<longrightarrow> ref_char c"
    if "set rs \<subseteq> set ((CHR ''.'', CHR ''.'') # (CHR ''-'', CHR ''-'') # word_class)" for rs
    using that ref_char_class by blast
  note within = cls [of "[(CHR ''a'', CHR ''z''), (CHR ''0'', CHR ''9'')]"] cls [of alnum]
    cls [of "[(CHR ''.'', CHR ''.''), (CHR ''_'', CHR ''_'')]"] cls [of "[(CHR ''0'', CHR ''9'')]"]
    cls [of "(CHR ''-'', CHR ''-'') # alnum"] cls [of word_class]
    cls [of "(CHR ''.'', CHR ''.'') # (CHR ''-'', CHR ''-'') # word_class"]
  show "classes_within ref_char validImageTagRE"
    using within ref_char_literals by (simp add: reference_defs word_class_def alnum_def)
qed

lemma image_ref_start:
  assumes "accepts validImageTagRE s"
  shows "s \<noteq> [] \<and> alnum_char (hd s)"
proof -
  have m: "matches validImageTagRE s" using assms by (simp add: accepts_matches)
  have "\<not> nullable validImageTagRE" by (simp add: reference_defs)
  with m have "s \<noteq> []" by (auto simp: nullable_matches)
  moreover have "\<forall>c. in_cls alnum c \<longrightarrow> alnum_char c"
    and "\<forall>c. in_cls [(CHR ''a'', CHR ''z''), (CHR ''0'', CHR ''9'')] c \<longrightarrow> alnum_char c"
    by (auto simp: alnum_char_def alnum_def elim!: in_cls_mono)
  then have "starts_within alnum_char validImageTagRE" by (simp add: reference_defs)
  ultimately show ?thesis using starts_within_matches [OF m] by blast
qed

lemma build_tag_iff:
  "accepts validBuildTagRE t \<longleftrightarrow>
     (\<exists>c u. t = c # u \<and> in_cls word_class c \<and> length u \<le> 127 \<and>
        (\<forall>d\<in>set u. in_cls ((CHR ''.'', CHR ''.'') # (CHR ''-'', CHR ''-'') # word_class) d))"
  unfolding validBuildTagRE_def TagRegexp_def by (subst deriv_engine.engine_class_upto) simp

lemma unique_tags_set: "set (unique_tags us ts) = {t \<in> set ts. t \<noteq> [] \<and> t \<notin> set us}"
  by (induction us ts rule: unique_tags.induct) auto

lemma unique_tags_distinct: "distinct (unique_tags us ts)"
  by (induction us ts rule: unique_tags.induct) (auto simp: unique_tags_set)

lemma unique_tags_id: "distinct ts \<Longrightarrow> [] \<notin> set ts \<Longrightarrow> set ts \<inter> set us = {} \<Longrightarrow> unique_tags us ts = ts"
  by (induction us ts rule: unique_tags.induct) auto

lemma length_unique_tags: "length (unique_tags us ts) \<le> length ts"
  by (induction us ts rule: unique_tags.induct) auto

lemma sanitizeBuildTags_Inr:
  "sanitizeBuildTags tags = Inr cp \<longleftrightarrow>
     length tags \<le> maxNumTags \<and> cp = unique_tags [] tags \<and> (\<forall>t\<in>set cp. accepts validBuildTagRE t)"
proof -
  let ?bad = "first_err (\<lambda>t. err_if (\<not> accepts validBuildTagRE t) (InvalidBuildTag t)) (unique_tags [] tags)"
  have "?bad = None \<longleftrightarrow> (\<forall>t\<in>set (unique_tags [] tags). accepts validBuildTagRE t)" by simp
  then show ?thesis
    by (cases ?bad) (auto simp only: sanitizeBuildTags_def Let_def option.case split: if_splits)
qed

section \<open>Properties\<close>

text \<open>
  An image name that passes \<open>checkImageNames\<close> is not empty, starts with a letter or a
  digit (so docker does not read it as an option) and consists of letters, digits and the
  bytes \<^verbatim>\<open>. - _ / : @\<close>.
\<close>

theorem checkImageNames_safe:
  assumes "checkImageNames images = None" "i \<in> set images"
  shows "i \<noteq> [] \<and> alnum_char (hd i) \<and> (\<forall>c\<in>set i. ref_char c)"
proof -
  have "accepts validImageTagRE i" using assms by (auto simp: checkImageNames_def split: if_splits)
  then show ?thesis using image_ref_chars image_ref_start by blast
qed

theorem checkImageNames_safe_witness:
  "checkImageNames [''gcr.io/p/img:v1''] = None \<and> alnum_char (hd ''gcr.io/p/img:v1'')"
proof -
  have run: "checkImageNames [''gcr.io/p/img:v1''] = None" by code_simp
  from run checkImageNames_safe [OF run, of "''gcr.io/p/img:v1''"] show ?thesis by simp
qed

text \<open>
  \<open>sanitizeBuildTags\<close> returns the nonempty tags without repetitions, each valid; a
  second run returns them unchanged, so the function is a normal form.
\<close>

theorem sanitizeBuildTags_normal:
  assumes "sanitizeBuildTags tags = Inr cp"
  shows "distinct cp \<and> set cp = set tags - {[]} \<and>
     (\<forall>t\<in>set cp. length t \<le> 128 \<and> t \<noteq> []) \<and> sanitizeBuildTags cp = Inr cp"
proof -
  have a: "length tags \<le> maxNumTags" "cp = unique_tags [] tags" "\<forall>t\<in>set cp. accepts validBuildTagRE t"
    using assms by (simp_all add: sanitizeBuildTags_Inr)
  have d: "distinct cp" by (simp add: a(2) unique_tags_distinct)
  have s: "set cp = set tags - {[]}" by (auto simp: a(2) unique_tags_set)
  then have "[] \<notin> set cp" by blast
  then have "unique_tags [] cp = cp" using unique_tags_id [OF d] by simp
  moreover have "length cp \<le> maxNumTags" using length_unique_tags [of "[]" tags] a by simp
  ultimately have "sanitizeBuildTags cp = Inr cp" using a(3) by (simp add: sanitizeBuildTags_Inr)
  moreover have "\<forall>t\<in>set cp. length t \<le> 128 \<and> t \<noteq> []" using a(3) by (auto simp: build_tag_iff)
  ultimately show ?thesis using d s by blast
qed

theorem sanitizeBuildTags_normal_witness:
  "sanitizeBuildTags [''v1'', [], ''v1'', ''v2''] = Inr [''v1'', ''v2''] \<and>
   sanitizeBuildTags [''v1'', ''v2''] = Inr [''v1'', ''v2'']"
proof -
  have run: "sanitizeBuildTags [''v1'', [], ''v1'', ''v2''] = Inr [''v1'', ''v2'']" by code_simp
  from run sanitizeBuildTags_normal [OF run] show ?thesis by simp
qed

end
