(* ===== verification/Validate.thy ===== *)
theory Validate
  imports Validate_Subst Validate_Steps Validate_Env Validate_Volumes Image_Ref
begin

text \<open>
  The entry points of package \<open>validate\<close>: \<open>CheckBuild\<close>, run before substitution, and
  \<open>CheckBuildAfterSubstitutions\<close>, run on its result. Both write the build, so both return
  it. The lemmas put the acceptance conditions of the single checks together and find the
  builds on which \<open>CheckBuild\<close> panics. The build is a non-nil pointer.
\<close>

datatype build_error =
  InvalidTimeout duration_error
| TimeoutTooLong
| TimeoutNegative
| InvalidSubstitutions subst_error
| InvalidArtifacts artifacts_error
| InvalidSteps steps_error
| InvalidTemplate template_error
| MissingSubstitutions "warning list"
| InvalidVolumes volumes_error
| InvalidEnvVars env_vars_error
| InvalidSecrets secrets_error

text \<open>The timeout of the build, 0 when it has none.\<close>

definition check_build_timeout :: "build \<Rightarrow> build_error + int" where
  "check_build_timeout b =
     (case Timeout b of
        None \<Rightarrow> Inr 0
      | Some t \<Rightarrow>
          (case ptypes_Duration t of
             Inl err \<Rightarrow> Inl (InvalidTimeout err)
           | Inr buildTimeout \<Rightarrow>
               if buildTimeout > MaxTimeout then Inl TimeoutTooLong
               else if buildTimeout < 0 then Inl TimeoutNegative
               else Inr buildTimeout))"

definition check_template :: "store \<Rightarrow> build \<Rightarrow> build_error option" where
  "check_template h b =
     (case CheckSubstitutionTemplate h b of
        (missingSubs, Some err) \<Rightarrow> Some (InvalidTemplate err)
      | (missingSubs, None) \<Rightarrow>
          if missingSubs \<noteq> [] \<and> options_SubstitutionOption b \<noteq> ALLOW_LOOSE
          then Some (MissingSubstitutions missingSubs) else None)"

fun map_failure :: "('a \<Rightarrow> 'b) \<Rightarrow> 'a failure \<Rightarrow> 'b failure" where
  "map_failure f (Err e) = Err (f e)"
| "map_failure f Panic = Panic"

definition CheckBuild :: "store \<Rightarrow> build \<Rightarrow> build \<times> build_error failure option" where
  "CheckBuild h b =
     (case check_build_timeout b of
        Inl e \<Rightarrow> (b, Some (Err e))
      | Inr buildTimeout \<Rightarrow>
          (case CheckSubstitutionsLoose (Substitutions b) of
             Some err \<Rightarrow> (b, Some (Err (InvalidSubstitutions err)))
           | None \<Rightarrow>
               (case CheckArtifacts h b of
                  (b, Some err) \<Rightarrow> (b, Some (Err (InvalidArtifacts err)))
                | (b, None) \<Rightarrow>
                    (b, or_err (map_option (Err \<circ> InvalidSteps) (CheckBuildSteps (Steps b) buildTimeout))
                         (or_err (map_option Err (check_template h b))
                           (or_err (map_option (Err \<circ> InvalidVolumes) (checkVolumes b))
                             (or_err (map_option (Err \<circ> InvalidEnvVars) (checkEnvVars b))
                               (map_option (map_failure InvalidSecrets) (checkSecrets b)))))))))"

definition checkBuildStepNames :: "build_step list \<Rightarrow> names_error option" where
  "checkBuildStepNames steps =
     first_err (\<lambda>step. err_if (\<not> accepts validImageTagRE (s_Name step)) (InvalidStepName (s_Name step))) steps"

text \<open>The tags are assigned before the error of the same call is tested.\<close>

definition CheckBuildAfterSubstitutions :: "store \<Rightarrow> build \<Rightarrow> build \<times> names_error option" where
  "CheckBuildAfterSubstitutions h b =
     (case checkBuildStepNames (Steps b) of
        Some err \<Rightarrow> (b, Some err)
      | None \<Rightarrow>
          (case sanitizeBuildTags (Tags b) of
             Inl err \<Rightarrow> (b\<lparr>Tags := []\<rparr>, Some err)
           | Inr tags \<Rightarrow> (b\<lparr>Tags := tags\<rparr>, checkImageNames (deref h (Images b)))))"

section \<open>What CheckBuild accepts\<close>

lemma check_build_timeout_Inr:
  "check_build_timeout b = Inr bound \<longleftrightarrow>
     (case Timeout b of
        None \<Rightarrow> bound = 0
      | Some t \<Rightarrow> ptypes_Duration t = Inr bound \<and> 0 \<le> bound \<and> bound \<le> MaxTimeout)"
  by (auto simp: check_build_timeout_def split: option.splits sum.splits)

text \<open>The build timeout that bounds the steps; a timeout of 0 does not.\<close>

definition step_timeout_bound :: "build \<Rightarrow> int" where
  "step_timeout_bound b =
     (case check_build_timeout b of Inr bound \<Rightarrow> (if bound = 0 then MaxTimeout else bound) | Inl _ \<Rightarrow> 0)"

definition timeout_ok :: "build \<Rightarrow> bool" where
  "timeout_ok b \<longleftrightarrow>
     (case Timeout b of
        None \<Rightarrow> True
      | Some t \<Rightarrow> (\<exists>d. ptypes_Duration t = Inr d \<and> 0 \<le> d \<and> d \<le> MaxTimeout))"

definition steps_ok :: "build \<Rightarrow> bool" where
  "steps_ok b \<longleftrightarrow>
     Steps b \<noteq> [] \<and> length (Steps b) \<le> maxNumSteps \<and>
     (\<forall>s\<in>set (Steps b). step_limits s \<and> timeout_within (step_timeout_bound b) s) \<and>
     deps_backwards (Steps b) \<and> ids_unique (Steps b)"

definition artifacts_ok :: "store \<Rightarrow> build \<Rightarrow> bool" where
  "artifacts_ok h b \<longleftrightarrow>
     (deref h (Images b) \<noteq> [] \<longrightarrow> deref h (artifacts_images b) \<noteq> [] \<longrightarrow>
        deref h (artifacts_images b) = deref h (Images b)) \<and>
     length (given_images h b) \<le> maxNumImages \<and>
     (\<forall>i\<in>set (given_images h b). length i \<le> MaxImageLength) \<and>
     (\<forall>obj. artifacts_objects b = Some obj \<longrightarrow>
        has_prefix (Location obj) ''gs://'' \<and> Paths obj \<noteq> [] \<and> length (Paths obj) \<le> maxArtifactsPaths \<and>
        distinct (Paths obj) \<and> (\<forall>p\<in>set (Paths obj). \<not> has_space p))"

definition substitutions_ok :: "strmap \<Rightarrow> bool" where
  "substitutions_ok m \<longleftrightarrow> length m \<le> maxNumSubstitutions \<and> (\<forall>(k, v)\<in>set m. loose_entry k v)"

text \<open>
  Every key of the templates is in the data or built in, and every key of the data is in a
  template; with \<open>ALLOW_LOOSE\<close> user keys may also be missing on either side.
\<close>

definition template_ok :: "store \<Rightarrow> build \<Rightarrow> bool" where
  "template_ok h b \<longleftrightarrow>
     (if options_SubstitutionOption b = ALLOW_LOOSE
      then \<forall>k\<in>build_keys h b. known_key (Substitutions b) k \<or> user_key k
      else (\<forall>k\<in>build_keys h b. known_key (Substitutions b) k) \<and>
           fst ` set (Substitutions b) \<subseteq> build_keys h b)"

lemma check_template_None:
  assumes "distinct (map fst (Substitutions b))"
  shows "check_template h b = None \<longleftrightarrow> template_ok h b"
proof -
  obtain w e where we: "CheckSubstitutionTemplate h b = (w, e)" by fastforce
  have "check_template h b = None \<longleftrightarrow>
      e = None \<and> (w = [] \<or> options_SubstitutionOption b = ALLOW_LOOSE)"
    by (auto simp: check_template_def we split: option.splits)
  moreover have "e = None \<longleftrightarrow> (\<forall>k\<in>build_keys h b. known_key (Substitutions b) k \<or> user_key k)"
    using CheckSubstitutionTemplate_no_error [of h b] by (simp add: we)
  moreover have "w = [] \<and> e = None \<longleftrightarrow>
      (\<forall>k\<in>build_keys h b. known_key (Substitutions b) k) \<and> fst ` set (Substitutions b) \<subseteq> build_keys h b"
    using CheckSubstitutionTemplate_clean [OF assms, of h] by (simp add: we)
  ultimately show ?thesis by (auto simp: template_ok_def)
qed

text \<open>What \<open>CheckArtifacts\<close> leaves alone.\<close>

definition but_artifacts :: "build \<Rightarrow> build" where
  "but_artifacts b = b\<lparr>Images := None, Artifacts := None\<rparr>"

lemma CheckArtifacts_parts_frame:
  "but_artifacts (copy_images_in h b) = but_artifacts b"
  "but_artifacts (fst (check_artifact_objects b)) = but_artifacts b"
  "but_artifacts (copy_images_out h b) = but_artifacts b"
  by (auto simp: but_artifacts_def copy_images_in_def copy_images_out_def check_artifact_objects_def
      split: option.splits prod.splits)

lemma CheckArtifacts_frame: "but_artifacts (fst (CheckArtifacts h b)) = but_artifacts b"
proof -
  obtain b2 e2 where b2: "check_artifact_objects (copy_images_in h b) = (b2, e2)" by fastforce
  then have "but_artifacts b2 = but_artifacts b" using CheckArtifacts_parts_frame(1,2) by (metis fst_conv)
  then show ?thesis
    using b2 by (auto simp: CheckArtifacts_def Let_def CheckArtifacts_parts_frame split: option.splits)
qed

lemma frame_simps:
  assumes "but_artifacts b' = but_artifacts b"
  shows "Steps b' = Steps b" "Options b' = Options b" "Secrets b' = Secrets b"
    "Substitutions b' = Substitutions b" "Timeout b' = Timeout b" "Tags b' = Tags b"
    "options_Env b' = options_Env b" "options_Volumes b' = options_Volumes b"
    "options_SecretEnv b' = options_SecretEnv b"
    "options_SubstitutionOption b' = options_SubstitutionOption b"
    "checkVolumes b' = checkVolumes b" "checkEnvVars b' = checkEnvVars b"
    "checkSecrets b' = checkSecrets b"
proof -
  show c: "Steps b' = Steps b" "Options b' = Options b" "Secrets b' = Secrets b"
    "Substitutions b' = Substitutions b" "Timeout b' = Timeout b" "Tags b' = Tags b"
    using assms by (cases b; cases b'; simp add: but_artifacts_def)+
  show o: "options_Env b' = options_Env b" "options_Volumes b' = options_Volumes b"
    "options_SecretEnv b' = options_SecretEnv b"
    "options_SubstitutionOption b' = options_SubstitutionOption b"
    using c by (simp_all add: options_Env_def options_Volumes_def options_SecretEnv_def options_SubstitutionOption_def)
  show "checkVolumes b' = checkVolumes b" by (simp only: checkVolumes_def c o)
  show "checkEnvVars b' = checkEnvVars b" by (simp only: checkEnvVars_def c o)
  have "check_secret_conflicts b' = check_secret_conflicts b"
    by (intro ext) (simp only: check_secret_conflicts_def o)
  then show "checkSecrets b' = checkSecrets b"
    by (simp only: checkSecrets_def used_secret_envs_def c o)
qed

text \<open>Everything but the secrets.\<close>

definition build_ok_but_secrets :: "store \<Rightarrow> build \<Rightarrow> bool" where
  "build_ok_but_secrets h b \<longleftrightarrow>
     timeout_ok b \<and> substitutions_ok (Substitutions b) \<and> artifacts_ok h b \<and> steps_ok b \<and>
     template_ok h (fst (CheckArtifacts h b)) \<and> build_volumes_ok b \<and>
     env_limits (options_Env b) \<and> (\<forall>s\<in>set (Steps b). env_limits (s_Env s))"

lemma artifacts_ok_iff: "artifacts_ok h b \<longleftrightarrow> snd (CheckArtifacts h b) = None"
  unfolding CheckArtifacts_accepts artifacts_ok_def check_images_None check_paths_None by blast

lemma steps_ok_iff:
  "check_build_timeout b = Inr bound \<Longrightarrow> steps_ok b \<longleftrightarrow> CheckBuildSteps (Steps b) bound = None"
  by (simp add: steps_ok_def CheckBuildSteps_None step_timeout_bound_def)

lemma timeout_ok_iff: "timeout_ok b \<longleftrightarrow> (\<exists>bound. check_build_timeout b = Inr bound)"
  by (auto simp: timeout_ok_def check_build_timeout_Inr split: option.splits)

lemma CheckBuild_before_secrets:
  assumes "distinct (map fst (Substitutions b))"
  shows "build_ok_but_secrets h b \<Longrightarrow>
      CheckBuild h b = (fst (CheckArtifacts h b), map_option (map_failure InvalidSecrets) (checkSecrets b))"
    and "\<not> build_ok_but_secrets h b \<Longrightarrow> \<exists>e. snd (CheckBuild h b) = Some (Err e)"
proof -
  obtain b' e where ca: "CheckArtifacts h b = (b', e)" by fastforce
  have "but_artifacts b' = but_artifacts b" using CheckArtifacts_frame [of h b] by (simp add: ca)
  note f = frame_simps [OF this]
  have subs: "substitutions_ok (Substitutions b) \<longleftrightarrow> CheckSubstitutionsLoose (Substitutions b) = None"
    by (simp add: CheckSubstitutionsLoose_None substitutions_ok_def)
  have art: "artifacts_ok h b \<longleftrightarrow> e = None" by (simp add: artifacts_ok_iff ca)
  have tmpl: "template_ok h b' \<longleftrightarrow> check_template h b' = None"
    using assms by (simp add: check_template_None f)
  have vols: "build_volumes_ok b \<longleftrightarrow> checkVolumes b = None" by (simp add: checkVolumes_None)
  have env: "env_limits (options_Env b) \<and> (\<forall>s\<in>set (Steps b). env_limits (s_Env s)) \<longleftrightarrow> checkEnvVars b = None"
    by (simp add: checkEnvVars_None)
  show "CheckBuild h b = (fst (CheckArtifacts h b), map_option (map_failure InvalidSecrets) (checkSecrets b))"
    if ok: "build_ok_but_secrets h b"
  proof -
    obtain bound where bound: "check_build_timeout b = Inr bound"
      using ok by (auto simp: build_ok_but_secrets_def timeout_ok_iff)
    from ok show ?thesis
      unfolding build_ok_but_secrets_def subs art vols env steps_ok_iff [OF bound]
      by (simp add: CheckBuild_def bound ca f tmpl)
  qed
  show "\<exists>e. snd (CheckBuild h b) = Some (Err e)" if bad: "\<not> build_ok_but_secrets h b"
  proof (cases "check_build_timeout b")
    case (Inr bound)
    then have "timeout_ok b" by (simp add: timeout_ok_iff)
    with bad show ?thesis
      unfolding build_ok_but_secrets_def subs art vols env steps_ok_iff [OF Inr]
      by (auto simp: CheckBuild_def Inr ca f tmpl or_err_def split: option.splits)
  qed (simp add: CheckBuild_def)
qed

lemma map_failure_Panic [simp]: "map_failure f x = Panic \<longleftrightarrow> x = Panic"
  by (cases x) auto

text \<open>The panic: only in the last loop, and only for an entry of the options.\<close>

definition secrets_ok_but_conflicts :: "build \<Rightarrow> bool" where
  "secrets_ok_but_conflicts b \<longleftrightarrow>
     secrets_listed_once b \<and> secrets_well_defined (Secrets b) \<and> all_used b = all_defined b \<and>
     card (all_defined b) \<le> maxNumSecretEnvs \<and>
     (\<forall>sec\<in>set (Secrets b). \<forall>kv\<in>set (SecretEnvs sec). int (length (snd kv)) \<le> maxSecretSize)"

lemma checkSecrets_conflicts:
  "if secrets_ok_but_conflicts b
   then checkSecrets b = first_err_idx (check_secret_conflicts b) (Steps b)
   else \<exists>e. checkSecrets b = Some (Err e)"
proof (cases "secrets_listed_once b \<and> secrets_well_defined (Secrets b)")
  case False
  then show ?thesis
    using used_secret_envs_Inr [of b] defined_secret_envs_Inr [of 0 "[]" "[]" "Secrets b"]
    by (auto simp: checkSecrets_def secrets_ok_but_conflicts_def split: sum.splits)
next
  case True
  then obtain used where used: "used_secret_envs b = Inr used" "set used = all_used b"
    using used_secret_envs_Inr used_secret_envs_set by blast
  obtain ds where ds: "defined_secret_envs 0 [] [] (Secrets b) = Inr ds"
      "ds = rev (all_secret_names (Secrets b))"
    using True by (auto simp: defined_secret_envs_Inr)
  have "set ds = all_defined b" "distinct ds"
    using True ds(2)
    by (auto simp: all_defined_def secrets_well_defined_def all_secret_names_def secret_names_def)
  note sets = check_secret_sets_None [OF used(2) this]
  from True used(1) ds(1) sets show ?thesis
    by (auto simp: checkSecrets_def secrets_ok_but_conflicts_def split: option.splits)
qed

lemma checkSecrets_Panic:
  assumes "Steps b \<noteq> []" "\<forall>s\<in>set (Steps b). \<forall>e\<in>set (s_Env s). CHR ''='' \<in> set e"
  shows "checkSecrets b = Some Panic \<longleftrightarrow>
     secrets_ok_but_conflicts b \<and> (\<exists>e\<in>set (options_Env b). CHR ''='' \<notin> set e)"
proof -
  obtain s ss where ss: "Steps b = s # ss" using assms(1) by (cases "Steps b") auto
  have "first_err_idx (check_secret_conflicts b) (Steps b) = Some Panic \<longleftrightarrow>
      (\<exists>e\<in>set (options_Env b). CHR ''='' \<notin> set e)"
  proof (cases "\<exists>e\<in>set (options_Env b). CHR ''='' \<notin> set e")
    case True
    then have "check_secret_conflicts b 0 s = Some Panic" by (auto simp: check_secret_conflicts_Panic)
    with True ss show ?thesis by simp
  next
    case False
    have "first_err_from i (check_secret_conflicts b) xs \<noteq> Some Panic" if "set xs \<subseteq> set (Steps b)" for i xs
      using that
    proof (induction xs arbitrary: i)
      case (Cons x xs)
      then have "check_secret_conflicts b i x \<noteq> Some Panic"
        using False assms(2) by (auto simp: check_secret_conflicts_Panic)
      with Cons show ?case by (auto split: option.splits)
    qed simp
    with False show ?thesis by blast
  qed
  then show ?thesis using checkSecrets_conflicts [of b] by (auto split: if_splits)
qed

lemma secrets_ok_split:
  "secrets_ok b \<longleftrightarrow> secrets_ok_but_conflicts b \<and>
     (\<forall>s\<in>set (Steps b). (\<forall>e\<in>set (options_Env b @ s_Env s). CHR ''='' \<in> set e) \<and> no_secret_env_conflict b s)"
  by (auto simp: secrets_ok_def secrets_ok_but_conflicts_def)

lemma CheckBuild_None:
  assumes "distinct (map fst (Substitutions b))"
  shows "snd (CheckBuild h b) = None \<longleftrightarrow> build_ok_but_secrets h b \<and> secrets_ok b"
  using CheckBuild_before_secrets [OF assms, of h] checkSecrets_None [of b]
  by (cases "build_ok_but_secrets h b") auto

lemma CheckBuild_Panic:
  assumes "distinct (map fst (Substitutions b))"
  shows "snd (CheckBuild h b) = Some Panic \<longleftrightarrow>
     build_ok_but_secrets h b \<and> secrets_ok_but_conflicts b \<and> (\<exists>e\<in>set (options_Env b). CHR ''='' \<notin> set e)"
proof (cases "build_ok_but_secrets h b")
  case True
  then have "Steps b \<noteq> []" "\<forall>s\<in>set (Steps b). \<forall>e\<in>set (s_Env s). CHR ''='' \<in> set e"
    by (auto simp: build_ok_but_secrets_def steps_ok_def step_limits_def)
  then show ?thesis
    using True CheckBuild_before_secrets(1) [OF assms True] checkSecrets_Panic by simp
next
  case False
  then show ?thesis using CheckBuild_before_secrets(2) [OF assms, of h] by auto
qed

lemma CheckBuild_result:
  assumes "distinct (map fst (Substitutions b))" "CheckBuild h b = (b', None)"
  shows "CheckArtifacts h b = (b', None)"
proof -
  have ok: "build_ok_but_secrets h b" using CheckBuild_None [OF assms(1), of h] assms(2) by simp
  then have "snd (CheckArtifacts h b) = None" by (simp add: build_ok_but_secrets_def artifacts_ok_iff)
  moreover have "fst (CheckArtifacts h b) = b'"
    using CheckBuild_before_secrets(1) [OF assms(1) ok] assms(2) by simp
  ultimately show ?thesis by (metis prod.collapse)
qed

section \<open>What CheckBuildAfterSubstitutions accepts\<close>

lemma checkBuildStepNames_None:
  "checkBuildStepNames steps = None \<longleftrightarrow> (\<forall>s\<in>set steps. accepts validImageTagRE (s_Name s))"
  by (simp add: checkBuildStepNames_def)

lemma checkImageNames_None:
  "checkImageNames images = None \<longleftrightarrow> (\<forall>i\<in>set images. accepts validImageTagRE i)"
  by (simp add: checkImageNames_def)

lemma CheckBuildAfterSubstitutions_None:
  "CheckBuildAfterSubstitutions h b = (b', None) \<longleftrightarrow>
     (\<forall>s\<in>set (Steps b). accepts validImageTagRE (s_Name s)) \<and>
     sanitizeBuildTags (Tags b) = Inr (Tags b') \<and> b' = b\<lparr>Tags := Tags b'\<rparr> \<and>
     (\<forall>i\<in>set (deref h (Images b)). accepts validImageTagRE i)"
proof -
  have "CheckBuildAfterSubstitutions h b = (b', None) \<longleftrightarrow>
     checkBuildStepNames (Steps b) = None \<and> sanitizeBuildTags (Tags b) = Inr (Tags b') \<and>
     b' = b\<lparr>Tags := Tags b'\<rparr> \<and> checkImageNames (deref h (Images b)) = None"
    by (auto simp: CheckBuildAfterSubstitutions_def split: option.splits sum.splits)
  then show ?thesis by (simp only: checkBuildStepNames_None checkImageNames_None)
qed

section \<open>Properties\<close>

text \<open>
  C20: \<open>CheckBuild\<close> returns no error exactly if the timeout, the substitutions, the
  artifacts, the steps, the templates (of the build with its artifacts filled in), the
  volumes, the environment and the secrets satisfy their conditions, whatever the order of
  the substitutions map. No condition is tested only on some path.
\<close>

theorem CheckBuild_accepts:
  assumes "distinct (map fst (Substitutions b))"
  shows "snd (CheckBuild h b) = None \<longleftrightarrow>
     timeout_ok b \<and> substitutions_ok (Substitutions b) \<and> artifacts_ok h b \<and> steps_ok b \<and>
     template_ok h (fst (CheckArtifacts h b)) \<and> build_volumes_ok b \<and>
     env_limits (options_Env b) \<and> (\<forall>s\<in>set (Steps b). env_limits (s_Env s)) \<and> secrets_ok b"
  unfolding CheckBuild_None [OF assms] build_ok_but_secrets_def by blast

theorem CheckBuild_accepts_witness:
  "let b = empty_build\<lparr>Steps := [empty_step\<lparr>s_Name := ''gcr.io/p/a'', s_Args := [''$_A'']\<rparr>],
             Substitutions := [(''_A'', ''x'')]\<rparr>
   in CheckBuild (\<lambda>_. []) b = (b, None) \<and> steps_ok b \<and> template_ok (\<lambda>_. []) b"
proof -
  let ?b = "empty_build\<lparr>Steps := [empty_step\<lparr>s_Name := ''gcr.io/p/a'', s_Args := [''$_A'']\<rparr>],
             Substitutions := [(''_A'', ''x'')]\<rparr>"
  have run: "CheckBuild (\<lambda>_. []) ?b = (?b, None)" by code_simp
  have d: "distinct (map fst (Substitutions ?b))" by simp
  have ca: "CheckArtifacts (\<lambda>_. []) ?b = (?b, None)" using CheckBuild_result [OF d run] .
  from CheckBuild_accepts [OF d, of "\<lambda>_. []"] run ca show ?thesis unfolding Let_def by simp
qed



lemma builtin_keys: "map_of validBuiltInSubstitutions k \<noteq> None \<Longrightarrow> map_of (builtin_replacements b) k \<noteq> None"
proof -
  have "map fst (builtin_replacements b) = map fst validBuiltInSubstitutions"
    by (simp add: builtin_replacements_def validBuiltInSubstitutions_def Let_def split_beta)
  then have "fst ` set (builtin_replacements b) = fst ` set validBuiltInSubstitutions"
    by (metis list.set_map)
  then show "map_of validBuiltInSubstitutions k \<noteq> None \<Longrightarrow> map_of (builtin_replacements b) k \<noteq> None"
    by (simp add: map_of_eq_None_iff)
qed

text \<open>
  C22: No silent empty value: in a build accepted without \<open>ALLOW_LOOSE\<close>, every key that a
  template of the checked build refers to has a replacement when the fields are substituted.
\<close>

theorem CheckBuild_keys_defined:
  assumes "distinct (map fst (Substitutions b))" "CheckBuild h b = (b', None)"
    and "options_SubstitutionOption b \<noteq> ALLOW_LOOSE"
    and "f \<in> set (template_fields h b')" "k \<in> template_keys f"
  shows "replacements_of b' k \<noteq> None"
proof -
  have ok: "build_ok_but_secrets h b" using CheckBuild_None [OF assms(1), of h] assms(2) by simp
  have ca: "CheckArtifacts h b = (b', None)" by (rule CheckBuild_result [OF assms(1,2)])
  have "but_artifacts b' = but_artifacts b" using CheckArtifacts_frame [of h b] by (simp add: ca)
  note f = frame_simps [OF this]
  have "known_key (Substitutions b') k"
    using ok assms(3-5) by (auto simp: build_ok_but_secrets_def template_ok_def ca f build_keys_def)
  then show ?thesis
    using builtin_keys [of k b'] by (auto simp: known_key_alt replacements_of_def map_add_None)
qed

theorem CheckBuild_keys_defined_witness:
  "replacements_of (empty_build\<lparr>Steps := [empty_step\<lparr>s_Name := ''gcr.io/p/a'', s_Args := [''$_A'']\<rparr>],
     Substitutions := [(''_A'', ''x'')]\<rparr>) ''_A'' \<noteq> None"
proof -
  let ?b = "empty_build\<lparr>Steps := [empty_step\<lparr>s_Name := ''gcr.io/p/a'', s_Args := [''$_A'']\<rparr>],
             Substitutions := [(''_A'', ''x'')]\<rparr>"
  have run: "CheckBuild (\<lambda>_. []) ?b = (?b, None)" by code_simp
  have d: "distinct (map fst (Substitutions ?b))" by simp
  have o: "options_SubstitutionOption ?b \<noteq> ALLOW_LOOSE"
    by (simp add: options_SubstitutionOption_def empty_build_def)
  have f: "''$_A'' \<in> set (template_fields (\<lambda>_. []) ?b)" by (simp add: template_fields_def step_templates_def)
  have k: "''_A'' \<in> template_keys ''$_A''" by code_simp
  show ?thesis by (rule CheckBuild_keys_defined [OF d run o f k])
qed

end
