(* ===== verification/Trim.thy ===== *)
theory Trim
  imports Prelude
begin

text \<open>
  \<open>strings.TrimSpace\<close>, which the program applies to the entries of the substitutions flag
  and to the output of docker and gcloud.
\<close>

lemma space_encodings_nonempty: "p \<in> set space_encodings \<Longrightarrow> p \<noteq> []"
  by (auto simp: space_encodings_def)

text \<open>\<open>strings.TrimSpace\<close>: white space is removed at both ends, one code point at a time.\<close>

definition leading_space :: "string list \<Rightarrow> string \<Rightarrow> string option" where
  "leading_space encs s = find (has_prefix s) (filter (\<lambda>p. p \<noteq> []) encs)"

lemma leading_space_shorter:
  "leading_space encs s = Some p \<Longrightarrow> length (drop (length p) s) < length s"
  by (auto simp: leading_space_def find_Some_iff has_prefix_iff dest: nth_mem)

function trim_left :: "string list \<Rightarrow> string \<Rightarrow> string" where
  "trim_left encs s =
     (case leading_space encs s of
        None \<Rightarrow> s
      | Some p \<Rightarrow> trim_left encs (drop (length p) s))"
  by pat_completeness auto
termination
  by (relation "measure (\<lambda>(encs, s). length s)") (auto dest: leading_space_shorter)

declare trim_left.simps [simp del]

definition trim_space :: "string \<Rightarrow> string" where
  "trim_space s =
     rev (trim_left (map rev space_encodings) (rev (trim_left space_encodings s)))"

lemma trim_left_suffix: "\<exists>u. s = u @ trim_left encs s"
proof (induction encs s rule: trim_left.induct)
  case (1 encs s)
  show ?case
  proof (cases "leading_space encs s")
    case (Some p)
    then obtain u where "drop (length p) s = u @ trim_left encs (drop (length p) s)"
      using 1 by blast
    then have "s = (take (length p) s @ u) @ trim_left encs (drop (length p) s)"
      by (metis append.assoc append_take_drop_id)
    then show ?thesis using Some by (metis trim_left.simps option.simps(5))
  qed (simp add: trim_left.simps)
qed

lemma trim_space_set: "set (trim_space s) \<subseteq> set s"
proof -
  obtain u where "s = u @ trim_left space_encodings s" using trim_left_suffix by blast
  then have "set (trim_left space_encodings s) \<subseteq> set s" by (metis Un_upper2 set_append)
  moreover obtain v where "rev (trim_left space_encodings s) =
      v @ trim_left (map rev space_encodings) (rev (trim_left space_encodings s))"
    using trim_left_suffix by blast
  then have "set (trim_space s) \<subseteq> set (trim_left space_encodings s)"
    by (metis Un_upper2 set_append set_rev trim_space_def)
  ultimately show ?thesis by blast
qed

text \<open>A string with no space at either end is left as it is.\<close>

definition trimmed :: "string \<Rightarrow> bool" where
  "trimmed s \<longleftrightarrow> list_all (\<lambda>p. \<not> has_prefix s p \<and> \<not> has_suffix s p) space_encodings"

lemma trim_space_trimmed: "trimmed s \<Longrightarrow> trim_space s = s"
proof -
  assume t: "trimmed s"
  then have "leading_space space_encodings s = None"
    by (auto simp: leading_space_def find_None_iff trimmed_def list_all_iff)
  then have "trim_left space_encodings s = s" by (simp add: trim_left.simps)
  moreover have "leading_space (map rev space_encodings) (rev s) = None"
    using t by (auto simp: leading_space_def find_None_iff trimmed_def list_all_iff has_suffix_def)
  then have "trim_left (map rev space_encodings) (rev s) = rev s" by (simp add: trim_left.simps)
  ultimately show ?thesis by (simp add: trim_space_def)
qed

end
