(* ===== verification/Common.thy ===== *)
theory Common
  imports Validate Trim
begin

text \<open>
  Package \<open>common\<close> (\<open>common/common.go\<close>), the part that deals with a build request:
  \<open>ParseSubstitutionsFlag\<close>, which reads the command line flag, and
  \<open>SubstituteAndValidate\<close>, which merges the flag into the request, validates it, substitutes
  and validates again. The lemmas say what a request is known to satisfy once this has
  returned without an error: \<open>runnable\<close>, the contract of package \<open>build\<close>.
\<close>

section \<open>The substitutions flag\<close>

text \<open>The map built so far is returned along with the error.\<close>

fun parse_pairs :: "strmap \<Rightarrow> string list \<Rightarrow> strmap \<times> string option" where
  "parse_pairs m [] = (m, None)"
| "parse_pairs m (s # ss) =
     (case split2 CHR ''='' s of
        [k, v] \<Rightarrow> parse_pairs (AList.update (trim_space k) (trim_space v) m) ss
      | _ \<Rightarrow> (m, Some s))"

definition ParseSubstitutionsFlag :: "string \<Rightarrow> strmap \<times> string option" where
  "ParseSubstitutionsFlag substitutions = parse_pairs [] (split_on CHR '','' substitutions)"

text \<open>The flag a user writes for a map.\<close>

definition render_pair :: "string \<times> string \<Rightarrow> string" where
  "render_pair kv = fst kv @ CHR ''='' # snd kv"

definition render_flag :: "strmap \<Rightarrow> string" where
  "render_flag m = join '','' (map render_pair m)"

definition flag_entry :: "string \<times> string \<Rightarrow> bool" where
  "flag_entry kv \<longleftrightarrow>
     trimmed (fst kv) \<and> trimmed (snd kv) \<and> CHR ''='' \<notin> set (fst kv) \<and>
     CHR '','' \<notin> set (fst kv) \<and> CHR '','' \<notin> set (snd kv)"

lemma parse_pairs_render:
  assumes "\<forall>kv\<in>set m. flag_entry kv"
  shows "parse_pairs acc (map render_pair m) = (fold (\<lambda>(k, v). AList.update k v) m acc, None)"
  using assms
  by (induction m arbitrary: acc)
     (auto simp: render_pair_def split2_append flag_entry_def trim_space_trimmed)

lemma ParseSubstitutionsFlag_render:
  assumes "m \<noteq> []" "\<forall>kv\<in>set m. flag_entry kv"
  shows "ParseSubstitutionsFlag (render_flag m) = (fold (\<lambda>(k, v). AList.update k v) m [], None)"
proof -
  have "\<forall>w\<in>set (map render_pair m). CHR '','' \<notin> set w"
    using assms(2) by (auto simp: flag_entry_def render_pair_def)
  then have "split_on CHR '','' (render_flag m) = map render_pair m"
    using assms(1) by (simp add: render_flag_def split_on_join)
  then show ?thesis using parse_pairs_render [OF assms(2)] by (simp add: ParseSubstitutionsFlag_def)
qed

lemma fold_update_map_of:
  "map_of (fold (\<lambda>(k, v). AList.update k v) m acc) = fold (\<lambda>(k, v) f. f(k \<mapsto> v)) m (map_of acc)"
  by (induction m arbitrary: acc) (auto simp: update_conv')

lemma fold_update_distinct:
  "distinct (map fst acc) \<Longrightarrow> distinct (map fst (fold (\<lambda>(k, v). AList.update k v) m acc))"
  by (induction m arbitrary: acc) (auto simp: distinct_update)

lemma fold_upd_distinct:
  "distinct (map fst m) \<Longrightarrow> fold (\<lambda>(k, v) f. f(k \<mapsto> v)) m f = f ++ map_of m"
proof (induction m arbitrary: f)
  case (Cons kv m)
  obtain k v where kv: "kv = (k, v)" by (cases kv)
  then have "k \<notin> dom (map_of m)" using Cons.prems by (simp add: dom_map_of_conv_image_fst)
  then have "f(k \<mapsto> v) ++ map_of m = (f ++ map_of m)(k \<mapsto> v)" by (rule map_add_upd_left)
  then show ?case using Cons kv by (simp del: fun_upd_apply)
qed simp

lemma parse_pairs_distinct:
  "distinct (map fst acc) \<Longrightarrow> distinct (map fst (fst (parse_pairs acc ss)))"
  by (induction acc ss rule: parse_pairs.induct) (auto simp: distinct_update split: list.splits)

lemma parse_pairs_error:
  "snd (parse_pairs acc ss) = Some s \<Longrightarrow> s \<in> set ss \<and> CHR ''='' \<notin> set s"
proof (induction acc ss rule: parse_pairs.induct)
  case (2 m t ss)
  show ?case
    using 2 by (cases rule: split2_cases [of "CHR ''=''" t]) auto
qed simp

lemma parse_pairs_ok:
  "snd (parse_pairs acc ss) = None \<longleftrightarrow> (\<forall>s\<in>set ss. CHR ''='' \<in> set s)"
proof (induction acc ss rule: parse_pairs.induct)
  case (2 m t ss)
  show ?case
    using 2 by (cases rule: split2_cases [of "CHR ''=''" t]) auto
qed simp

section \<open>Merging, validating, substituting\<close>

datatype pipeline_error =
  BuildSubstitutionsInvalid subst_error
| FlagSubstitutionsInvalid subst_error
| BuildInvalid build_error
| BuildInvalidAfter names_error

text \<open>\<open>for k, v := range substMap { b.Substitutions[k] = v }\<close>\<close>

definition merge_substitutions :: "strmap \<Rightarrow> strmap \<Rightarrow> strmap" where
  "merge_substitutions subs flags = fold (\<lambda>(k, v). AList.update k v) flags subs"

definition SubstituteAndValidate ::
  "store \<Rightarrow> build \<Rightarrow> strmap \<Rightarrow> (store \<times> build) \<times> pipeline_error failure option"
where
  "SubstituteAndValidate h b substMap =
     (case CheckSubstitutions (Substitutions b) of
        Some err \<Rightarrow> ((h, b), Some (Err (BuildSubstitutionsInvalid err)))
      | None \<Rightarrow>
          (case CheckSubstitutionsLoose substMap of
             Some err \<Rightarrow> ((h, b), Some (Err (FlagSubstitutionsInvalid err)))
           | None \<Rightarrow>
               (case CheckBuild h (b\<lparr>Substitutions := merge_substitutions (Substitutions b) substMap\<rparr>) of
                  (b, Some err) \<Rightarrow> ((h, b), Some (map_failure BuildInvalid err))
                | (b, None) \<Rightarrow>
                    (case SubstituteBuildFields h b of
                       None \<Rightarrow> ((h, b), Some Panic)
                     | Some (h, b) \<Rightarrow>
                         (case CheckBuildAfterSubstitutions h b of
                            (b, err) \<Rightarrow> ((h, b), map_option (Err \<circ> BuildInvalidAfter) err))))))"

lemma merge_substitutions_distinct:
  "distinct (map fst subs) \<Longrightarrow> distinct (map fst (merge_substitutions subs flags))"
  by (simp add: merge_substitutions_def fold_update_distinct)

text \<open>A flag overrides the value of the build.\<close>

lemma merge_substitutions_map:
  "distinct (map fst flags) \<Longrightarrow> map_of (merge_substitutions subs flags) = map_of subs ++ map_of flags"
  by (simp add: merge_substitutions_def fold_update_map_of fold_upd_distinct)

subsection \<open>Expansion and the bytes that are not part of a template\<close>

definition stop_char :: "char \<Rightarrow> bool" where
  "stop_char c \<longleftrightarrow> \<not> key_char c \<and> c \<notin> {CHR ''{'', CHR ''}'', CHR ''$''}"

lemma take_key_stop:
  assumes "\<not> key_char c" "\<not> key_start c"
  shows "take_key (s @ c # t) = map_option (\<lambda>(k, r). (k, r @ c # t)) (take_key s)"
proof (cases s)
  case (Cons d u)
  have "takeWhile key_char (u @ c # t) = takeWhile key_char u"
    "dropWhile key_char (u @ c # t) = dropWhile key_char u @ c # t"
    using assms(1) by (induction u) auto
  then show ?thesis using Cons by simp
qed (simp add: assms)

lemma key_start_char: "key_start c \<Longrightarrow> key_char c"
  by (auto simp: key_start_def key_char_def in_cls_def)

lemma parse_key_stop:
  assumes "stop_char c"
  shows "parse_key (s @ c # t) = map_option (\<lambda>(k, r). (k, r @ c # t)) (parse_key s)"
proof (cases s)
  case Nil
  then show ?thesis
    using assms by (auto simp: parse_key_def stop_char_def dest: key_start_char)
next
  case (Cons d u)
  have stop: "\<not> key_char c" "\<not> key_start c" "c \<noteq> CHR ''}''"
    using assms key_start_char by (auto simp: stop_char_def)
  show ?thesis
  proof (cases "d = CHR ''{''")
    case True
    then show ?thesis
      using Cons stop take_key_stop [OF stop(1,2), of u t]
      by (auto simp: parse_key_def split: option.splits list.splits)
  next
    case False
    then show ?thesis
      using Cons take_key_stop [OF stop(1,2), of s t] by (simp add: parse_key_def del: take_key.simps)
  qed
qed

lemma expand_stop:
  assumes "stop_char c"
  shows "expand m (s @ c # t) = expand m s @ c # expand m t"
proof (induction m s rule: expand.induct)
  case (1 m)
  show ?case using assms by (simp add: stop_char_def)
next
  case (2 m d s)
  have hd: "(s @ c # t \<noteq> [] \<and> hd (s @ c # t) = CHR ''$'') = (s \<noteq> [] \<and> hd s = CHR ''$'')"
    using assms by (cases s) (auto simp: stop_char_def)
  have tl: "s \<noteq> [] \<Longrightarrow> tl (s @ c # t) = tl s @ c # t" by simp
  show ?case
    using 2 hd tl parse_key_stop [OF assms, of s t]
    by (cases "d = CHR ''$''"; cases "s \<noteq> [] \<and> hd s = CHR ''$''")
       (auto split: option.splits)
qed

lemma stop_chars: "stop_char CHR ''=''" "stop_char CHR ''/''"
  by (simp_all add: stop_char_def key_char_def in_cls_def less_eq_char_def)

lemma expand_keeps: "stop_char c \<Longrightarrow> c \<in> set s \<Longrightarrow> c \<in> set (expand m s)"
  by (metis expand_stop in_set_conv_decomp)

subsection \<open>The contract of a validated request\<close>

definition runnable :: "store \<Rightarrow> build \<Rightarrow> bool" where
  "runnable h b \<longleftrightarrow>
     Steps b \<noteq> [] \<and> length (Steps b) \<le> maxNumSteps \<and>
     deps_backwards (Steps b) \<and> ids_unique (Steps b) \<and> timeout_ok b \<and>
     (\<forall>s\<in>set (Steps b). accepts validImageTagRE (s_Name s) \<and>
        timeout_within (step_timeout_bound b) s \<and> (\<forall>e\<in>set (s_Env s). CHR ''='' \<in> set e)) \<and>
     (\<forall>e\<in>set (options_Env b). CHR ''='' \<in> set e) \<and>
     (\<forall>i\<in>set (deref h (Images b)). accepts validImageTagRE i) \<and>
     distinct (Tags b) \<and> (\<forall>t\<in>set (Tags b). accepts validBuildTagRE t) \<and>
     build_volumes_ok b \<and> secrets_ok_but_conflicts b \<and>
     (\<forall>obj. artifacts_objects b = Some obj \<longrightarrow>
        has_prefix (Location obj) ''gs://'' \<and> has_suffix (Location obj) ''/'' \<and> Paths obj \<noteq> [])"

lemma expand_step_simps [simp]:
  "s_Id (expand_step m s) = s_Id s" "s_WaitFor (expand_step m s) = s_WaitFor s"
  "s_Timeout (expand_step m s) = s_Timeout s" "s_Volumes (expand_step m s) = s_Volumes s"
  "s_SecretEnv (expand_step m s) = s_SecretEnv s"
  "s_Env (expand_step m s) = map (expand m) (s_Env s)" "s_Name (expand_step m s) = expand m (s_Name s)"
  by (simp_all add: expand_step_def)

lemma expand_build_simps [simp]:
  "Steps (expand_build m b) = map (expand_step m) (Steps b)" "Timeout (expand_build m b) = Timeout b"
  "Options (expand_build m b) = Options b" "Secrets (expand_build m b) = Secrets b"
  "Images (expand_build m b) = Images b" "Tags (expand_build m b) = map (expand m) (Tags b)"
  "options_Env (expand_build m b) = options_Env b"
  "options_SecretEnv (expand_build m b) = options_SecretEnv b"
  "options_Volumes (expand_build m b) = options_Volumes b"
  "artifacts_objects (expand_build m b) = map_option (expand_objects m) (artifacts_objects b)"
  by (auto simp: expand_build_def options_Env_def options_SecretEnv_def options_Volumes_def
      artifacts_objects_def split: option.splits)

lemma nth_expand_step:
  "i < length steps \<Longrightarrow> (\<exists>j<i. s_Id (map (expand_step m) steps ! j) = d) \<longleftrightarrow> (\<exists>j<i. s_Id (steps ! j) = d)"
  using less_trans by (metis expand_step_simps(1) nth_map)

lemma expand_build_keeps:
  "deps_backwards (Steps (expand_build m b)) = deps_backwards (Steps b)"
  "ids_unique (Steps (expand_build m b)) = ids_unique (Steps b)"
  "timeout_ok (expand_build m b) = timeout_ok b"
  "step_timeout_bound (expand_build m b) = step_timeout_bound b"
  "timeout_within d (expand_step m s) = timeout_within d s"
proof -
  show "deps_backwards (Steps (expand_build m b)) = deps_backwards (Steps b)"
    by (simp add: deps_backwards_def nth_expand_step)
  show "ids_unique (Steps (expand_build m b)) = ids_unique (Steps b)"
  proof -
    have "(\<forall>j<i. s_Id (map (expand_step m) (Steps b) ! j) \<noteq> d) \<longleftrightarrow> (\<forall>j<i. s_Id (Steps b ! j) \<noteq> d)"
      if "i < length (Steps b)" for i d
      using nth_expand_step [OF that, of m d] by blast
    then show ?thesis by (simp add: ids_unique_def)
  qed
  show "timeout_ok (expand_build m b) = timeout_ok b" by (simp add: timeout_ok_def)
  show "step_timeout_bound (expand_build m b) = step_timeout_bound b"
    by (simp add: step_timeout_bound_def check_build_timeout_def)
  show "timeout_within d (expand_step m s) = timeout_within d s" by (simp add: timeout_within_def)
qed

lemma users_expand: "users (map (expand_step m) steps) v = users steps v"
  by (induction steps) (auto simp: users_def)

lemma expand_build_volumes: "build_volumes_ok (expand_build m b) = build_volumes_ok b"
  by (simp add: build_volumes_ok_def users_expand)

lemma expand_build_secrets: "secrets_ok_but_conflicts (expand_build m b) = secrets_ok_but_conflicts b"
  by (simp add: secrets_ok_but_conflicts_def secrets_listed_once_def all_used_def all_defined_def)

subsection \<open>The pipeline\<close>

text \<open>Success goes through every stage.\<close>

lemma SubstituteAndValidate_None:
  assumes "SubstituteAndValidate h b flags = ((h', b'), None)"
  obtains b1 b2 where
    "CheckSubstitutions (Substitutions b) = None" "CheckSubstitutionsLoose flags = None"
    "CheckBuild h (b\<lparr>Substitutions := merge_substitutions (Substitutions b) flags\<rparr>) = (b1, None)"
    "SubstituteBuildFields h b1 = Some (h', b2)"
    "CheckBuildAfterSubstitutions h' b2 = (b', None)"
  using assms
  by (auto simp: SubstituteAndValidate_def split: option.splits prod.splits)

text \<open>The pipeline panics only where \<open>CheckBuild\<close> does: substitution does not.\<close>

lemma SubstituteAndValidate_Panic:
  "snd (SubstituteAndValidate h b flags) = Some Panic \<longleftrightarrow>
     CheckSubstitutions (Substitutions b) = None \<and> CheckSubstitutionsLoose flags = None \<and>
     snd (CheckBuild h (b\<lparr>Substitutions := merge_substitutions (Substitutions b) flags\<rparr>)) = Some Panic"
  by (auto simp: SubstituteAndValidate_def SubstituteBuildFields_expand Let_def
      split: option.splits prod.splits)

lemma expand_gs_prefix:
  assumes "has_prefix u ''gs://''"
  shows "has_prefix (expand m u) ''gs://''"
proof -
  obtain t where "u = ''gs://'' @ t" using assms by (auto simp: has_prefix_iff)
  then have "expand m u = ''gs://'' @ expand m t" by (simp only: expand_plain_append) simp
  then show ?thesis by (simp add: has_prefix_iff)
qed

lemma expand_slash_suffix:
  assumes "has_suffix u ''/''"
  shows "has_suffix (expand m u) ''/''"
proof -
  obtain t where "u = t @ ''/''" using assms by (auto simp: has_suffix_iff)
  then have "expand m u = expand m t @ ''/''" using expand_stop [OF stop_chars(2), of m t "[]"] by simp
  then show ?thesis by (simp add: has_suffix_iff)
qed

lemma with_slash_gs: "has_prefix u ''gs://'' \<Longrightarrow> has_prefix (with_slash u) ''gs://''"
  by (auto simp: with_slash_def has_prefix_iff)

lemma artifacts_ok_objects:
  "artifacts_ok h b \<Longrightarrow> artifacts_objects b = Some obj \<Longrightarrow> has_prefix (Location obj) ''gs://'' \<and> Paths obj \<noteq> []"
  by (simp add: artifacts_ok_def)

text \<open>The build after the first validation, and after substitution.\<close>

definition checked :: "build \<Rightarrow> bool" where
  "checked b \<longleftrightarrow>
     timeout_ok b \<and> steps_ok b \<and> build_volumes_ok b \<and> secrets_ok b \<and>
     (\<forall>obj. artifacts_objects b = Some obj \<longrightarrow>
        has_prefix (Location obj) ''gs://'' \<and> has_suffix (Location obj) ''/'' \<and> Paths obj \<noteq> [])"

lemma CheckBuild_checked:
  assumes "distinct (map fst (Substitutions b))" "CheckBuild h b = (b', None)"
  shows "checked b'"
proof -
  have ok: "build_ok_but_secrets h b" "secrets_ok b"
    using CheckBuild_None [OF assms(1), of h] assms(2) by simp_all
  have ca: "CheckArtifacts h b = (b', None)" by (rule CheckBuild_result [OF assms])
  have "but_artifacts b' = but_artifacts b" using CheckArtifacts_frame [of h b] by (simp add: ca)
  note f = frame_simps [OF this]
  have "timeout_ok b'" using ok(1) by (simp add: build_ok_but_secrets_def timeout_ok_def f)
  moreover have "steps_ok b'"
    using ok(1) by (simp add: build_ok_but_secrets_def steps_ok_def step_timeout_bound_def check_build_timeout_def f)
  moreover have "build_volumes_ok b'"
    using ok(1) by (simp add: build_ok_but_secrets_def build_volumes_ok_def f)
  moreover have "secrets_ok b'" using ok(2) by (simp add: checkSecrets_None [symmetric] f)
  moreover have "has_prefix (Location obj) ''gs://'' \<and> has_suffix (Location obj) ''/'' \<and> Paths obj \<noteq> []"
    if "artifacts_objects b' = Some obj" for obj
  proof -
    obtain obj0 where o: "artifacts_objects b = Some obj0"
        "obj = obj0\<lparr>Location := with_slash (Location obj0)\<rparr>"
      using CheckArtifacts_None(6) [OF ca] \<open>artifacts_objects b' = Some obj\<close>
      by (cases "artifacts_objects b") auto
    moreover have "artifacts_ok h b" using ok(1) by (simp add: build_ok_but_secrets_def)
    ultimately show ?thesis
      using artifacts_ok_objects [of h b obj0] by (simp add: with_slash_gs with_slash_suffix)
  qed
  ultimately show ?thesis by (simp add: checked_def)
qed

lemma unique_tags_valid:
  "sanitizeBuildTags tags = Inr cp \<Longrightarrow> distinct cp \<and> (\<forall>t\<in>set cp. accepts validBuildTagRE t)"
  by (simp add: sanitizeBuildTags_Inr unique_tags_distinct)

lemma runnable_expand:
  assumes "checked b" "CheckBuildAfterSubstitutions h (expand_build m b) = (b', None)"
  shows "runnable h b'"
proof -
  let ?e = "expand_build m b"
  have after: "\<forall>s\<in>set (Steps ?e). accepts validImageTagRE (s_Name s)"
      "sanitizeBuildTags (Tags ?e) = Inr (Tags b')" "b' = ?e\<lparr>Tags := Tags b'\<rparr>"
      "\<forall>i\<in>set (deref h (Images ?e)). accepts validImageTagRE i"
    using assms(2) by (auto simp only: CheckBuildAfterSubstitutions_None)
  have b': "Steps b' = Steps ?e" "Timeout b' = Timeout ?e" "Options b' = Options ?e"
      "Secrets b' = Secrets ?e" "Images b' = Images ?e" "Artifacts b' = Artifacts ?e"
    using after(3) by (metis build.select_convs build.update_convs build.surjective)+
  have same: "timeout_ok b' = timeout_ok ?e" "step_timeout_bound b' = step_timeout_bound ?e"
      "build_volumes_ok b' = build_volumes_ok ?e" "secrets_ok_but_conflicts b' = secrets_ok_but_conflicts ?e"
      "options_Env b' = options_Env ?e" "artifacts_objects b' = artifacts_objects ?e"
    by (simp_all only: timeout_ok_def step_timeout_bound_def check_build_timeout_def build_volumes_ok_def
        secrets_ok_but_conflicts_def secrets_listed_once_def all_used_def all_defined_def
        options_Env_def options_SecretEnv_def options_Volumes_def artifacts_objects_def b')
  have sc: "secrets_ok_but_conflicts b" "Steps b \<noteq> []" "\<forall>e\<in>set (options_Env b). CHR ''='' \<in> set e"
    using assms(1) by (auto simp: checked_def secrets_ok_split steps_ok_def neq_Nil_conv)
  have env: "\<forall>s\<in>set (Steps ?e). \<forall>e\<in>set (s_Env s). CHR ''='' \<in> set e"
    using assms(1) stop_chars(1) by (auto simp: checked_def steps_ok_def step_limits_def intro: expand_keeps)
  have objs: "\<forall>obj. artifacts_objects ?e = Some obj \<longrightarrow>
      has_prefix (Location obj) ''gs://'' \<and> has_suffix (Location obj) ''/'' \<and> Paths obj \<noteq> []"
    using assms(1) by (auto simp: checked_def expand_objects_def expand_gs_prefix expand_slash_suffix)
  have steps: "Steps b' \<noteq> []" "length (Steps b') \<le> maxNumSteps" "deps_backwards (Steps b')"
      "ids_unique (Steps b')" "timeout_ok b'" "\<forall>s\<in>set (Steps b'). timeout_within (step_timeout_bound b') s"
    unfolding same b' expand_build_keeps using assms(1)
    by (auto simp: checked_def steps_ok_def expand_build_keeps)
  have rest: "build_volumes_ok b'" "secrets_ok_but_conflicts b'" "\<forall>e\<in>set (options_Env b'). CHR ''='' \<in> set e"
    unfolding same using assms(1) sc by (simp_all add: checked_def expand_build_volumes expand_build_secrets)
  show ?thesis
    unfolding runnable_def using steps rest after(1,4) env objs unique_tags_valid [OF after(2)]
    by (simp only: b' same) blast
qed

lemma SubstituteAndValidate_runnable:
  assumes "distinct (map fst (Substitutions b))" "SubstituteAndValidate h b flags = ((h', b'), None)"
  shows "runnable h' b'"
proof -
  let ?b = "b\<lparr>Substitutions := merge_substitutions (Substitutions b) flags\<rparr>"
  obtain b1 b2 where s: "CheckBuild h ?b = (b1, None)" "SubstituteBuildFields h b1 = Some (h', b2)"
      "CheckBuildAfterSubstitutions h' b2 = (b', None)"
    using SubstituteAndValidate_None [OF assms(2)] by metis
  have "distinct (map fst (Substitutions ?b))" using assms(1) by (simp add: merge_substitutions_distinct)
  then have "checked b1" using s(1) by (rule CheckBuild_checked)
  moreover obtain m where "b2 = expand_build m b1"
    using s(2) by (auto simp: SubstituteBuildFields_expand Let_def)
  ultimately show ?thesis using s(3) runnable_expand by blast
qed

section \<open>Properties\<close>

text \<open>
  C4: The contract of a validated request. When \<open>SubstituteAndValidate\<close> returns no error,
  the request has between 1 and 100 steps with unique ids whose dependencies point
  backwards, valid timeouts, step and image names that are image references, valid distinct
  tags, environment entries with an equals sign, consistent volumes and secrets, and an
  artifact location that starts with \<^verbatim>\<open>gs://\<close> and ends with a slash, although several of these
  were only checked before the values were substituted.
\<close>

theorem SubstituteAndValidate_contract:
  assumes "distinct (map fst (Substitutions b))" "SubstituteAndValidate h b flags = ((h', b'), None)"
  shows "runnable h' b'"
  by (rule SubstituteAndValidate_runnable [OF assms])

theorem SubstituteAndValidate_contract_witness:
  "let r = SubstituteAndValidate (\<lambda>_. [])
         (empty_build\<lparr>Steps := [empty_step\<lparr>s_Name := ''gcr.io/$_A/a'', s_Env := [''$_A=1'']\<rparr>],
            Tags := [''$_A''], Substitutions := [(''_A'', ''x'')]\<rparr>) [(''_A'', ''y'')]
   in snd r = None \<and> Tags (snd (fst r)) = [''y''] \<and> runnable (fst (fst r)) (snd (fst r))"
proof -
  let ?b = "empty_build\<lparr>Steps := [empty_step\<lparr>s_Name := ''gcr.io/$_A/a'', s_Env := [''$_A=1'']\<rparr>],
            Tags := [''$_A''], Substitutions := [(''_A'', ''x'')]\<rparr>"
  let ?r = "SubstituteAndValidate (\<lambda>_. []) ?b [(''_A'', ''y'')]"
  have res: "snd ?r = None" by code_simp
  have tags: "Tags (snd (fst ?r)) = [''y'']" by code_simp
  have run: "?r = ((fst (fst ?r), snd (fst ?r)), None)" using res by (metis prod.collapse)
  have d: "distinct (map fst (Substitutions ?b))" by simp
  show ?thesis
    unfolding Let_def using res tags SubstituteAndValidate_contract [OF d run] by blast
qed

text \<open>
  The flag overrides the request: after a successful merge the value substituted for a
  key is the one of the flag if it has the key, else the one of the request, else the
  built-in one.
\<close>

theorem merge_precedence:
  assumes "distinct (map fst flags)"
  shows "replacements_of (b\<lparr>Substitutions := merge_substitutions (Substitutions b) flags\<rparr>) k =
     (case map_of flags k of
        Some v \<Rightarrow> Some v
      | None \<Rightarrow> (case map_of (Substitutions b) k of
                   Some v \<Rightarrow> Some v
                 | None \<Rightarrow> map_of (builtin_replacements b) k))"
proof -
  have "builtin_replacements (b\<lparr>Substitutions := m\<rparr>) = builtin_replacements b" for m
    by (simp add: builtin_replacements_def GetRepoSource_def GetResolvedRepoSource_def)
  then show ?thesis
    by (simp add: replacements_of_def merge_substitutions_map [OF assms] map_add_def split: option.split)
qed

theorem merge_precedence_witness:
  "replacements_of (empty_build\<lparr>Substitutions :=
     merge_substitutions (Substitutions (empty_build\<lparr>Substitutions := [(''_A'', ''x'')]\<rparr>)) [(''_A'', ''y'')]\<rparr>) ''_A''
   = Some ''y''"
  using merge_precedence [of "[(''_A'', ''y'')]" "empty_build\<lparr>Substitutions := [(''_A'', ''x'')]\<rparr>" "''_A''"]
  by simp

text \<open>
  C38: Flag round trip: the flag written for a map with trimmed keys and values (no comma in
  either, no equals sign in a key) parses back to that map.
\<close>

theorem ParseSubstitutionsFlag_roundtrip:
  assumes "m \<noteq> []" "distinct (map fst m)" "\<forall>kv\<in>set m. flag_entry kv"
  shows "\<exists>m'. ParseSubstitutionsFlag (render_flag m) = (m', None) \<and> map_of m' = map_of m"
  using ParseSubstitutionsFlag_render [OF assms(1,3)] fold_upd_distinct [OF assms(2), of Map.empty]
  by (simp add: fold_update_map_of)

theorem ParseSubstitutionsFlag_roundtrip_witness:
  "\<exists>m'. ParseSubstitutionsFlag (render_flag [(''_A'', ''x=y''), (''_B'', [])]) = (m', None) \<and>
     map_of m' = map_of [(''_A'', ''x=y''), (''_B'', [])]"
proof (rule ParseSubstitutionsFlag_roundtrip)
  show "\<forall>kv\<in>set [(''_A'', ''x=y''), (''_B'', [])]. flag_entry kv" by code_simp
qed simp_all

text \<open>
  Images are substituted twice. Validation makes \<open>.images\<close> and \<open>.artifacts.images\<close> one
  slice, and \<open>SubstituteBuildFields\<close> rewrites it through both fields: the image names that
  come out are the expansion of the expansion of the names that were given.
\<close>

theorem images_expanded_twice:
  assumes "CheckArtifacts h b = (b1, None)" "given_images h b \<noteq> []"
    and "SubstituteBuildFields h b1 = Some (h', b')"
  shows "deref h' (Images b') =
     map (expand (replacements_of b1) \<circ> expand (replacements_of b1)) (given_images h b)"
proof -
  note f = CheckArtifacts_None [OF assms(1)]
  obtain a where a: "Images b1 = Some a" "artifacts_images b1 = Some a" "h a = given_images h b"
    using f(1,2) assms(2) by (cases "Images b1") auto
  then show ?thesis
    using assms(3) by (auto simp: SubstituteBuildFields_expand Let_def expand_slice_def)
qed

theorem images_expanded_twice_witness:
  "let h = (\<lambda>_. [])(0 := [''gcr.io/p/$$PROJECT_ID'']);
       b = empty_build\<lparr>ProjectId := ''q'', Images := Some 0\<rparr>;
       b1 = fst (CheckArtifacts h b);
       r = the (SubstituteBuildFields h b1)
   in deref (fst r) (Images (snd r)) = [''gcr.io/p/q'']"
proof -
  let ?h = "(\<lambda>_. [])(0 := [''gcr.io/p/$$PROJECT_ID''])"
  let ?b = "empty_build\<lparr>ProjectId := ''q'', Images := Some (0::nat)\<rparr>"
  let ?b1 = "?b\<lparr>Artifacts := Some (empty_artifacts\<lparr>a_Images := Some 0\<rparr>)\<rparr>"
  have run: "CheckArtifacts ?h ?b = (?b1, None)" by code_simp
  have given: "given_images ?h ?b = [''gcr.io/p/$$PROJECT_ID'']"
    by (simp add: given_images_def)
  obtain h' b' where sub: "SubstituteBuildFields ?h ?b1 = Some (h', b')"
    by (simp add: SubstituteBuildFields_expand Let_def)
  have "expand (replacements_of ?b1) (expand (replacements_of ?b1) ''gcr.io/p/$$PROJECT_ID'') = ''gcr.io/p/q''"
    by code_simp
  with images_expanded_twice [OF run _ sub] given have "deref h' (Images b') = [''gcr.io/p/q'']" by simp
  then show ?thesis by (simp add: Let_def run sub)
qed


text \<open>
  A secret can be shadowed after validation: the conflict check runs before substitution,
  so an entry whose name only becomes the name of a secret by substitution is accepted.
\<close>

lemma secret_conflict_after_substitution:
  "let b = empty_build\<lparr>
         Steps := [empty_step\<lparr>s_Name := ''a'', s_Env := [''$_A=1''], s_SecretEnv := [''PW'']\<rparr>],
         Secrets := [\<lparr>KmsKeyName = ''k'', SecretEnvs = [(''PW'', ''x'')]\<rparr>],
         Substitutions := [(''_A'', ''PW'')]\<rparr>;
       r = SubstituteAndValidate (\<lambda>_. []) b []
   in snd r = None \<and> (\<exists>s\<in>set (Steps (snd (fst r))). \<not> no_secret_env_conflict (snd (fst r)) s)"
  by code_simp

end
