(* ===== verification/Config_File.thy ===== *)
theory Config_File
  imports Build_Proto
begin

text \<open>
  Package \<open>config\<close> (\<open>config/config.go\<close>): a config file is read as YAML, repaired by \<open>fix\<close>,
  printed as JSON and read as a build. The YAML reader, the JSON printer and the JSON
  reader of protocol buffers are third-party code or reflection and are parameters; what
  the program itself does is \<open>fix\<close>, which turns every map with keys of any type into one
  with string keys.
\<close>

section \<open>Values\<close>

text \<open>
  What the YAML reader produces: a \<open>map[interface{}]interface{}\<close> is \<open>AnyMap\<close>, a
  \<open>map[string]interface{}\<close> is \<open>StrMap\<close>. A float is carried as the text that is printed.
\<close>

datatype yaml =
  YNil
| YBool bool
| YInt int
| YFloat string
| YStr string
| YSeq "yaml list"
| AnyMap "(yaml \<times> yaml) list"
| StrMap "(string \<times> yaml) list"

text \<open>\<^verbatim>\<open>fmt.Sprintf("%s", k)\<close> for a key; a key that is no string is printed as a bad verb.\<close>

fun key_text :: "yaml \<Rightarrow> string" where
  "key_text (YStr s) = s"
| "key_text (YInt n) = ''%!s(int='' @ show_int n @ '')''"
| "key_text (YBool b) = ''%!s(bool='' @ (if b then ''true'' else ''false'') @ '')''"
| "key_text YNil = ''%!s(<nil>)''"
| "key_text (YFloat f) = ''%!s(float64='' @ f @ '')''"
| "key_text _ = []"

text \<open>The copy of a map holds only values of the map.\<close>

lemma update_values: "snd ` set (AList.update k v m) \<subseteq> insert v (snd ` set m)"
  by (induction m) auto

lemma copy_values:
  "snd ` set (fold (\<lambda>(k, v) cp. AList.update (key_text k) v cp) m acc) \<subseteq> snd ` set m \<union> snd ` set acc"
proof (induction m arbitrary: acc)
  case (Cons x m)
  obtain k v where x: "x = (k, v)" by (cases x)
  have "snd ` set (fold (\<lambda>(k, v) cp. AList.update (key_text k) v cp) m (AList.update (key_text k) v acc)) \<subseteq>
      snd ` set m \<union> snd ` set (AList.update (key_text k) v acc)" by (rule Cons)
  also have "\<dots> \<subseteq> snd ` set m \<union> insert v (snd ` set acc)" using update_values [of "key_text k" v acc] by (rule Un_mono [OF subset_refl])
  finally show ?case by (simp add: x)
qed simp

fun depth :: "yaml \<Rightarrow> nat" where
  "depth (AnyMap m) = Suc (Suc (Max (insert 0 (set (map (\<lambda>(k, v). depth v) m)))))"
| "depth (StrMap m) = Suc (Max (insert 0 (set (map (\<lambda>(k, v). depth v) m))))"
| "depth (YSeq s) = Suc (Max (insert 0 (set (map depth s))))"
| "depth v = 0"

lemma depth_members:
  "v \<in> set s \<Longrightarrow> depth v < depth (YSeq s)" "(k, v) \<in> set m \<Longrightarrow> depth v < depth (StrMap m)"
  by (auto simp: less_Suc_eq_le intro!: Max_ge)

lemma depth_copy:
  "depth (StrMap (fold (\<lambda>(k, v) cp. AList.update (key_text k) v cp) m [])) < depth (AnyMap m)"
proof -
  let ?cp = "fold (\<lambda>(k, v) cp. AList.update (key_text k) v cp) m []"
  have d: "set (map (\<lambda>(k, v). depth v) l) = depth ` snd ` set l" for l :: "('a \<times> yaml) list"
    by (force simp: image_iff)
  have "snd ` set ?cp \<subseteq> snd ` set m" using copy_values [of m "[]"] by simp
  then have "Max (insert 0 (depth ` snd ` set ?cp)) \<le> Max (insert 0 (depth ` snd ` set m))"
    by (intro Max_mono) auto
  then show ?thesis by (simp only: depth.simps d Suc_less_eq less_Suc_eq_le)
qed

text \<open>
  \<open>fix\<close>. Keys that are printed alike share one entry, the last one written; the order of
  the list stands for the order in which the map is ranged over.
\<close>

function (sequential) fix_yaml :: "yaml \<Rightarrow> yaml" where
  "fix_yaml (AnyMap m) = fix_yaml (StrMap (fold (\<lambda>(k, v) cp. AList.update (key_text k) v cp) m []))"
| "fix_yaml (StrMap m) = StrMap (map (\<lambda>(k, v). (k, fix_yaml v)) m)"
| "fix_yaml (YSeq s) = YSeq (map fix_yaml s)"
| "fix_yaml v = v"
  by pat_completeness auto

termination
  by (relation "measure depth") (use depth_members depth_copy in auto)

section \<open>Loading\<close>

datatype config_error = CannotRead string | BadYaml string | BadJson string | NotRepeated | BadBuild string

text \<open>The message of a string where a list is expected is replaced by a hint.\<close>

definition raw_message_error :: string where
  "raw_message_error = ''json: cannot unmarshal string into Go value of type []json.RawMessage''"

definition unmarshalBuildTemplate ::
  "(string \<Rightarrow> string + (string \<times> yaml) list) \<Rightarrow> (yaml \<Rightarrow> string + string) \<Rightarrow> (string \<Rightarrow> string + build) \<Rightarrow>
     string \<Rightarrow> config_error + build"
where
  "unmarshalBuildTemplate yaml_Unmarshal json_Marshal jsonpb_Unmarshal content =
     (case yaml_Unmarshal content of
        Inl e \<Rightarrow> Inl (BadYaml e)
      | Inr m \<Rightarrow>
          (case json_Marshal (fix_yaml (StrMap m)) of
             Inl e \<Rightarrow> Inl (BadJson e)
           | Inr jb \<Rightarrow>
               (case jsonpb_Unmarshal jb of
                  Inl e \<Rightarrow> Inl (if e = raw_message_error then NotRepeated else BadBuild e)
                | Inr b \<Rightarrow> Inr b)))"

definition Load ::
  "(string \<Rightarrow> string + string) \<Rightarrow> (string \<Rightarrow> string + (string \<times> yaml) list) \<Rightarrow> (yaml \<Rightarrow> string + string) \<Rightarrow>
     (string \<Rightarrow> string + build) \<Rightarrow> string \<Rightarrow> config_error + build"
where
  "Load ReadFile yaml_Unmarshal json_Marshal jsonpb_Unmarshal path =
     (case ReadFile path of
        Inl e \<Rightarrow> Inl (CannotRead e)
      | Inr content \<Rightarrow> unmarshalBuildTemplate yaml_Unmarshal json_Marshal jsonpb_Unmarshal content)"

section \<open>What fix achieves\<close>

text \<open>Values that the JSON printer supports: no map with keys of any type, at any depth.\<close>

fun printable :: "yaml \<Rightarrow> bool" where
  "printable (AnyMap m) = False"
| "printable (StrMap m) = list_all (\<lambda>(k, v). printable v) m"
| "printable (YSeq s) = list_all printable s"
| "printable v = True"

lemma fix_yaml_printable: "printable (fix_yaml v)"
  by (induction v rule: fix_yaml.induct) (auto simp: list_all_iff)

lemma fix_yaml_id: "printable v \<Longrightarrow> fix_yaml v = v"
proof (induction v rule: fix_yaml.induct)
  case (2 m)
  have "map (\<lambda>(k, v). (k, fix_yaml v)) m = m"
    by (rule map_idI) (use 2 in \<open>auto simp: list_all_iff split: prod.splits\<close>)
  then show ?case by simp
qed (auto simp: list_all_iff intro: map_idI)

lemma update_new_key: "k \<notin> fst ` set m \<Longrightarrow> AList.update k v m = m @ [(k, v)]"
  by (induction m) auto

text \<open>A map whose keys are different strings keeps its entries.\<close>

lemma copy_string_keys:
  assumes "distinct (map fst m)"
  shows "fold (\<lambda>(k, v) cp. AList.update (key_text k) v cp) (map (\<lambda>(k, v). (YStr k, v)) m) [] = m"
proof -
  have "fold (\<lambda>(k, v) cp. AList.update (key_text k) v cp) (map (\<lambda>(k, v). (YStr k, v)) m) acc = acc @ m"
    if "distinct (map fst (acc @ m))" for acc
    using that
  proof (induction m arbitrary: acc)
    case (Cons x m)
    obtain k v where x: "x = (k, v)" by fastforce
    have "AList.update k v acc = acc @ [(k, v)]"
      using Cons.prems by (intro update_new_key) (auto simp: x)
    then show ?case using Cons by (simp add: x)
  qed simp
  from this [of "[]"] show ?thesis using assms by simp
qed

section \<open>Properties\<close>

text \<open>
  C37: \<open>fix\<close> is a normal form for the JSON printer: its result has no map with keys of any
  type at any depth, a value without such maps is left as it is, so that repairing twice is
  repairing once, and a map whose keys are different strings keeps all its entries.
\<close>

theorem fix_yaml_normal:
  "printable (fix_yaml v) \<and> fix_yaml (fix_yaml v) = fix_yaml v \<and> (printable v \<longrightarrow> fix_yaml v = v) \<and>
   (distinct (map fst m) \<longrightarrow>
      fix_yaml (AnyMap (map (\<lambda>(k, v). (YStr k, v)) m)) = StrMap (map (\<lambda>(k, v). (k, fix_yaml v)) m))"
proof -
  have "fix_yaml (AnyMap (map (\<lambda>(k, v). (YStr k, v)) m)) = StrMap (map (\<lambda>(k, v). (k, fix_yaml v)) m)"
    if "distinct (map fst m)"
    by (simp only: fix_yaml.simps(1,2) copy_string_keys [OF that])
  then show ?thesis using fix_yaml_printable fix_yaml_id by blast
qed

theorem fix_yaml_normal_witness:
  "printable (StrMap [(''a'', YSeq [YInt 1])]) \<and> fix_yaml (StrMap [(''a'', YSeq [YInt 1])]) = StrMap [(''a'', YSeq [YInt 1])] \<and>
   fix_yaml (AnyMap [(YStr ''x'', YNil), (YStr ''y'', AnyMap [])]) = StrMap [(''x'', YNil), (''y'', StrMap [])]"
  using fix_yaml_normal [of "StrMap [(''a'', YSeq [YInt 1])]" "[(''x'', YNil), (''y'', AnyMap [])]"] by simp

end
