(* ===== verification/Runner.thy ===== *)
theory Runner
  imports Prelude
begin

text \<open>
  Package \<open>runner\<close> (\<open>runner/runner.go\<close>): the interface through which the program runs
  every docker, gcloud and gsutil command, and \<open>RealRunner\<close>. What the operating system does
  with a command is outside the program: it is a parameter, the \<open>host\<close>, that answers a
  command from the commands issued before it. A component takes the method \<open>Run\<close> of the
  runner it is given as an argument, over a type of worlds the interface does not fix.
\<close>

section \<open>Errors and contexts\<close>

text \<open>
  Errors are compared by identity with three values; every other error is a text or a
  text that wraps another error (\<open>fmt.Errorf\<close>), different from each of the three.
\<close>

datatype err =
  DeadlineExceeded
| Canceled
| ErrorScrapingDigest
| ErrText string
| ErrWrap string err

text \<open>
  The context of a call: the background context, the one of the build, or the one of the
  build with a timeout of its own.
\<close>

datatype ctx = Background | BuildCtx | TimeoutCtx int

section \<open>The interface\<close>

text \<open>What a finished command wrote (\<open>True\<close> marks standard output) and its error.\<close>

record answer =
  writes :: "(bool \<times> string) list"
  run_err :: "err option"

definition stdout_of :: "answer \<Rightarrow> string" where
  "stdout_of a = concat (map snd (filter fst (writes a)))"

definition output_of :: "answer \<Rightarrow> string" where
  "output_of a = concat (map snd (writes a))"

type_synonym 'w run = "ctx \<Rightarrow> string list \<Rightarrow> 'w \<Rightarrow> answer \<times> 'w"

section \<open>RealRunner\<close>

text \<open>
  What becomes of a command: it cannot be started; its process exits; the context of the
  build is done before; or the timeout of the call runs out before.
\<close>

datatype outcome =
  StartFails err
| Exits "(bool \<times> string) list" "err option"
| CtxDone "(bool \<times> string) list" err
| TimedOut "(bool \<times> string) list"

type_synonym host = "string list list \<Rightarrow> ctx \<Rightarrow> string list \<Rightarrow> outcome"

text \<open>
  The machine: the commands issued and the processes started, the error of the context of
  the build, the time slept by the program, and what was written to the log (the prefix of
  the writer, whether it is the one for standard output, and the text).
\<close>

record machine =
  DryRun :: bool
  logged :: "string list list"
  started :: "string list list"
  ctx_err :: "err option"
  slept :: "int list"
  printed :: "(string \<times> bool \<times> string) list"

text \<open>
  \<open>Run\<close>. In dry-run mode the command is logged and nothing else happens. A process that is
  started either exits or the context is done first; then \<open>Run\<close> returns the error of the
  context without waiting for the process.
\<close>

definition RealRunner_Run :: "host \<Rightarrow> machine run" where
  "RealRunner_Run host c args m =
     (if DryRun m then (\<lparr>writes = [], run_err = None\<rparr>, m\<lparr>logged := logged m @ [args]\<rparr>)
      else let m' = m\<lparr>logged := logged m @ [args]\<rparr>
           in case host (logged m) c args of
                StartFails e \<Rightarrow> (\<lparr>writes = [], run_err = Some e\<rparr>, m')
              | Exits ws e \<Rightarrow>
                  (\<lparr>writes = ws, run_err = e\<rparr>, m'\<lparr>started := started m @ [args]\<rparr>)
              | CtxDone ws e \<Rightarrow>
                  (\<lparr>writes = ws, run_err = Some e\<rparr>,
                   m'\<lparr>started := started m @ [args], ctx_err := Some e\<rparr>)
              | TimedOut ws \<Rightarrow>
                  (\<lparr>writes = ws, run_err = Some DeadlineExceeded\<rparr>, m'\<lparr>started := started m @ [args]\<rparr>))"

text \<open>The error of the context that a caller sees with \<open>ctx.Err()\<close>.\<close>

definition CtxErr :: "ctx \<Rightarrow> machine \<Rightarrow> err option" where
  "CtxErr c m = (case c of Background \<Rightarrow> None | _ \<Rightarrow> ctx_err m)"

text \<open>
  The two operations on files; what the operating system does is an argument. They touch
  the file system in dry-run mode too. The modes are \<open>0755\<close> and \<open>0666\<close>, in octal.
\<close>

definition RealRunner_MkdirAll :: "(string \<Rightarrow> nat \<Rightarrow> 'w \<Rightarrow> err option \<times> 'w) \<Rightarrow> string \<Rightarrow> 'w \<Rightarrow> err option \<times> 'w" where
  "RealRunner_MkdirAll os_MkdirAll dir w = os_MkdirAll dir 493 w"

definition RealRunner_WriteFile ::
  "(string \<Rightarrow> string \<Rightarrow> nat \<Rightarrow> 'w \<Rightarrow> err option \<times> 'w) \<Rightarrow> string \<Rightarrow> string \<Rightarrow> 'w \<Rightarrow> err option \<times> 'w"
where
  "RealRunner_WriteFile ioutil_WriteFile path contents w = ioutil_WriteFile path contents 438 w"

subsection \<open>The process table\<close>

text \<open>
  Several goroutines call \<open>Run\<close>. Each enters its process in the table when it is started
  and deletes it when it returns; \<open>Clean\<close> kills what is in the table, in the order of the
  range over the map, and stops at the first process it cannot kill.
\<close>

datatype proc_event = Started nat | Returned nat | Cleaned

fun Clean_loop :: "(nat \<Rightarrow> err option) \<Rightarrow> nat list \<Rightarrow> err option \<times> nat list \<times> nat list" where
  "Clean_loop kill [] = (None, [], [])"
| "Clean_loop kill (p # ps) =
     (case kill p of
        Some e \<Rightarrow> (Some e, p # ps, [])
      | None \<Rightarrow>
          (case Clean_loop kill ps of (r, rest, killed) \<Rightarrow> (r, rest, p # killed)))"

definition Clean_processes :: "(nat \<Rightarrow> err option) \<Rightarrow> nat list \<Rightarrow> err option \<times> nat list" where
  "Clean_processes kill ps = (case Clean_loop kill ps of (r, rest, killed) \<Rightarrow> (r, rest))"

fun proc_step :: "(nat \<Rightarrow> err option) \<Rightarrow> nat list \<Rightarrow> proc_event \<Rightarrow> nat list" where
  "proc_step kill processes (Started pid) = pid # removeAll pid processes"
| "proc_step kill processes (Returned pid) = removeAll pid processes"
| "proc_step kill processes Cleaned = snd (Clean_processes kill processes)"

lemma Clean_loop_split:
  "Clean_loop kill ps = (r, rest, killed) \<Longrightarrow> ps = killed @ rest \<and> (\<forall>p\<in>set killed. kill p = None) \<and>
     (case r of None \<Rightarrow> rest = [] | Some e \<Rightarrow> rest \<noteq> [] \<and> kill (hd rest) = Some e)"
  by (induction ps arbitrary: r rest killed) (auto split: option.splits prod.splits dest: sym)

text \<open>The processes started and neither returned nor cleaned away, seen from the events.\<close>

fun in_flight :: "proc_event list \<Rightarrow> nat set" where
  "in_flight [] = {}"
| "in_flight (Started pid # es) = insert pid (in_flight es)"
| "in_flight (Returned pid # es) = in_flight es - {pid}"
| "in_flight (Cleaned # es) = in_flight es"

text \<open>Events are listed last first.\<close>

fun run_events :: "(nat \<Rightarrow> err option) \<Rightarrow> proc_event list \<Rightarrow> nat list" where
  "run_events kill [] = []"
| "run_events kill (e # es) = proc_step kill (run_events kill es) e"

lemma run_events_in_flight: "set (run_events kill es) \<subseteq> in_flight es"
proof (induction kill es rule: run_events.induct)
  case (2 kill e es)
  show ?case
  proof (cases e)
    case Cleaned
    obtain r rest killed where c: "Clean_loop kill (run_events kill es) = (r, rest, killed)"
      using prod_cases3 by blast
    then have "set rest \<subseteq> set (run_events kill es)" using Clean_loop_split [OF c] by auto
    then show ?thesis using 2 Cleaned c by (auto simp: Clean_processes_def)
  qed (use 2 in auto)
qed simp

lemma run_events_all_tracked:
  "Cleaned \<notin> set es \<Longrightarrow> set (run_events kill es) = in_flight es"
  by (induction es rule: in_flight.induct) auto

text \<open>Commands one after the other, until one fails: the reference for sequential code.\<close>

fun run_seq :: "'w run \<Rightarrow> ctx \<Rightarrow> string list list \<Rightarrow> 'w \<Rightarrow> err option \<times> 'w" where
  "run_seq run c [] w = (None, w)"
| "run_seq run c (cmd # cmds) w =
     (case run c cmd w of
        (a, w) \<Rightarrow> (case run_err a of Some e \<Rightarrow> (Some e, w) | None \<Rightarrow> run_seq run c cmds w))"

section \<open>The interface as a locale\<close>

text \<open>
  What the components rely on: the runner hands on the commands in the order in which they
  are issued, one for each call of \<open>Run\<close>.
\<close>

locale command_runner =
  fixes run :: "'w run" and issued :: "'w \<Rightarrow> string list list"
  assumes run_issued: "issued (snd (run c args w)) = issued w @ [args]"
begin

lemma run_issuedD: "run c args w = (a, w') \<Longrightarrow> issued w' = issued w @ [args]"
  using run_issued [of c args w] by simp

text \<open>Issuing a list of commands, until one fails.\<close>

lemma run_extends: "run c args w = (a, w') \<Longrightarrow> \<exists>cs. issued w' = issued w @ cs \<and> length cs = 1"
  using run_issuedD by fastforce

lemma run_seq_issued:
  "run_seq run c cmds w = (r, w') \<Longrightarrow>
     \<exists>k\<le>length cmds. issued w' = issued w @ take k cmds \<and> (r = None \<longrightarrow> k = length cmds) \<and> (cmds \<noteq> [] \<longrightarrow> 0 < k)"
proof (induction cmds arbitrary: w)
  case (Cons cmd cmds)
  obtain a w1 where a: "run c cmd w = (a, w1)" by fastforce
  show ?case
  proof (cases "run_err a")
    case None
    then have "run_seq run c cmds w1 = (r, w')" using Cons.prems a by simp
    from Cons.IH [OF this] obtain k where "k \<le> length cmds" "issued w' = issued w1 @ take k cmds"
        "r = None \<longrightarrow> k = length cmds" by blast
    then show ?thesis using run_issuedD [OF a] by (intro exI [of _ "Suc k"]) simp
  next
    case (Some e)
    then have "r = Some e" "w' = w1" using Cons.prems a by simp_all
    then show ?thesis using run_issuedD [OF a] by (intro exI [of _ 1]) simp
  qed
qed simp

end

interpretation real: command_runner "RealRunner_Run host" logged for host
  by unfold_locales (auto simp: RealRunner_Run_def Let_def split: outcome.splits)

text \<open>A runner that executes nothing: dry-run mode.\<close>

lemma dry_run_starts_nothing:
  "DryRun m \<Longrightarrow> RealRunner_Run host c args m = (a, m') \<Longrightarrow>
     DryRun m' \<and> started m' = started m \<and> run_err a = None \<and> writes a = [] \<and> ctx_err m' = ctx_err m"
  by (auto simp: RealRunner_Run_def)

lemma started_sublist:
  "\<exists>cs. started (snd (RealRunner_Run host c args m)) = started m @ cs \<and> set cs \<subseteq> {args}"
  by (auto simp: RealRunner_Run_def Let_def split: outcome.splits)

section \<open>Properties\<close>



text \<open>
  \<open>Clean\<close> empties the table unless a process cannot be killed; in that case it returns
  the error of that process, has killed those before it, and keeps it and those after it.
\<close>

theorem Clean_processes_result:
  "case Clean_processes kill ps of
     (None, rest) \<Rightarrow> rest = [] \<and> (\<forall>p\<in>set ps. kill p = None)
   | (Some e, rest) \<Rightarrow> (\<exists>killed q qs. ps = killed @ q # qs \<and> rest = q # qs \<and> kill q = Some e \<and>
        (\<forall>p\<in>set killed. kill p = None))"
proof -
  obtain r rest killed where c: "Clean_loop kill ps = (r, rest, killed)" using prod_cases3 by blast
  show ?thesis using Clean_loop_split [OF c] c
    by (cases rest) (auto simp: Clean_processes_def split: option.splits)
qed

end
