(* ===== verification/Metadata.thy ===== *)
theory Metadata
  imports Runner Prelude
begin

text \<open>
  Package \<open>metadata\<close> (\<open>metadata/metadata.go\<close>): the container that plays the metadata server,
  its network, and the requests that update it. The commands go through the runner. The
  answers to HTTP requests come from outside and are a parameter: for a method, an address
  and a body, the error of the request or the status code and the body of the response.
\<close>

section \<open>Constants\<close>

definition fixedMetadataIP :: string where "fixedMetadataIP = ''169.254.169.254''"
definition metadataLocalSubnet :: string where "metadataLocalSubnet = ''169.254.0.0/16''"
definition metadataHostedSubnet :: string where "metadataHostedSubnet = ''192.168.10.0/24''"
definition localMetadata :: string where "localMetadata = ''http://localhost:8082''"
definition metadataHostedIP :: string where "metadataHostedIP = ''192.168.10.5''"
definition googleTokenInfoHost :: string where "googleTokenInfoHost = ''https://www.googleapis.com''"

section \<open>The container and its network\<close>

definition network_cmd :: "string \<Rightarrow> string list" where
  "network_cmd subnet = [''docker'', ''network'', ''create'', ''cloudbuild'', ''--subnet='' @ subnet]"

definition server_cmd :: "bool \<Rightarrow> string \<Rightarrow> string list" where
  "server_cmd iptables metadataImage =
     (if \<not> iptables then [''docker'', ''run'', ''-d'', ''-p=8082:80'', ''--name=metadata'', metadataImage]
      else [''docker'', ''run'', ''-d'', ''--name=metadata'', metadataImage])"

definition connect_cmd :: "string \<Rightarrow> string list" where
  "connect_cmd ip = [''docker'', ''network'', ''connect'', ''--alias=metadata'',
     ''--alias=metadata.google.internal'', ''--ip='' @ ip, ''cloudbuild'', ''metadata'']"

definition iptables_cmd :: "string list" where
  "iptables_cmd = [''iptables'', ''-t'', ''nat'', ''-A'', ''PREROUTING'', ''-p'', ''tcp'',
     ''--destination'', fixedMetadataIP, ''--dport'', ''80'', ''-j'', ''DNAT'',
     ''--to-destination'', metadataHostedIP]"

definition CreateCloudbuildNetwork :: "'w run \<Rightarrow> ctx \<Rightarrow> string \<Rightarrow> 'w \<Rightarrow> err option \<times> 'w" where
  "CreateCloudbuildNetwork run c subnet w = (case run c (network_cmd subnet) w of (a, w) \<Rightarrow> (run_err a, w))"

definition startServer ::
  "'w run \<Rightarrow> ctx \<Rightarrow> string \<Rightarrow> bool \<Rightarrow> string \<Rightarrow> string \<Rightarrow> 'w \<Rightarrow> err option \<times> 'w"
where
  "startServer run c metadataImage iptables ip subnet w =
     (case CreateCloudbuildNetwork run c subnet w of
        (Some e, w) \<Rightarrow> (Some (ErrWrap ''Error creating network'' e), w)
      | (None, w) \<Rightarrow>
          (case run c (server_cmd iptables metadataImage) w of
             (a, w) \<Rightarrow>
               (case run_err a of
                  Some e \<Rightarrow> (Some e, w)
                | None \<Rightarrow>
                    (case run c (connect_cmd ip) w of
                       (a, w) \<Rightarrow>
                         (case run_err a of
                            Some e \<Rightarrow> (Some (ErrWrap ''Error connecting metadata to network'' e), w)
                          | None \<Rightarrow>
                              if iptables then
                                (case run c iptables_cmd w of
                                   (a, w) \<Rightarrow>
                                     (map_option (ErrWrap ''Error updating iptables'') (run_err a), w))
                              else (None, w))))))"

definition StartLocalServer :: "'w run \<Rightarrow> ctx \<Rightarrow> string \<Rightarrow> 'w \<Rightarrow> err option \<times> 'w" where
  "StartLocalServer run c metadataImage w =
     (case run c [''docker'', ''pull'', metadataImage] w of
        (a, w) \<Rightarrow>
          (case run_err a of
             Some e \<Rightarrow> (Some e, w)
           | None \<Rightarrow> startServer run c metadataImage False fixedMetadataIP metadataLocalSubnet w))"

text \<open>The goroutine that attaches to the container runs beside the caller; it is the flag.\<close>

definition StartCloudServer :: "'w run \<Rightarrow> ctx \<Rightarrow> string \<Rightarrow> 'w \<Rightarrow> (err option \<times> bool) \<times> 'w" where
  "StartCloudServer run c metadataImage w =
     (case startServer run c metadataImage True metadataHostedIP metadataHostedSubnet w of
        (Some e, w) \<Rightarrow> ((Some e, False), w)
      | (None, w) \<Rightarrow> ((None, True), w))"

definition network_rm_cmd :: "string list" where
  "network_rm_cmd = [''docker'', ''network'', ''rm'', ''cloudbuild'']"

definition server_rm_cmd :: "string list" where
  "server_rm_cmd = [''docker'', ''rm'', ''-f'', ''metadata'']"

definition CleanCloudbuildNetwork :: "'w run \<Rightarrow> ctx \<Rightarrow> 'w \<Rightarrow> err option \<times> 'w" where
  "CleanCloudbuildNetwork run c w = (case run c network_rm_cmd w of (a, w) \<Rightarrow> (run_err a, w))"

definition Stop :: "'w run \<Rightarrow> ctx \<Rightarrow> 'w \<Rightarrow> err option \<times> 'w" where
  "Stop run c w =
     (case run c server_rm_cmd w of
        (a, w) \<Rightarrow>
          (case CleanCloudbuildNetwork run c w of
             (errNetwork, w) \<Rightarrow> (if run_err a \<noteq> None then run_err a else errNetwork, w)))"

section \<open>Requests\<close>

definition getAddress :: "bool \<Rightarrow> string" where
  "getAddress is_local =
     (let addr = (if \<not> is_local then metadataHostedIP else localMetadata)
      in if \<not> has_prefix addr ''http'' then ''http://'' @ addr else addr)"

text \<open>What one request gets: an error, or a status code and a body.\<close>

type_synonym 'w http = "string \<Rightarrow> string \<Rightarrow> string \<Rightarrow> 'w \<Rightarrow> (err + nat \<times> string) \<times> 'w"

definition doRequest :: "'w http \<Rightarrow> string \<Rightarrow> string \<Rightarrow> string \<Rightarrow> 'w \<Rightarrow> (err + string) \<times> 'w" where
  "doRequest http verb url body w =
     (case http verb url body w of
        (Inl e, w) \<Rightarrow> (Inl e, w)
      | (Inr (status, content), w) \<Rightarrow>
          (if status \<noteq> 200 then Inl (ErrText (verb @ '' failed ('' @ show_nat status @ ''): '' @ content))
           else Inr content, w))"

record token =
  AccessToken :: string
  Expiry :: int
  Email :: string
  Scopes :: "string list"

record oauth2_token =
  o_AccessToken :: string
  o_Expiry :: int
  o_TokenType :: string

definition Oauth2 :: "token \<Rightarrow> oauth2_token" where
  "Oauth2 t = \<lparr>o_AccessToken = AccessToken t, o_Expiry = Expiry t, o_TokenType = ''Bearer''\<rparr>"

record project_info =
  ProjectID :: string
  ProjectNum :: int

text \<open>
  \<open>getScopes\<close>: at most three attempts. The form encoding of the token and the decoder of the
  JSON response, which finds the field \<open>scope\<close>, are parameters.
\<close>

fun scope_attempts :: "'w http \<Rightarrow> (string \<Rightarrow> err + string) \<Rightarrow> string \<Rightarrow> nat \<Rightarrow> err option \<Rightarrow> 'w \<Rightarrow> (err option + string list) \<times> 'w" where
  "scope_attempts http decode form 0 prev w = (Inl prev, w)"
| "scope_attempts http decode form (Suc n) prev w =
     (case doRequest http ''POST'' (googleTokenInfoHost @ ''/oauth2/v3/tokeninfo'') form w of
        (Inl e, w) \<Rightarrow> scope_attempts http decode form n (Some e) w
      | (Inr body, w) \<Rightarrow>
          (case decode body of
             Inl e \<Rightarrow> scope_attempts http decode form n (Some e) w
           | Inr scope \<Rightarrow> (Inr (split_on CHR '' '' scope), w)))"

definition getScopes :: "'w http \<Rightarrow> (string \<Rightarrow> err + string) \<Rightarrow> string \<Rightarrow> 'w \<Rightarrow> (err option + string list) \<times> 'w" where
  "getScopes http decode form w = scope_attempts http decode form 3 None w"

text \<open>The token is changed even if the request that follows fails.\<close>

definition SetToken ::
  "bool \<Rightarrow> 'w http \<Rightarrow> (string \<Rightarrow> err + string) \<Rightarrow> (string \<Rightarrow> string) \<Rightarrow> (token \<Rightarrow> string) \<Rightarrow> token \<Rightarrow> 'w \<Rightarrow>
     err option \<times> token \<times> 'w"
where
  "SetToken is_local http decode form json tok w =
     (case getScopes http decode (form (AccessToken tok)) w of
        (Inl e, w) \<Rightarrow> (e, tok, w)
      | (Inr scopes, w) \<Rightarrow>
          (let tok = tok\<lparr>Scopes := scopes\<rparr>
           in case doRequest http ''POST'' (getAddress is_local @ ''/token'') (json tok) w of
                (Inl e, w) \<Rightarrow> (Some e, tok, w)
              | (Inr body, w) \<Rightarrow> (None, tok, w)))"

definition SetProjectInfo ::
  "bool \<Rightarrow> 'w http \<Rightarrow> (project_info \<Rightarrow> string) \<Rightarrow> project_info \<Rightarrow> 'w \<Rightarrow> err option \<times> 'w"
where
  "SetProjectInfo is_local http json b w =
     (case doRequest http ''POST'' (getAddress is_local @ ''/build'') (json b) w of
        (Inl e, w) \<Rightarrow> (Some e, w)
      | (Inr body, w) \<Rightarrow> (None, w))"

definition Ready :: "bool \<Rightarrow> 'w http \<Rightarrow> 'w \<Rightarrow> bool \<times> 'w" where
  "Ready is_local http w =
     (case doRequest http ''GET'' (getAddress is_local @ ''/ready'') [] w of
        (Inl e, w) \<Rightarrow> (False, w)
      | (Inr body, w) \<Rightarrow> (True, w))"

section \<open>Facts\<close>

lemma startServer_run_seq:
  "\<exists>f. startServer run c metadataImage iptables ip subnet w =
     (case run_seq run c ([network_cmd subnet, server_cmd iptables metadataImage, connect_cmd ip] @
        (if iptables then [iptables_cmd] else [])) w of (r, w') \<Rightarrow> (map_option f r, w'))"
proof -
  obtain a1 w1 where 1: "run c (network_cmd subnet) w = (a1, w1)" by fastforce
  obtain a2 w2 where 2: "run c (server_cmd iptables metadataImage) w1 = (a2, w2)" by fastforce
  obtain a3 w3 where 3: "run c (connect_cmd ip) w2 = (a3, w3)" by fastforce
  obtain a4 w4 where 4: "run c iptables_cmd w3 = (a4, w4)" by fastforce
  note d = startServer_def CreateCloudbuildNetwork_def 1 2 3 4
  consider (1) e where "run_err a1 = Some e" | (2) e where "run_err a1 = None" "run_err a2 = Some e"
    | (3) e where "run_err a1 = None" "run_err a2 = None" "run_err a3 = Some e"
    | (4) "run_err a1 = None" "run_err a2 = None" "run_err a3 = None"
    by (cases "run_err a1"; cases "run_err a2"; cases "run_err a3"; auto)
  then show ?thesis
  proof cases
    case (1 e)
    then show ?thesis by (intro exI [of _ "ErrWrap ''Error creating network''"]) (simp add: d)
  next
    case (2 e)
    then show ?thesis by (intro exI [of _ id]) (simp add: d)
  next
    case (3 e)
    then show ?thesis
      by (intro exI [of _ "ErrWrap ''Error connecting metadata to network''"]) (simp add: d)
  next
    case 4
    then show ?thesis
      by (intro exI [of _ "ErrWrap ''Error updating iptables''"]) (cases "run_err a4"; simp add: d)
  qed
qed

text \<open>The attempts to read the scopes.\<close>

lemma scope_attempts_error: "n > 0 \<or> prev \<noteq> None \<Longrightarrow> scope_attempts http decode form n prev w = (Inl e, w') \<Longrightarrow> e \<noteq> None"
proof (induction n arbitrary: prev w)
  case (Suc n)
  then show ?case by (fastforce split: prod.splits sum.splits)
qed auto

section \<open>Properties\<close>


text \<open>
  \<open>Stop\<close> tries both the container and the network, whatever the first command returns,
  and reports an error exactly if one of them has failed, the one of the container first.
\<close>

theorem Stop_both:
  "logged (snd (Stop (RealRunner_Run host) c m)) = logged m @ [server_rm_cmd, network_rm_cmd] \<and>
   fst (Stop (RealRunner_Run host) c m) =
     (case run_err (fst (RealRunner_Run host c server_rm_cmd m)) of
        Some e \<Rightarrow> Some e
      | None \<Rightarrow> run_err (fst (RealRunner_Run host c network_rm_cmd (snd (RealRunner_Run host c server_rm_cmd m)))))"
proof -
  obtain a1 m1 where 1: "RealRunner_Run host c server_rm_cmd m = (a1, m1)" by fastforce
  obtain a2 m2 where 2: "RealRunner_Run host c network_rm_cmd m1 = (a2, m2)" by fastforce
  show ?thesis
    using real.run_issuedD [OF 1] real.run_issuedD [OF 2] 1 2
    by (simp add: Stop_def CleanCloudbuildNetwork_def split: option.split)
qed

text \<open>
  A failure to read the scopes of a token is always an error, so that \<open>SetToken\<close> never
  reports success without them; when it succeeds, the token has the scopes that the service
  returned and is otherwise unchanged.
\<close>

theorem SetToken_scopes:
  assumes "SetToken is_local http decode form json tok w = (None, tok', w')"
  shows "\<exists>scopes w1. getScopes http decode (form (AccessToken tok)) w = (Inr scopes, w1) \<and> tok' = tok\<lparr>Scopes := scopes\<rparr>"
proof -
  obtain r w1 where g: "getScopes http decode (form (AccessToken tok)) w = (r, w1)" by fastforce
  show ?thesis
  proof (cases r)
    case (Inl e)
    then have "e \<noteq> None" using scope_attempts_error g unfolding getScopes_def by (metis zero_less_numeral)
    then show ?thesis using assms g Inl by (simp add: SetToken_def)
  next
    case (Inr scopes)
    then show ?thesis using assms g by (auto simp: SetToken_def Let_def split: prod.splits sum.splits)
  qed
qed

definition scope_service :: "unit http" where
  "scope_service verb url body w = (Inr (200, ''a b''), w)"

theorem SetToken_scopes_witness:
  "SetToken True scope_service Inr id AccessToken \<lparr>AccessToken = ''t'', Expiry = 0, Email = [], Scopes = []\<rparr> () =
     (None, \<lparr>AccessToken = ''t'', Expiry = 0, Email = [], Scopes = [''a'', ''b'']\<rparr>, ()) \<and>
   (\<exists>scopes w1. getScopes scope_service Inr ''t'' () = (Inr scopes, w1))"
proof -
  have run: "SetToken True scope_service Inr id AccessToken \<lparr>AccessToken = ''t'', Expiry = 0, Email = [], Scopes = []\<rparr> () =
     (None, \<lparr>AccessToken = ''t'', Expiry = 0, Email = [], Scopes = [''a'', ''b'']\<rparr>, ())" by code_simp
  from SetToken_scopes [OF run] have "\<exists>scopes w1. getScopes scope_service Inr ''t'' () = (Inr scopes, w1)" by auto
  with run show ?thesis by blast
qed

end
