(* ===== verification/Gcloud.thy ===== *)
theory Gcloud
  imports Metadata Trim
begin

text \<open>
  Package \<open>gcloud\<close> (\<open>gcloud/gcloud.go\<close>): the access token and the project that the local
  gcloud is configured for. The decoder of the JSON that gcloud prints and the parser of
  RFC 3339 times are parameters; \<open>strconv.ParseInt\<close> in base ten is modelled.
\<close>

section \<open>Numbers\<close>

definition digit_value :: "char \<Rightarrow> nat option" where
  "digit_value c =
     (let n = (of_char c :: nat) in if 48 \<le> n \<and> n \<le> 57 then Some (n - 48) else None)"

fun digits_value :: "nat \<Rightarrow> string \<Rightarrow> nat option" where
  "digits_value acc [] = Some acc"
| "digits_value acc (c # s) =
     (case digit_value c of None \<Rightarrow> None | Some d \<Rightarrow> digits_value (10 * acc + d) s)"

text \<open>A sign, digits, and a value that fits in 64 bits.\<close>

definition ParseInt :: "string \<Rightarrow> err + int" where
  "ParseInt s =
     (let (neg, ds) = (case s of c # t \<Rightarrow> if c = CHR ''-'' then (True, t) else if c = CHR ''+'' then (False, t) else (False, s)
                               | [] \<Rightarrow> (False, s))
      in if ds = [] then Inl (ErrText ''invalid syntax'')
         else case digits_value 0 ds of
                None \<Rightarrow> Inl (ErrText ''invalid syntax'')
              | Some n \<Rightarrow>
                  (let v = (if neg then - int n else int n)
                   in if - (2 ^ 63) \<le> v \<and> v < 2 ^ 63 then Inr v else Inl (ErrText ''value out of range'')))"

section \<open>The commands\<close>

definition errTokenNotFound :: err where "errTokenNotFound = ErrText ''failed to find access token''"
definition errAcctNotFound :: err where "errAcctNotFound = ErrText ''failed to find credentials account''"
definition errTokenExpired :: err where "errTokenExpired = ErrText ''gcloud token is expired''"

record helper_config =
  hc_AccessToken :: string
  hc_TokenExpiry :: string
  hc_Account :: string

definition config_helper_cmd :: "string list" where
  "config_helper_cmd = [''gcloud'', ''config'', ''config-helper'', ''--format=json'']"

definition gcloud_AccessToken ::
  "'w run \<Rightarrow> (string \<Rightarrow> err + helper_config) \<Rightarrow> (string \<Rightarrow> err + int) \<Rightarrow> ('w \<Rightarrow> int) \<Rightarrow> ctx \<Rightarrow> 'w \<Rightarrow> (err + token) \<times> 'w"
where
  "gcloud_AccessToken run decode parse_time now c w =
     (case run c config_helper_cmd w of
        (a, w) \<Rightarrow>
          ((case run_err a of
              Some e \<Rightarrow> Inl e
            | None \<Rightarrow>
                (case decode (stdout_of a) of
                   Inl e \<Rightarrow> Inl e
                 | Inr config \<Rightarrow>
                     if hc_AccessToken config = [] then Inl errTokenNotFound
                     else if hc_Account config = [] then Inl errAcctNotFound
                     else (case parse_time (hc_TokenExpiry config) of
                             Inl e \<Rightarrow> Inl e
                           | Inr expiration \<Rightarrow>
                               if expiration < now w then Inl errTokenExpired
                               else Inr \<lparr>AccessToken = hc_AccessToken config, Expiry = expiration,
                                         Email = hc_Account config, Scopes = []\<rparr>))), w))"

definition project_cmd :: "string list" where
  "project_cmd = [''gcloud'', ''config'', ''list'', ''--format'', ''value(core.project)'']"

definition describe_cmd :: "string \<Rightarrow> string list" where
  "describe_cmd projectID = [''gcloud'', ''projects'', ''describe'', projectID, ''--format'', ''value(projectNumber)'']"

definition gcloud_ProjectInfo :: "'w run \<Rightarrow> ctx \<Rightarrow> 'w \<Rightarrow> (err + project_info) \<times> 'w" where
  "gcloud_ProjectInfo run c w =
     (case run c project_cmd w of
        (a, w) \<Rightarrow>
          (case run_err a of
             Some e \<Rightarrow> (Inl e, w)
           | None \<Rightarrow>
               (let projectID = trim_space (stdout_of a)
                in if projectID = [] then
                     (Inl (ErrText (''no project is set in gcloud, use '' @ [CHR 0x27] @ ''gcloud config set project my-project'' @ [CHR 0x27])), w)
                   else (case run c (describe_cmd projectID) w of
                           (a, w) \<Rightarrow>
                             ((case run_err a of
                                 Some e \<Rightarrow> Inl e
                               | None \<Rightarrow>
                                   (case ParseInt (trim_space (stdout_of a)) of
                                      Inl e \<Rightarrow> Inl e
                                    | Inr n \<Rightarrow> Inr \<lparr>ProjectID = projectID, ProjectNum = n\<rparr>)), w)))))"

section \<open>Printing and parsing numbers\<close>

lemma digit_value_char: "n < 10 \<Longrightarrow> digit_value (char_of (48 + n)) = Some n"
  by (simp add: digit_value_def Let_def)

lemma digits_value_append: "digits_value acc (s @ [c]) =
    (case digits_value acc s of None \<Rightarrow> None | Some v \<Rightarrow> map_option (\<lambda>d. 10 * v + d) (digit_value c))"
  by (induction s arbitrary: acc) (auto split: option.splits)

lemma digits_value_show_nat: "digits_value 0 (show_nat n) = Some n"
proof (induction n rule: show_nat.induct)
  case (1 n)
  show ?case
  proof (cases "n < 10")
    case True
    then show ?thesis using digit_value_char [of n] by (subst show_nat.simps) simp
  next
    case False
    have "digits_value 0 (show_nat n) = digits_value 0 (show_nat (n div 10) @ [char_of (48 + n mod 10)])"
      using False by (subst show_nat.simps) simp
    also have "\<dots> = Some (10 * (n div 10) + n mod 10)"
      using 1 [OF False] digit_value_char [of "n mod 10"] by (simp only: digits_value_append) simp
    finally show ?thesis by simp
  qed
qed

lemma show_nat_starts: "\<exists>(d :: nat) s. show_nat n = char_of (48 + d) # s \<and> d < 10"
proof (induction n rule: show_nat.induct)
  case (1 n)
  show ?case
  proof (cases "n < 10")
    case True
    then show ?thesis by (subst show_nat.simps) (intro exI [of _ n] exI [of _ "[]"], simp)
  next
    case False
    from 1 [OF False] obtain d :: nat and s where "show_nat (n div 10) = char_of (48 + d) # s" "d < 10" by blast
    then show ?thesis
      using False by (subst show_nat.simps) (intro exI [of _ d] exI [of _ "s @ [char_of (48 + n mod 10)]"], simp)
  qed
qed

lemma digit_no_sign: "d < 10 \<Longrightarrow> char_of (48 + d :: nat) \<noteq> CHR ''-'' \<and> char_of (48 + d :: nat) \<noteq> CHR ''+''"
proof -
  assume "d < 10"
  then have "digit_value (char_of (48 + d)) \<noteq> None" by (simp add: digit_value_char)
  moreover have "digit_value CHR ''-'' = None" "digit_value CHR ''+'' = None" by (simp_all add: digit_value_def)
  ultimately show ?thesis by metis
qed

lemma ParseInt_show_int:
  assumes "- (2 ^ 63) \<le> n" "n < 2 ^ 63"
  shows "ParseInt (show_int n) = Inr n"
proof (cases "n < 0")
  case True
  obtain d :: nat and s where "show_nat (nat (- n)) = char_of (48 + d) # s" using show_nat_starts by blast
  then show ?thesis
    using True assms digits_value_show_nat [of "nat (- n)"] by (simp add: ParseInt_def show_int_def Let_def)
next
  case False
  obtain d :: nat and s where d: "show_nat (nat n) = char_of (48 + d) # s" "d < 10" using show_nat_starts by blast
  then show ?thesis
    using False assms digits_value_show_nat [of "nat n"] digit_no_sign [OF d(2)]
    by (simp add: ParseInt_def show_int_def Let_def)
qed

section \<open>Properties\<close>

text \<open>
  The project number survives printing: a 64-bit number that gcloud prints in base ten,
  with white space around it, is the number that \<open>ProjectInfo\<close> returns, below the project
  name without white space.
\<close>

theorem ProjectInfo_roundtrip:
  assumes "run c project_cmd w = (a1, w1)" "run_err a1 = None" "trim_space (stdout_of a1) = p" "p \<noteq> []"
    and "run c (describe_cmd p) w1 = (a2, w2)" "run_err a2 = None" "trim_space (stdout_of a2) = show_int n"
    and "- (2 ^ 63) \<le> n" "n < 2 ^ 63"
  shows "gcloud_ProjectInfo run c w = (Inr \<lparr>ProjectID = p, ProjectNum = n\<rparr>, w2)"
  using assms ParseInt_show_int [OF assms(8,9)] by (simp add: gcloud_ProjectInfo_def Let_def)

definition gcloud_host :: "nat run" where
  "gcloud_host c args n =
     (\<lparr>writes = [(True, if args = project_cmd then ''proj'' @ [CHR 0x0A] else '' -42'' @ [CHR 0x0A])], run_err = None\<rparr>, n + 1)"

theorem ProjectInfo_roundtrip_witness:
  "gcloud_ProjectInfo gcloud_host Background 0 = (Inr \<lparr>ProjectID = ''proj'', ProjectNum = -42\<rparr>, 2)"
proof (rule ProjectInfo_roundtrip)
  let ?a1 = "\<lparr>writes = [(True, ''proj'' @ [CHR 0x0A])], run_err = None\<rparr>"
  let ?a2 = "\<lparr>writes = [(True, '' -42'' @ [CHR 0x0A])], run_err = None\<rparr>"
  show "gcloud_host Background project_cmd 0 = (?a1, 1)" by (simp add: gcloud_host_def)
  show "gcloud_host Background (describe_cmd ''proj'') 1 = (?a2, 2)"
    by (simp add: gcloud_host_def describe_cmd_def project_cmd_def)
  show "trim_space (stdout_of ?a1) = ''proj''" by code_simp
  show "trim_space (stdout_of ?a2) = show_int (-42)" by code_simp
qed simp_all

text \<open>
  A token that \<open>AccessToken\<close> returns is usable: it is not empty, it belongs to an
  account, and it has not expired when it is returned.
\<close>

theorem AccessToken_usable:
  assumes "gcloud_AccessToken run decode parse_time now c w = (Inr tok, w')"
  shows "AccessToken tok \<noteq> [] \<and> Email tok \<noteq> [] \<and> now w' \<le> Expiry tok"
  using assms by (auto simp: gcloud_AccessToken_def split: prod.splits option.splits sum.splits if_splits)

theorem AccessToken_usable_witness:
  "\<exists>tok. gcloud_AccessToken gcloud_host (\<lambda>_. Inr \<lparr>hc_AccessToken = ''t'', hc_TokenExpiry = ''5'', hc_Account = ''a''\<rparr>)
      ParseInt (\<lambda>_. 3) Background 0 = (Inr tok, 1) \<and> 3 \<le> Expiry tok"
proof -
  have run: "gcloud_AccessToken gcloud_host (\<lambda>_. Inr \<lparr>hc_AccessToken = ''t'', hc_TokenExpiry = ''5'', hc_Account = ''a''\<rparr>)
      ParseInt (\<lambda>_. 3) Background 0 = (Inr \<lparr>AccessToken = ''t'', Expiry = 5, Email = ''a'', Scopes = []\<rparr>, 1)"
    by code_simp
  from AccessToken_usable [OF run] run show ?thesis by blast
qed

end
