(* ===== verification/Float64.thy ===== *)
theory Float64
  imports Complex_Main "HOL-Library.Log_Nat"
begin

text \<open>
  Go's \<open>float64\<close>, as far as the program computes with it: a value is a rational number, and
  an operation is the exact result rounded to 53 binary digits, to the nearest value and to
  the even one of two that are equally near. The exponent is not bounded: the values are
  durations in nanoseconds and products of them with numbers between zero and two, far from
  the smallest and the greatest exponent.
\<close>

section \<open>Rounding\<close>

text \<open>The exponent of the leading binary digit of a positive number.\<close>

definition exponent :: "rat \<Rightarrow> int" where
  "exponent x =
     (case quotient_of x of
        (p, q) \<Rightarrow>
          (let e = bitlen p - bitlen q
           in if 2 powi e \<le> x then e else e - 1))"

definition round_even :: "rat \<Rightarrow> int" where
  "round_even r =
     (let n = \<lfloor>r\<rfloor>; d = r - of_int n
      in if d < 1 / 2 \<or> d = 1 / 2 \<and> even n then n else n + 1)"

definition float_of :: "rat \<Rightarrow> rat" where
  "float_of x =
     (if x = 0 then 0
      else let u = 2 powi (exponent \<bar>x\<bar> - 52)
           in sgn x * of_int (round_even (\<bar>x\<bar> / u)) * u)"

text \<open>The conversion of a number that is not negative to an integer drops the fraction.\<close>

definition int_of_float :: "rat \<Rightarrow> int" where
  "int_of_float x = (if x < 0 then - \<lfloor>- x\<rfloor> else \<lfloor>x\<rfloor>)"

definition is_float :: "rat \<Rightarrow> bool" where
  "is_float x \<longleftrightarrow> float_of x = x"

section \<open>The exponent\<close>

lemma exponent_bounds:
  assumes "0 < x"
  shows "2 powi exponent x \<le> x" "x < 2 powi (exponent x + 1)"
proof -
  obtain p q where pq: "quotient_of x = (p, q)" by fastforce
  have q: "0 < q" using quotient_of_denom_pos [OF pq] .
  have x: "x = of_int p / of_int q" using quotient_of_div [OF pq] .
  then have p: "0 < p" using assms q by (simp add: zero_less_divide_iff)
  define a where "a = int (floorlog 2 (nat p))"
  define b where "b = int (floorlog 2 (nat q))"
  have pow: "(2 :: rat) powi int k = 2 ^ k" for k by (simp add: power_int_def)
  have dig: "(2 :: rat) powi (int (floorlog 2 (nat n)) - 1) \<le> of_int n \<and> (of_int n :: rat) < 2 powi int (floorlog 2 (nat n))"
    if "0 < n" for n :: int
  proof -
    have n: "0 < nat n" using that by simp
    have fl: "2 ^ (floorlog 2 (nat n) - 1) \<le> nat n" "nat n < 2 ^ floorlog 2 (nat n)"
      using floorlog_bounds [OF n, of 2] by simp_all
    have 1: "(2 :: int) ^ (floorlog 2 (nat n) - 1) \<le> n" using fl(1) that by (simp add: le_nat_iff)
    have 2: "n < (2 :: int) ^ floorlog 2 (nat n)" using fl(2) that by (simp add: nat_less_iff)
    have pos: "0 < floorlog 2 (nat n)"
    proof (rule ccontr)
      assume "\<not> ?thesis"
      then show False using 2 that by simp
    qed
    have "of_int (2 ^ (floorlog 2 (nat n) - 1)) \<le> (of_int n :: rat)" using 1 by (simp only: of_int_le_iff)
    moreover have "(2 :: rat) powi (int (floorlog 2 (nat n)) - 1) = 2 ^ (floorlog 2 (nat n) - 1)"
      using pos by (simp add: power_int_def nat_diff_distrib)
    moreover have "(of_int n :: rat) < of_int (2 ^ floorlog 2 (nat n))" using 2 by (simp only: of_int_less_iff)
    ultimately show ?thesis by (simp add: pow)
  qed
  have dp: "(2 :: rat) powi (a - 1) \<le> of_int p" "(of_int p :: rat) < 2 powi a" using dig [OF p] by (simp_all add: a_def)
  have dq: "(2 :: rat) powi (b - 1) \<le> of_int q" "(of_int q :: rat) < 2 powi b" using dig [OF q] by (simp_all add: b_def)
  have rq: "(0 :: rat) < of_int q" using q by simp
  have low: "2 powi (a - b - 1) \<le> x"
  proof -
    have "2 powi (a - b - 1) * of_int q \<le> 2 powi (a - b - 1) * (2 powi b :: rat)"
      using dq(2) by (intro mult_left_mono) auto
    also have "\<dots> = 2 powi (a - 1)" by (simp flip: power_int_add)
    finally show ?thesis using dp(1) rq by (simp add: x pos_le_divide_eq)
  qed
  have high: "x < 2 powi (a - b + 1)"
  proof -
    have "(2 :: rat) powi a = 2 powi (a - b + 1) * 2 powi (b - 1)" by (simp flip: power_int_add)
    also have "\<dots> \<le> 2 powi (a - b + 1) * of_int q" using dq(1) by (intro mult_left_mono) auto
    finally show ?thesis using dp(2) rq by (simp add: x pos_divide_less_eq)
  qed
  have e: "exponent x = (if 2 powi (a - b) \<le> x then a - b else a - b - 1)"
    by (simp add: exponent_def pq a_def b_def Let_def bitlen_def)
  show "2 powi exponent x \<le> x" "x < 2 powi (exponent x + 1)"
    using low high e by (auto split: if_splits)
qed

lemma powi_mono: "m \<le> n \<Longrightarrow> (2 :: rat) powi m \<le> 2 powi n"
  by (simp add: power_int_increasing)

lemma exponent_less:
  assumes "0 < x" "x < 2 powi n"
  shows "exponent x < n"
proof (rule ccontr)
  assume "\<not> ?thesis"
  then have "(2 :: rat) powi n \<le> 2 powi exponent x" by (intro powi_mono) simp
  then show False using exponent_bounds(1) [OF assms(1)] assms(2) by simp
qed

lemma exponent_mono: "0 < x \<Longrightarrow> x \<le> y \<Longrightarrow> exponent x \<le> exponent y"
  using exponent_less [of x "exponent y + 1"] exponent_bounds(2) [of y] by force

section \<open>Rounding to an integer\<close>

lemma round_even_int [simp]: "round_even (of_int n) = n"
  by (simp add: round_even_def)

lemma round_even_numeral [simp]: "round_even (numeral k) = numeral k"
  using round_even_int [of "numeral k"] by simp

lemma round_even_between: "\<lfloor>r\<rfloor> \<le> round_even r" "round_even r \<le> \<lfloor>r\<rfloor> + 1"
  by (simp_all add: round_even_def Let_def)

lemma round_even_mono:
  assumes "r \<le> s"
  shows "round_even r \<le> round_even s"
proof (cases "\<lfloor>r\<rfloor> = \<lfloor>s\<rfloor>")
  case True
  then show ?thesis using assms by (auto simp: round_even_def Let_def)
next
  case False
  then have "\<lfloor>r\<rfloor> + 1 \<le> \<lfloor>s\<rfloor>" using floor_mono [OF assms] by simp
  then show ?thesis using round_even_between [of r] round_even_between [of s] by linarith
qed

lemma round_even_nonneg: "0 \<le> r \<Longrightarrow> 0 \<le> round_even r"
  using round_even_mono [of 0 r] round_even_int [of 0] by simp

section \<open>Rounding to a float\<close>

lemma float_of_pos: "0 < x \<Longrightarrow> float_of x = of_int (round_even (x / 2 powi (exponent x - 52))) * 2 powi (exponent x - 52)"
  by (simp add: float_of_def Let_def)

lemma float_of_nonneg: "0 \<le> x \<Longrightarrow> 0 \<le> float_of x"
  by (cases "x = 0") (simp_all add: float_of_def Let_def round_even_nonneg)

lemma float_of_zero [simp]: "float_of 0 = 0"
  by (simp add: float_of_def)

text \<open>A power of two of the binade is a bound for what is rounded.\<close>

lemma float_of_binade:
  assumes "0 < x"
  shows "2 powi exponent x \<le> float_of x" "float_of x \<le> 2 powi (exponent x + 1)"
proof -
  let ?u = "(2 :: rat) powi (exponent x - 52)"
  have u: "0 < ?u" by simp
  have lo: "of_int (2 ^ 52) \<le> x / ?u"
  proof -
    have "2 ^ 52 * ?u = 2 powi exponent x"
      by (simp add: power_int_diff)
    then show ?thesis using exponent_bounds(1) [OF assms] u by (simp add: pos_le_divide_eq)
  qed
  have hi: "x / ?u \<le> of_int (2 ^ 53)"
  proof -
    have "2 ^ 53 * ?u = 2 powi (exponent x + 1)"
      by (simp add: power_int_diff power_int_add)
    then show ?thesis using exponent_bounds(2) [OF assms] u by (simp add: pos_divide_le_eq)
  qed
  have "2 ^ 52 \<le> round_even (x / ?u)" "round_even (x / ?u) \<le> 2 ^ 53"
    using round_even_mono [OF lo] round_even_mono [OF hi] by (simp_all only: round_even_int)
  then have "of_int (2 ^ 52) * ?u \<le> of_int (round_even (x / ?u)) * ?u"
      "of_int (round_even (x / ?u)) * ?u \<le> of_int (2 ^ 53) * ?u"
    using u by (intro mult_right_mono; simp only: of_int_le_iff less_imp_le)+
  then show "2 powi exponent x \<le> float_of x" "float_of x \<le> 2 powi (exponent x + 1)"
    by (simp_all add: float_of_pos assms power_int_diff power_int_add)
qed

lemma float_of_mono_pos:
  assumes "0 < x" "x \<le> y"
  shows "float_of x \<le> float_of y"
proof (cases "exponent x = exponent y")
  case True
  let ?u = "(2 :: rat) powi (exponent y - 52)"
  have "round_even (x / ?u) \<le> round_even (y / ?u)"
    using assms(2) by (intro round_even_mono divide_right_mono) simp_all
  then have "of_int (round_even (x / ?u)) * ?u \<le> of_int (round_even (y / ?u)) * ?u"
    by (intro mult_right_mono) simp_all
  then show ?thesis using assms True by (simp add: float_of_pos)
next
  case False
  then have "exponent x + 1 \<le> exponent y" using exponent_mono [OF assms] by simp
  then have "(2 :: rat) powi (exponent x + 1) \<le> 2 powi exponent y" by (rule powi_mono)
  then show ?thesis
    using float_of_binade(2) [OF assms(1)] float_of_binade(1) [of y] assms by linarith
qed

lemma float_of_mono: "0 \<le> x \<Longrightarrow> x \<le> y \<Longrightarrow> float_of x \<le> float_of y"
  using float_of_mono_pos [of x y] float_of_nonneg [of y] by (cases "x = 0") simp_all

text \<open>Powers of two and integers up to \<open>2 ^ 53\<close> are floats.\<close>

lemma exponent_unique:
  assumes "2 powi e \<le> x" "x < 2 powi (e + 1)"
  shows "exponent x = e"
proof (rule antisym)
  have x: "0 < x" using assms(1) less_le_trans [of 0 "2 powi e" x] by simp
  then show "exponent x \<le> e" using exponent_less assms(2) by fastforce
  show "e \<le> exponent x"
  proof (rule ccontr)
    assume "\<not> ?thesis"
    then have "(2 :: rat) powi (exponent x + 1) \<le> 2 powi e" by (intro powi_mono) simp
    then show False using exponent_bounds(2) [OF x] assms(1) by simp
  qed
qed

lemma exponent_power: "exponent (2 powi k) = k"
  by (rule exponent_unique) (simp_all add: power_int_add)

lemma exponent_half: "0 < x \<Longrightarrow> exponent (x / 2) = exponent x - 1"
  using exponent_bounds [of x] by (intro exponent_unique) (simp_all add: power_int_diff power_int_add)

lemma float_of_half: "0 < x \<Longrightarrow> float_of (x / 2) = float_of x / 2"
  by (simp add: float_of_pos exponent_half power_int_diff mult.commute)

lemma is_float_power: "is_float (2 powi k)"
proof -
  have "(2 :: rat) powi k / 2 powi (k - 52) = of_int (2 ^ 52)" by (simp add: power_int_diff)
  then show ?thesis
    by (simp add: is_float_def float_of_pos exponent_power del: of_int_power) (simp add: power_int_diff)
qed

lemma is_float_int:
  assumes "0 \<le> n" "n \<le> 2 ^ 53"
  shows "is_float (of_int n)"
proof (cases "n = 0 \<or> n = 2 ^ 53")
  case True
  then show ?thesis using is_float_power [of 53] by (auto simp: is_float_def)
next
  case False
  let ?e = "exponent (of_int n)"
  have n: "0 < n" "n < 2 ^ 53" using assms False by auto
  have "(of_int n :: rat) < of_int (2 ^ 53)" using n(2) by (simp only: of_int_less_iff)
  then have "(of_int n :: rat) < 2 powi 53" by simp
  then have e: "?e \<le> 52" using exponent_less [of "of_int n" 53] n by simp
  define k where "k = nat (52 - ?e)"
  have "?e - 52 = - int k" using e by (simp add: k_def)
  then have u: "(2 :: rat) powi (?e - 52) = 1 / 2 ^ k" by (simp only: power_int_minus power_int_of_nat inverse_eq_divide)
  have "(of_int n :: rat) / (1 / 2 ^ k) = of_int (n * 2 ^ k)" by simp
  then have "round_even ((of_int n :: rat) / (1 / 2 ^ k)) = n * 2 ^ k" by (simp only: round_even_int)
  then show ?thesis using n by (simp add: is_float_def float_of_pos u)
qed

lemma is_float_of: "is_float x \<Longrightarrow> float_of x = x"
  by (simp add: is_float_def)

lemma is_float_half: "0 < x \<Longrightarrow> is_float x \<Longrightarrow> is_float (x / 2)"
  by (simp add: is_float_def float_of_half)

text \<open>What has been rounded is a float.\<close>

lemma float_of_idem:
  assumes "0 \<le> x"
  shows "is_float (float_of x)"
proof (cases "x = 0")
  case False
  then have x: "0 < x" using assms by simp
  let ?u = "(2 :: rat) powi (exponent x - 52)"
  let ?k = "round_even (x / ?u)"
  have y: "float_of x = of_int ?k * ?u" by (rule float_of_pos [OF x])
  show ?thesis
  proof (cases "float_of x = 2 powi (exponent x + 1)")
    case True
    then show ?thesis using is_float_power by simp
  next
    case False
    then have e: "exponent (float_of x) = exponent x"
      using float_of_binade [OF x] by (intro exponent_unique) simp_all
    have pos: "0 < float_of x" using float_of_binade(1) [OF x] less_le_trans [of 0 "2 powi exponent x" "float_of x"] by simp
    have "float_of x / ?u = of_int ?k" using y by simp
    then have "round_even (float_of x / ?u) = ?k" by (simp only: round_even_int)
    then show ?thesis using float_of_pos [OF pos] e y by (simp add: is_float_def)
  qed
qed (simp add: is_float_def)

text \<open>Bounds that are floats survive rounding.\<close>

lemma float_of_le: "0 \<le> x \<Longrightarrow> x \<le> y \<Longrightarrow> is_float y \<Longrightarrow> float_of x \<le> y"
  using float_of_mono [of x y] by (simp add: is_float_def)

lemma float_of_ge: "0 \<le> x \<Longrightarrow> x \<le> y \<Longrightarrow> is_float x \<Longrightarrow> x \<le> float_of y"
  using float_of_mono [of x y] by (simp add: is_float_def)

text \<open>Rounding up adds at most one unit in the last place.\<close>

lemma float_of_upper:
  assumes "0 < x"
  shows "float_of x \<le> x * (1 + 1 / 2 ^ 52)"
proof -
  let ?u = "(2 :: rat) powi (exponent x - 52)"
  have "of_int (round_even (x / ?u)) \<le> x / ?u + 1"
    using round_even_between(2) [of "x / ?u"] by linarith
  then have "of_int (round_even (x / ?u)) * ?u \<le> (x / ?u + 1) * ?u" by (intro mult_right_mono) simp_all
  also have "\<dots> = x + 2 powi exponent x / 2 ^ 52" by (simp add: algebra_simps power_int_diff)
  also have "\<dots> \<le> x + x / 2 ^ 52" using exponent_bounds(1) [OF assms] by (simp add: divide_right_mono)
  finally show ?thesis using float_of_pos [OF assms] by (simp add: algebra_simps)
qed

end
