(* ===== verification/Common_Tools.thy ===== *)
theory Common_Tools
  imports Runner Trim Float64
begin

text \<open>
  The rest of package \<open>common\<close> (\<open>common/common.go\<close>): \<open>Clean\<close>, which removes what an earlier
  build has left behind, and \<open>RefreshDuration\<close>, which decides when to fetch the next access
  token. Times and durations are integers in nanoseconds; the product with a constant is a
  \<open>float64\<close>.
\<close>

section \<open>Cleaning\<close>

record clean_item =
  getCmd :: "string list"
  deleteCmd :: "string list"

definition clean_items :: "clean_item list" where
  "clean_items =
     [\<lparr>getCmd = [''docker'', ''ps'', ''-a'', ''-q'', ''--filter'', ''name=step_[0-9]+|cloudbuild_|metadata''],
        deleteCmd = [''docker'', ''rm'', ''-f'']\<rparr>,
      \<lparr>getCmd = [''docker'', ''network'', ''ls'', ''-q'', ''--filter'', ''name=cloudbuild''],
        deleteCmd = [''docker'', ''network'', ''rm'']\<rparr>,
      \<lparr>getCmd = [''docker'', ''volume'', ''ls'', ''-q'', ''--filter'', ''name=homevol|cloudbuild_''],
        deleteCmd = [''docker'', ''volume'', ''rm'']\<rparr>]"

fun clean_loop :: "'w run \<Rightarrow> ctx \<Rightarrow> clean_item list \<Rightarrow> 'w \<Rightarrow> err option \<times> 'w" where
  "clean_loop run c [] w = (None, w)"
| "clean_loop run c (item # items) w =
     (case run c (getCmd item) w of
        (a, w) \<Rightarrow>
          (case run_err a of
             Some e \<Rightarrow> (Some e, w)
           | None \<Rightarrow>
               (let str = trim_space (stdout_of a)
                in if str = [] then clean_loop run c items w
                   else (case run c (deleteCmd item @ split_on CHR 0x0A str) w of
                           (a, w) \<Rightarrow>
                             (case run_err a of
                                Some e \<Rightarrow> (Some e, w)
                              | None \<Rightarrow> clean_loop run c items w)))))"

definition Clean :: "'w run \<Rightarrow> ctx \<Rightarrow> 'w \<Rightarrow> err option \<times> 'w" where
  "Clean run c w = clean_loop run c clean_items w"

section \<open>The next access token\<close>

text \<open>\<open>time.Duration(float64(d) * .75)\<close>.\<close>

definition three_quarters :: "int \<Rightarrow> int" where
  "three_quarters d = int_of_float (float_of (float_of (of_int d) * (3 / 4)))"

definition second :: int where "second = 10 ^ 9"

definition max_duration :: int where "max_duration = 2 ^ 63 - 1"

text \<open>The difference of two times saturates.\<close>

definition RefreshDuration :: "int \<Rightarrow> int \<Rightarrow> int" where
  "RefreshDuration now expiration =
     (if expiration < now then 0
      else let d = min (expiration - now) max_duration
           in if d > 4 * second then three_quarters d
              else if d - second < 0 then 0 else d - second)"

section \<open>Rounding\<close>

lemma three_quarters_exact:
  assumes "0 \<le> d" "d < 2 ^ 51"
  shows "three_quarters d = 3 * d div 4"
proof -
  have f: "is_float (of_int d)" "is_float (of_int (3 * d))" using assms by (intro is_float_int; simp)+
  have "is_float (of_int d * (3 / 4))"
  proof (cases "d = 0")
    case False
    then have "is_float (of_int (3 * d) / 2 / 2)" using f(2) assms(1) by (intro is_float_half) simp_all
    then show ?thesis by (simp add: mult.commute)
  qed (simp add: is_float_def)
  then have "three_quarters d = \<lfloor>(of_int (3 * d) :: rat) / of_int 4\<rfloor>"
    using f(1) assms(1) by (simp add: three_quarters_def is_float_of int_of_float_def mult.commute)
  then show ?thesis by (simp only: floor_divide_of_int_eq)
qed

lemma three_quarters_less:
  assumes "0 < d"
  shows "three_quarters d < d" "0 \<le> three_quarters d"
proof -
  let ?x = "float_of (of_int d) :: rat"
  have d: "(0 :: rat) < of_int d" using assms by simp
  have x: "0 < ?x" using float_of_binade(1) [OF d] less_le_trans [of 0 "2 powi exponent (of_int d)" ?x] by simp
  have y: "0 \<le> float_of (?x * (3 / 4))" using x by (intro float_of_nonneg) simp
  have "?x \<le> of_int d * (1 + 1 / 2 ^ 52)" by (rule float_of_upper [OF d])
  moreover have "float_of (?x * (3 / 4)) \<le> ?x * (3 / 4) * (1 + 1 / 2 ^ 52)" using x by (intro float_of_upper) simp
  ultimately have "float_of (?x * (3 / 4)) < of_int d" using d by (simp add: field_simps)
  then have "\<lfloor>float_of (?x * (3 / 4))\<rfloor> < d" by (simp add: floor_less_iff)
  then show "three_quarters d < d" "0 \<le> three_quarters d" using y by (simp_all add: three_quarters_def int_of_float_def)
qed

section \<open>Facts about cleaning\<close>

context command_runner
begin

text \<open>
  Every item is listed, in order; what a listing shows is deleted before the next one; the
  first error ends the loop.
\<close>

lemma clean_loop_issued:
  "clean_loop run c items w = (r, w') \<Longrightarrow>
     \<exists>k\<le>length items. \<exists>dels. length dels = k \<and> (r = None \<longrightarrow> k = length items) \<and>
       issued w' = issued w @ concat (map2 (\<lambda>item d. getCmd item # (case d of None \<Rightarrow> [] | Some ids \<Rightarrow> [deleteCmd item @ ids])) items dels) \<and>
       (\<forall>d\<in>set dels. \<forall>ids. d = Some ids \<longrightarrow> ids \<noteq> [])"
proof (induction items arbitrary: w)
  case (Cons item items)
  obtain a w1 where a: "run c (getCmd item) w = (a, w1)" by fastforce
  note i = run_issuedD [OF a]
  show ?case
  proof (cases "run_err a")
    case (Some e)
    then have "w' = w1" "r = Some e" using Cons.prems a by simp_all
    then show ?thesis using i by (intro exI [of _ "1 :: nat"] conjI exI [of _ "[None]"]) simp_all
  next
    case None
    let ?str = "trim_space (stdout_of a)"
    show ?thesis
    proof (cases "?str = []")
      case True
      then have "clean_loop run c items w1 = (r, w')" using Cons.prems a None by (simp add: Let_def)
      from Cons.IH [OF this] obtain dels where "length dels \<le> length items" "r = None \<longrightarrow> length dels = length items"
          "issued w' = issued w1 @ concat (map2 (\<lambda>item d. getCmd item # (case d of None \<Rightarrow> [] | Some ids \<Rightarrow> [deleteCmd item @ ids])) items dels)"
          "\<forall>d\<in>set dels. \<forall>ids. d = Some ids \<longrightarrow> ids \<noteq> []" by blast
      then show ?thesis using i by (intro exI [of _ "Suc (length dels)"] conjI exI [of _ "None # dels"]) simp_all
    next
      case False
      let ?ids = "split_on CHR 0x0A ?str"
      obtain b w2 where b: "run c (deleteCmd item @ ?ids) w1 = (b, w2)" by fastforce
      note j = run_issuedD [OF b]
      show ?thesis
      proof (cases "run_err b")
        case (Some e)
        then have "w' = w2" "r = Some e" using Cons.prems a None b False by (simp_all add: Let_def)
        then show ?thesis using i j by (intro exI [of _ "1 :: nat"] conjI exI [of _ "[Some ?ids]"]) simp_all
      next
        case None2: None
        then have "clean_loop run c items w2 = (r, w')" using Cons.prems a None b False by (simp add: Let_def)
        from Cons.IH [OF this] obtain dels where "length dels \<le> length items" "r = None \<longrightarrow> length dels = length items"
            "issued w' = issued w2 @ concat (map2 (\<lambda>item d. getCmd item # (case d of None \<Rightarrow> [] | Some ids \<Rightarrow> [deleteCmd item @ ids])) items dels)"
            "\<forall>d\<in>set dels. \<forall>ids. d = Some ids \<longrightarrow> ids \<noteq> []" by blast
        then show ?thesis using i j by (intro exI [of _ "Suc (length dels)"] conjI exI [of _ "Some ?ids # dels"]) simp_all
      qed
    qed
  qed
qed simp

end

section \<open>Properties\<close>

text \<open>
  The next access token is fetched in time: the delay is never negative, never longer
  than the life that the token has left, and shorter when there is any left, for every pair
  of times, although the product is rounded; it is three quarters of the rest, rounded
  down, where this fits the precision of a \<open>float64\<close>, and one second less than the rest
  when this is four seconds or less.
\<close>

theorem RefreshDuration_bounds:
  "0 \<le> RefreshDuration now expiration \<and>
   (now \<le> expiration \<longrightarrow> RefreshDuration now expiration \<le> expiration - now) \<and>
   (now < expiration \<longrightarrow> RefreshDuration now expiration < expiration - now) \<and>
   (4 * second < expiration - now \<and> expiration - now < 2 ^ 51 \<longrightarrow>
      RefreshDuration now expiration = 3 * (expiration - now) div 4) \<and>
   (now \<le> expiration \<and> expiration - now \<le> 4 * second \<longrightarrow>
      RefreshDuration now expiration = max 0 (expiration - now - second))"
proof -
  let ?d = "min (expiration - now) max_duration"
  have less: "three_quarters ?d < ?d" "0 \<le> three_quarters ?d" if "?d > 4 * second"
    using three_quarters_less [of ?d] that by (simp_all add: second_def)
  have pos: "?d > 0 \<longleftrightarrow> now < expiration" by (auto simp: max_duration_def)
  have a: "0 \<le> RefreshDuration now expiration"
    using less(2) by (auto simp: RefreshDuration_def Let_def)
  have b: "now < expiration \<longrightarrow> RefreshDuration now expiration < expiration - now"
    using less(1) pos by (auto simp: RefreshDuration_def Let_def second_def max_duration_def min_def)
  have c: "now \<le> expiration \<longrightarrow> RefreshDuration now expiration \<le> expiration - now"
    using b by (cases "now = expiration") (auto simp: RefreshDuration_def Let_def second_def max_duration_def)
  have d: "4 * second < expiration - now \<and> expiration - now < 2 ^ 51 \<longrightarrow>
      RefreshDuration now expiration = 3 * (expiration - now) div 4"
  proof
    assume r: "4 * second < expiration - now \<and> expiration - now < 2 ^ 51"
    then have m: "?d = expiration - now" "\<not> expiration < now" by (simp_all add: max_duration_def second_def)
    have "three_quarters (expiration - now) = 3 * (expiration - now) div 4"
      using r by (intro three_quarters_exact) (simp_all add: second_def)
    then show "RefreshDuration now expiration = 3 * (expiration - now) div 4"
      using r m by (simp add: RefreshDuration_def Let_def second_def)
  qed
  have e: "now \<le> expiration \<and> expiration - now \<le> 4 * second \<longrightarrow>
      RefreshDuration now expiration = max 0 (expiration - now - second)"
    by (auto simp: RefreshDuration_def Let_def second_def max_duration_def)
  show ?thesis using a b c d e by blast
qed

theorem RefreshDuration_bounds_witness:
  "RefreshDuration 0 (3600 * second) = 2700 * second \<and> RefreshDuration 0 (3 * second) = 2 * second \<and>
   RefreshDuration (9 * second) second = 0"
proof -
  have "4 * second < 3600 * second - 0 \<and> 3600 * second - 0 < 2 ^ 51" by (simp add: second_def)
  with RefreshDuration_bounds [of 0 "3600 * second"]
  have "RefreshDuration 0 (3600 * second) = 3 * (3600 * second - 0) div 4" by blast
  then have a: "RefreshDuration 0 (3600 * second) = 2700 * second" by (simp add: second_def)
  have "0 \<le> 3 * second \<and> 3 * second - 0 \<le> 4 * second" by (simp add: second_def)
  with RefreshDuration_bounds [of 0 "3 * second"]
  have "RefreshDuration 0 (3 * second) = max 0 (3 * second - 0 - second)" by blast
  then have b: "RefreshDuration 0 (3 * second) = 2 * second" by (simp add: second_def)
  have "RefreshDuration (9 * second) second = 0" by (simp add: RefreshDuration_def second_def)
  with a b show ?thesis by blast
qed

text \<open>
  \<open>Clean\<close> lists containers, then networks, then volumes, deletes what a listing shows
  before it goes on, and issues a delete command only with something to delete; it returns
  no error only after all three kinds were listed.
\<close>

theorem Clean_commands:
  assumes "Clean (RealRunner_Run host) c m = (r, m')"
  shows "\<exists>dels. length dels \<le> 3 \<and> (r = None \<longrightarrow> length dels = 3) \<and>
     logged m' = logged m @ concat (map2 (\<lambda>item d. getCmd item #
       (case d of None \<Rightarrow> [] | Some ids \<Rightarrow> [deleteCmd item @ ids])) clean_items dels) \<and>
     (\<forall>d\<in>set dels. \<forall>ids. d = Some ids \<longrightarrow> ids \<noteq> [])"
proof -
  have "length clean_items = 3" by (simp add: clean_items_def)
  obtain k and dels where "k \<le> length clean_items" "length dels = k" "r = None \<longrightarrow> k = length clean_items"
      "logged m' = logged m @ concat (map2 (\<lambda>item d. getCmd item #
         (case d of None \<Rightarrow> [] | Some ids \<Rightarrow> [deleteCmd item @ ids])) clean_items dels)"
      "\<forall>d\<in>set dels. \<forall>ids. d = Some ids \<longrightarrow> ids \<noteq> []"
    using real.clean_loop_issued [OF assms [unfolded Clean_def]] by blast
  with \<open>length clean_items = 3\<close> show ?thesis by (intro exI [of _ dels] conjI) simp_all
qed

definition dirty_host :: host where
  "dirty_host h c args = Exits (if args = getCmd (clean_items ! 1) then [(True, ''n1'' @ [CHR 0x0A])] else []) None"

theorem Clean_commands_witness:
  "\<exists>m'. Clean (RealRunner_Run dirty_host) Background \<lparr>DryRun = False, logged = [], started = [], ctx_err = None, slept = [], printed = []\<rparr> = (None, m') \<and>
     length (logged m') = 4 \<and> (\<exists>dels :: string list option list. length dels = 3)"
proof -
  let ?r = "Clean (RealRunner_Run dirty_host) Background \<lparr>DryRun = False, logged = [], started = [], ctx_err = None, slept = [], printed = []\<rparr>"
  have ok: "fst ?r = None \<and> length (logged (snd ?r)) = 4" by code_simp
  then have run: "?r = (None, snd ?r)" by (metis prod.collapse)
  from Clean_commands [OF run] have "\<exists>dels :: string list option list. length dels = 3" by blast
  with run ok show ?thesis by blast
qed

end
