(* ===== verification/Docker_Output.thy ===== *)
theory Docker_Output
  imports Runner GoRegexp "HOL-Library.AList"
begin

text \<open>
  The functions of \<open>build/build.go\<close> that read and write image names and the output of docker:
  stripping a tag or a digest, finding the digest of a local image, scraping the digests
  from the output of \<open>docker push\<close> and \<open>docker pull\<close>, and classifying push failures. The
  JSON that \<open>docker inspect\<close> prints is decoded by \<open>encoding/json\<close>; its result, the list of
  the \<open>RepoDigests\<close> of the images, is an argument here (\<open>None\<close> where decoding fails).
\<close>

record image_digest =
  tag :: string
  digest :: string

definition containerWorkspaceDir :: string where "containerWorkspaceDir = ''/workspace''"
definition homeVolume :: string where "homeVolume = ''homevol''"
definition homeDir :: string where "homeDir = ''/builder/home''"

section \<open>Patterns\<close>

definition space_class :: ranges where
  "space_class = [(CHR 0x09, CHR 0x0A), (CHR 0x0C, CHR 0x0D), (CHR '' '', CHR '' '')]"

definition space_re :: re where "space_re = Star (Cls False space_class)"

definition any_re :: re where "any_re = plus1 (Cls True [(CHR 0x0A, CHR 0x0A)])"

definition digit_re :: re where "digit_re = Cls False [(CHR ''0'', CHR ''9'')]"

definition sha_re :: re where "sha_re = Cat (lit ''sha256:'') (plus1 (Cls True space_class))"

text \<open>\<^verbatim>\<open>^(.+):\s*digest:\s*(sha256:[^\s]+)\s*size:\s*\d+$\<close>\<close>

definition digestPushRE :: re where
  "digestPushRE =
     Cat Bol (Cat (Cap 1 any_re) (Cat (chr CHR '':'') (Cat space_re (Cat (lit ''digest:'') (Cat space_re
       (Cat (Cap 2 sha_re) (Cat space_re (Cat (lit ''size:'') (Cat space_re (Cat (plus1 digit_re) Eol))))))))))"

text \<open>\<^verbatim>\<open>^Digest:\s*(sha256:[^\s]+)$\<close>\<close>

definition digestPullRE :: re where
  "digestPullRE = Cat Bol (Cat (lit ''Digest:'') (Cat space_re (Cat (Cap 1 sha_re) Eol)))"

text \<open>\<^verbatim>\<open>status: (\d\d\d)\<close>\<close>

definition statusRE :: re where
  "statusRE = Cat (lit ''status: '') (Cap 1 (Cat digit_re (Cat digit_re digit_re)))"

text \<open>Group \<open>k\<close> of a match; every group of these patterns takes part in a match.\<close>

definition group_str :: "string \<Rightarrow> caps \<Rightarrow> nat \<Rightarrow> string" where
  "group_str s caps k = (case map_of caps k of Some (i, j) \<Rightarrow> slice s i j | None \<Rightarrow> [])"

section \<open>Image names\<close>

definition stripTagDigest :: "string \<Rightarrow> string" where
  "stripTagDigest nameWithTagDigest =
     (case str_index nameWithTagDigest ''@'' of
        Some index \<Rightarrow> take index nameWithTagDigest
      | None \<Rightarrow>
          (case str_index nameWithTagDigest '':'' of
             Some index \<Rightarrow> take index nameWithTagDigest
           | None \<Rightarrow> nameWithTagDigest))"

fun find_digest :: "string \<Rightarrow> string list \<Rightarrow> err + string" where
  "find_digest name [] = Inl ErrorScrapingDigest"
| "find_digest name (d # ds) =
     (if has_prefix d name then
        (case split_on CHR ''@'' d of
           [_, dg] \<Rightarrow> Inr dg
         | _ \<Rightarrow> Inl ErrorScrapingDigest)
      else find_digest name ds)"

definition digestForStepImage :: "string \<Rightarrow> string list list option \<Rightarrow> err + string" where
  "digestForStepImage nameWithTagDigest repo =
     (case repo of
        Some (digests # _) \<Rightarrow>
          if length digests < 1 then Inl ErrorScrapingDigest
          else find_digest (stripTagDigest nameWithTagDigest) digests
      | _ \<Rightarrow> Inl ErrorScrapingDigest)"

definition resolveDigestsForImage :: "string \<Rightarrow> image_digest list \<Rightarrow> image_digest list" where
  "resolveDigestsForImage img digests =
     (let untaggedImage = hd (split_on CHR '':'' img)
      in concat (map (\<lambda>d.
           (if tag d = ''latest'' then [\<lparr>tag = untaggedImage, digest = digest d\<rparr>] else []) @
           [\<lparr>tag = untaggedImage @ '':'' @ tag d, digest = digest d\<rparr>]) digests))"

definition extractGCSBucket :: "string \<Rightarrow> string" where
  "extractGCSBucket url = ''gs://'' @ hd (split2 CHR ''/'' (trim_prefix url ''gs://''))"

section \<open>Scraping\<close>

fun scrape_push_lines :: "string list \<Rightarrow> image_digest list" where
  "scrape_push_lines [] = []"
| "scrape_push_lines (line # lines) =
     (case find_submatch digestPushRE line of
        None \<Rightarrow> scrape_push_lines lines
      | Some (_, _, caps) \<Rightarrow>
          \<lparr>tag = group_str line caps 1, digest = group_str line caps 2\<rparr> # scrape_push_lines lines)"

definition scrapePushDigests :: "string \<Rightarrow> err + image_digest list" where
  "scrapePushDigests output =
     (let digests = scrape_push_lines (split_on CHR 0x0A output)
      in if digests = [] then Inl ErrorScrapingDigest else Inr digests)"

fun scrape_pull_lines :: "string list \<Rightarrow> err + string" where
  "scrape_pull_lines [] = Inl ErrorScrapingDigest"
| "scrape_pull_lines (line # lines) =
     (case find_submatch digestPullRE line of
        None \<Rightarrow> scrape_pull_lines lines
      | Some (_, _, caps) \<Rightarrow> Inr (group_str line caps 1))"

definition scrapePullDigest :: "string \<Rightarrow> err + string" where
  "scrapePullDigest output = scrape_pull_lines (split_on CHR 0x0A output)"

definition findStatus :: "string \<Rightarrow> string" where
  "findStatus s =
     (case find_submatch statusRE s of None \<Rightarrow> [] | Some (_, _, caps) \<Rightarrow> group_str s caps 1)"

section \<open>Push failures\<close>

text \<open>The texts looked for, in order, with the status each is counted under.\<close>

definition push_failures :: "(string \<times> string) list" where
  "push_failures =
     [(''no such host'', ''dnsFailure''),
      (''network is unreachable'', ''networkUnreachable''),
      (''500 Internal Server Error'', ''500''),
      (''502 Bad Gateway'', ''502''),
      (''token auth attempt for registry'', []),
      (''net/http: TLS handshake timeout'', ''tlsTimeout''),
      (''i/o timeout'', ''dialTCPTimeout''),
      (''UNKNOWN'', ''dockerUNKNOWN'')]"

definition failure_status :: "string \<Rightarrow> string \<times> string \<Rightarrow> string" where
  "failure_status output f =
     (if fst f = ''token auth attempt for registry'' then
        (if findStatus output = [] then ''authError'' else findStatus output)
      else snd f)"

text \<open>The counts \<open>GCRErrors\<close> and the error; the deferred function counts the status.\<close>

definition count_status :: "string \<Rightarrow> (string \<times> nat) list \<Rightarrow> (string \<times> nat) list" where
  "count_status status m =
     (if status = [] then m
      else AList.update status ((case map_of m status of Some n \<Rightarrow> n | None \<Rightarrow> 0) + 1) m)"

definition detectPushFailure :: "string \<Rightarrow> (string \<times> nat) list \<Rightarrow> err option \<times> (string \<times> nat) list" where
  "detectPushFailure output GCRErrors =
     (case find (\<lambda>f. str_contains output (fst f)) push_failures of
        Some f \<Rightarrow> (Some (ErrText (fst f)), count_status (failure_status output f) GCRErrors)
      | None \<Rightarrow> (None, count_status (findStatus output) GCRErrors))"

section \<open>Facts\<close>

lemma sha_re_matches:
  "matches sha_re u \<longleftrightarrow>
     (\<exists>x. u = ''sha256:'' @ x \<and> x \<noteq> [] \<and> (\<forall>c\<in>set x. \<not> in_cls space_class c))"
  unfolding sha_re_def by (auto simp: matches_Cat matches_plus1_Cls)

definition sha_digest :: "string \<Rightarrow> bool" where
  "sha_digest d \<longleftrightarrow> (\<exists>x. d = ''sha256:'' @ x \<and> x \<noteq> [] \<and> (\<forall>c\<in>set x. \<not> in_cls space_class c))"

lemma anchor_free_parts [simp]:
  "anchor_free (lit w)" "anchor_free space_re" "anchor_free any_re" "anchor_free sha_re" "anchor_free digit_re"
proof -
  show l: "anchor_free (lit w)" for w by (induction w rule: lit.induct) (simp_all add: chr_def)
  show "anchor_free space_re" "anchor_free any_re" "anchor_free sha_re" "anchor_free digit_re"
    by (simp_all add: space_re_def any_re_def sha_re_def digit_re_def plus1_def l del: lit.simps)
qed

lemma cap_groups_parts [simp]:
  "cap_groups (lit w) = []" "cap_groups space_re = []" "cap_groups any_re = []" "cap_groups sha_re = []"
  "cap_groups digit_re = []" "cap_groups (chr c) = []" "cap_groups (plus1 r) = cap_groups r @ cap_groups r"
proof -
  show l: "cap_groups (lit w) = []" for w by (induction w rule: lit.induct) (simp_all add: chr_def)
  show "cap_groups space_re = []" "cap_groups any_re = []" "cap_groups sha_re = []"
    "cap_groups digit_re = []" "cap_groups (chr c) = []" "cap_groups (plus1 r) = cap_groups r @ cap_groups r"
    by (simp_all add: space_re_def any_re_def sha_re_def digit_re_def plus1_def chr_def l del: lit.simps)
qed

lemma push_groups: "cap_groups digestPushRE = [(1, any_re), (2, sha_re)]"
  by (simp add: digestPushRE_def)

lemma pull_groups: "cap_groups digestPullRE = [(1, sha_re)]"
  by (simp add: digestPullRE_def)

text \<open>
  Every match records all the groups: the groups of the parts of a concatenation are there
  after the parts have matched.
\<close>

lemma bt_keeps: "y \<in> set (bt r st) \<Longrightarrow> set (snd (snd st)) \<subseteq> set (snd (snd y))"
proof (induction r st arbitrary: y rule: bt.induct)
  case (7 r st)
  show ?case
  proof (cases "y = st")
    case False
    then obtain z where "z \<in> set (bt r st)" "length (fst (snd z)) < length (fst (snd st))"
        "y \<in> set (bt (Star r) z)"
      using "7.prems" by (auto simp: bt_Star_set [of _ r st])
    then show ?thesis using "7.IH" by blast
  qed simp
next
  case (8 n r st)
  show ?case
  proof (cases "y = st")
    case False
    then obtain m z where "n = Suc m" "z \<in> set (bt r st)" "y \<in> set (bt (UpTo m r) z)"
      using "8.prems" by (auto simp: bt_UpTo_set [of _ n r st])
    then show ?thesis using "8.IH" by blast
  qed simp
qed (fastforce split: list.splits if_splits)+

fun records :: "nat \<Rightarrow> re \<Rightarrow> bool" where
  "records k (Cat r s) = (records k r \<or> records k s)"
| "records k (Cap j r) = (k = j \<or> records k r)"
| "records k _ = False"

lemma bt_records: "records k r \<Longrightarrow> y \<in> set (bt r st) \<Longrightarrow> k \<in> fst ` set (snd (snd y))"
proof (induction r arbitrary: st y)
  case (Cat r s)
  then obtain z where "z \<in> set (bt r st)" "y \<in> set (bt s z)" by auto
  moreover from this have "set (snd (snd z)) \<subseteq> set (snd (snd y))" by (blast dest: bt_keeps)
  moreover have "records k r \<or> records k s" using Cat.prems(1) by simp
  ultimately show ?case using Cat.IH by blast
next
  case (Cap j r)
  then obtain i ys c where z: "(i, ys, c) \<in> set (bt r st)" "y = (i, ys, (j, fst st, i) # c)" by auto
  then show ?case using Cap.IH [OF _ z(1)] Cap.prems(1) by (cases "k = j") auto
qed simp_all

lemma find_submatch_records:
  assumes "records k r" "find_submatch r s = Some (a, b, caps)"
  obtains i j where "map_of caps k = Some (i, j)" "(k, i, j) \<in> set caps"
proof -
  have "k \<in> fst ` set caps" if "find_at r i xs = Some (a, b, caps)" for i xs
    using that assms(1)
  proof (induction r i xs rule: find_at.induct)
    case (1 r i xs)
    show ?case
    proof (cases "bt r (i, xs, [])")
      case Nil
      then show ?thesis
        using "1.prems" "1.IH" [OF Nil] find_at.simps [of r i xs] by (cases xs) auto
    next
      case (Cons y l)
      moreover from this have "y \<in> set (bt r (i, xs, []))" by simp
      ultimately show ?thesis
        using bt_records [OF "1.prems"(2), of y "(i, xs, [])"] "1.prems"(1)
        by (cases y) (simp add: find_at.simps [of r i xs])
    qed
  qed
  then have "k \<in> fst ` set caps" using assms(2) by (simp add: find_submatch_def)
  then obtain ij where "map_of caps k = Some ij" by (metis map_of_eq_None_iff not_None_eq)
  then show thesis using that map_of_SomeD [of caps k ij] by (cases ij) simp
qed

lemma group_str_matches:
  assumes "find_submatch r s = Some (a, b, caps)" "records k r"
    "\<forall>(j, r0)\<in>set (cap_groups r). anchor_free r0"
  obtains r0 where "(k, r0) \<in> set (cap_groups r)" "matches r0 (group_str s caps k)"
proof -
  obtain i j where "map_of caps k = Some (i, j)" "(k, i, j) \<in> set caps"
    using find_submatch_records [OF assms(2,1)] .
  then show thesis
    using find_submatch_groups [OF assms(1,3)] that by (auto simp: group_str_def)
qed

lemma scrape_push_lines_sound:
  "\<forall>d\<in>set (scrape_push_lines lines). tag d \<noteq> [] \<and> sha_digest (digest d)"
proof (induction lines)
  case (Cons line lines)
  show ?case
  proof (cases "find_submatch digestPushRE line")
    case (Some t)
    obtain a b caps where t: "find_submatch digestPushRE line = Some (a, b, caps)"
      using Some by (cases t) auto
    have af: "\<forall>(j, r0)\<in>set (cap_groups digestPushRE). anchor_free r0" by (simp add: push_groups)
    have r: "records 1 digestPushRE" "records 2 digestPushRE" by (simp_all add: digestPushRE_def)
    have "matches any_re (group_str line caps 1)"
      using group_str_matches [OF t r(1) af] by (auto simp: push_groups)
    then have 1: "group_str line caps 1 \<noteq> []" by (simp add: any_re_def matches_plus1_Cls)
    have "matches sha_re (group_str line caps 2)"
      using group_str_matches [OF t r(2) af] by (auto simp: push_groups)
    then have "sha_digest (group_str line caps 2)" by (simp add: sha_re_matches sha_digest_def)
    with 1 t Cons show ?thesis by simp
  qed (use Cons in simp)
qed simp

lemma scrape_pull_lines_sound: "scrape_pull_lines lines = Inr d \<Longrightarrow> sha_digest d"
proof (induction lines)
  case (Cons line lines)
  show ?case
  proof (cases "find_submatch digestPullRE line")
    case (Some t)
    obtain a b caps where t: "find_submatch digestPullRE line = Some (a, b, caps)"
      using Some by (cases t) auto
    have af: "\<forall>(j, r0)\<in>set (cap_groups digestPullRE). anchor_free r0" by (simp add: pull_groups)
    have "records 1 digestPullRE" by (simp add: digestPullRE_def)
    then have "matches sha_re (group_str line caps 1)"
      using group_str_matches [OF t _ af] by (auto simp: pull_groups)
    with t Cons.prems show ?thesis by (simp add: sha_re_matches sha_digest_def)
  qed (use Cons in simp)
qed simp

lemma str_index_at: "c \<notin> set k \<Longrightarrow> str_index (k @ c # v) [c] = Some (length k)"
  by (induction k) (auto simp: str_index_Cons)

lemma str_index_absent: "c \<notin> set k \<Longrightarrow> str_index k [c] = None"
  by (induction k) (auto simp: str_index_Cons str_index_Nil)

lemma find_digest_Inr:
  "find_digest name ds = Inr dg \<Longrightarrow>
     \<exists>repo. repo @ ''@'' @ dg \<in> set ds \<and> has_prefix (repo @ ''@'' @ dg) name \<and> CHR ''@'' \<notin> set dg"
proof (induction ds)
  case (Cons d ds)
  show ?case
  proof (cases "has_prefix d name")
    case True
    with Cons.prems obtain repo where s: "split_on CHR ''@'' d = [repo, dg]"
      by (auto split: list.splits)
    then have "d = repo @ ''@'' @ dg" using join_split_on [of "CHR ''@''" d] by simp
    moreover have "CHR ''@'' \<notin> set dg" using split_on_no_sep [of dg "CHR ''@''" d] s by simp
    ultimately show ?thesis using True by auto
  qed (use Cons in auto)
qed simp

section \<open>Properties\<close>

lemma scrapePushDigests_lines:
  "scrapePushDigests output = Inr ds \<Longrightarrow> \<forall>d\<in>set ds. sha_digest (digest d)"
  using scrape_push_lines_sound by (auto simp: scrapePushDigests_def Let_def split: if_splits)

text \<open>
  What \<open>scrapePushDigests\<close> returns can be recorded as it is: it is not empty, every tag
  is nonempty, and every digest is \<^verbatim>\<open>sha256:\<close> followed by at least one byte, none of which
  is white space, whatever the output of docker was.
\<close>

theorem scrapePushDigests_sound:
  assumes "scrapePushDigests output = Inr ds"
  shows "ds \<noteq> [] \<and> (\<forall>d\<in>set ds. tag d \<noteq> [] \<and> sha_digest (digest d))"
  using assms scrape_push_lines_sound by (auto simp: scrapePushDigests_def Let_def split: if_splits)

theorem scrapePushDigests_sound_witness:
  "\<exists>ds. scrapePushDigests (''Pushed'' @ [CHR 0x0A] @ ''v1: digest: sha256:ab size: 9'') = Inr ds \<and>
     ds = [\<lparr>tag = ''v1'', digest = ''sha256:ab''\<rparr>] \<and> (\<forall>d\<in>set ds. sha_digest (digest d))"
proof -
  have run: "scrapePushDigests (''Pushed'' @ [CHR 0x0A] @ ''v1: digest: sha256:ab size: 9'') =
      Inr [\<lparr>tag = ''v1'', digest = ''sha256:ab''\<rparr>]" by code_simp
  from scrapePushDigests_sound [OF run] run show ?thesis by blast
qed

text \<open>
  \<open>stripTagDigest\<close> undoes the composition of an image reference: of a repository name
  without a colon or an at sign it removes a tag and a digest and leaves the name.
\<close>

theorem stripTagDigest_repository:
  assumes "CHR '':'' \<notin> set repo" "CHR ''@'' \<notin> set repo" "CHR ''@'' \<notin> set t"
  shows "stripTagDigest repo = repo \<and> stripTagDigest (repo @ '':'' @ t) = repo \<and>
     stripTagDigest (repo @ ''@'' @ d) = repo"
  using assms str_index_at [of "CHR ''@''" repo d] str_index_at [of "CHR '':''" repo t]
    str_index_absent [of "CHR ''@''" repo] str_index_absent [of "CHR '':''" repo]
    str_index_absent [of "CHR ''@''" "repo @ '':'' @ t"]
  by (simp add: stripTagDigest_def)

theorem stripTagDigest_repository_witness:
  "stripTagDigest (''gcr.io/p/i'' @ '':'' @ ''v1'') = ''gcr.io/p/i''"
  using stripTagDigest_repository [of "''gcr.io/p/i''" "''v1''"] by simp

text \<open>
  The digest \<open>digestForStepImage\<close> finds stands behind the single at sign of one of the
  repository digests that docker reports, and that entry starts with the name of the image
  without its tag or digest.
\<close>

theorem digestForStepImage_sound:
  assumes "digestForStepImage name repo = Inr dg"
  shows "\<exists>digests rest r. repo = Some (digests # rest) \<and> r @ ''@'' @ dg \<in> set digests \<and>
     has_prefix (r @ ''@'' @ dg) (stripTagDigest name) \<and> CHR ''@'' \<notin> set dg"
proof -
  obtain digests rest where "repo = Some (digests # rest)"
      "find_digest (stripTagDigest name) digests = Inr dg"
    using assms by (auto simp: digestForStepImage_def split: option.splits list.splits if_splits)
  then show ?thesis using find_digest_Inr by blast
qed

theorem digestForStepImage_sound_witness:
  "\<exists>dg. digestForStepImage ''gcr.io/p/i:v1'' (Some [[''other@sha256:0'', ''gcr.io/p/i@sha256:1'']]) = Inr dg \<and>
     CHR ''@'' \<notin> set dg"
proof -
  have run: "digestForStepImage ''gcr.io/p/i:v1'' (Some [[''other@sha256:0'', ''gcr.io/p/i@sha256:1'']]) =
      Inr ''sha256:1''" by code_simp
  from digestForStepImage_sound [OF run] run show ?thesis by blast
qed

text \<open>
  The entry need not be one of the image: a repository whose name only starts with the name
  of the image is taken for it.
\<close>

lemma digestForStepImage_prefix_confusion:
  "digestForStepImage ''gcr.io/p/app'' (Some [[''gcr.io/p/app-old@sha256:0'', ''gcr.io/p/app@sha256:1'']]) =
     Inr ''sha256:0''"
  by code_simp

text \<open>Everything after the first colon is taken for the tag, also the port of a registry.\<close>

lemma stripTagDigest_registry_port:
  "stripTagDigest ''localhost:5000/app:v1'' = ''localhost''"
  "map tag (resolveDigestsForImage ''localhost:5000/app'' [\<lparr>tag = ''v1'', digest = ''sha256:0''\<rparr>]) =
     [''localhost:v1'']"
  by code_simp+

end
