(* ===== verification/Build_State.thy ===== *)
theory Build_State
  imports Build_Proto Docker_Output
begin

text \<open>
  The state of a \<open>Build\<close> (\<open>build/build.go\<close>, \<open>build/build_summary.go\<close>): its status, the
  statuses and digests of its steps, its timing, and the operations that read and write
  them. Each operation runs under the lock of the build, so it is one function on the
  state. An operation that reads the clock gets the time as an argument.
\<close>

section \<open>Status\<close>

datatype build_status =
  StatusNotStarted
| StatusFetchSource
| StatusBuild
| StatusPush
| StatusDone
| StatusStepTimeout
| StatusError
| StatusTimeout
| StatusCancelled

fun status_text :: "build_status \<Rightarrow> string" where
  "status_text StatusNotStarted = []"
| "status_text StatusFetchSource = ''FETCHSOURCE''"
| "status_text StatusBuild = ''BUILD''"
| "status_text StatusPush = ''PUSH''"
| "status_text StatusDone = ''DONE''"
| "status_text StatusStepTimeout = ''STEP_TIMEOUT''"
| "status_text StatusError = ''ERROR''"
| "status_text StatusTimeout = ''TIMEOUT''"
| "status_text StatusCancelled = ''CANCELLED''"

lemma status_text_inj: "status_text x = status_text y \<longleftrightarrow> x = y"
  by (cases x; cases y) simp_all

text \<open>The text of an error (\<open>Error()\<close>).\<close>

fun err_text :: "err \<Rightarrow> string" where
  "err_text DeadlineExceeded = ''context deadline exceeded''"
| "err_text Canceled = ''context canceled''"
| "err_text ErrorScrapingDigest = ''no digest in output''"
| "err_text (ErrText s) = s"
| "err_text (ErrWrap s e) = s @ '': '' @ err_text e"

section \<open>State\<close>

text \<open>A zero end time is \<open>None\<close>, as is a nil pointer to a time span.\<close>

record time_span =
  Start_time :: int
  End_time :: "int option"

record timing_info =
  BuildSteps :: "time_span option list"
  BuildStepPulls :: "time_span option list"
  BuildTotal :: "time_span option"
  ImagePushes :: "(string \<times> time_span) list option"
  PushTotal :: "time_span option"
  ArtifactsPushes :: "time_span option"

record artifacts_info =
  ArtifactManifest :: string
  NumArtifacts :: nat

text \<open>
  A source of tokens is what its \<open>Token\<close> returns; a client of the key service is its
  \<open>Decrypt(key, enc)\<close>. Both fields are nil, \<open>None\<close>, in a new build.
\<close>

type_synonym token_source = "err + string"
type_synonym kms = "string \<Rightarrow> string \<Rightarrow> err + string"

record bld =
  TokenSource :: "token_source option"
  Kms :: "kms option"
  b_status :: build_status
  imageDigests :: "image_digest list"
  stepDigests :: "string list"
  stepStatus :: "step_status list"
  b_err :: "err option"
  times :: "(build_status \<times> int) list"
  lastStateStart :: int
  PushErrors :: nat
  GCRErrors :: "(string \<times> nat) list"
  prevGCRAuth :: string
  Timing :: timing_info
  b_artifacts :: artifacts_info
  stepOutputs :: "string list option"
  main_log :: "string list"
  DoneClosed :: bool

definition New_build :: "int \<Rightarrow> build \<Rightarrow> bld" where
  "New_build now b = \<lparr>TokenSource = None, Kms = None, b_status = StatusNotStarted, imageDigests = [],
     stepDigests = replicate (length (Steps b)) [], stepStatus = replicate (length (Steps b)) QUEUED,
     b_err = None, times = [], lastStateStart = now, PushErrors = 0, GCRErrors = [], prevGCRAuth = [],
     Timing = \<lparr>BuildSteps = [], BuildStepPulls = [], BuildTotal = None, ImagePushes = None, PushTotal = None,
       ArtifactsPushes = None\<rparr>,
     b_artifacts = \<lparr>ArtifactManifest = [], NumArtifacts = 0\<rparr>, stepOutputs = None, main_log = [],
     DoneClosed = False\<rparr>"

definition WriteMainEntry :: "string \<Rightarrow> bld \<Rightarrow> bld" where
  "WriteMainEntry msg s = s\<lparr>main_log := main_log s @ [msg]\<rparr>"

definition write_if :: "bool \<Rightarrow> string \<Rightarrow> bld \<Rightarrow> bld" where
  "write_if c msg s = (if c then WriteMainEntry msg s else s)"

text \<open>The two readings of the clock, one after the other under the lock, give the same time here.\<close>

definition UpdateStatus :: "int \<Rightarrow> build_status \<Rightarrow> bld \<Rightarrow> bld" where
  "UpdateStatus now status s =
     WriteMainEntry (status_text status)
       (s\<lparr>times := AList.update (b_status s) (now - lastStateStart s) (times s),
          lastStateStart := now, b_status := status\<rparr>)"

definition FailBuild :: "int \<Rightarrow> err \<Rightarrow> bld \<Rightarrow> bld" where
  "FailBuild now e s =
     (let s = UpdateStatus now
                (case e of DeadlineExceeded \<Rightarrow> StatusTimeout | Canceled \<Rightarrow> StatusCancelled | _ \<Rightarrow> StatusError) s
      in (WriteMainEntry (''ERROR: '' @ err_text e) s)\<lparr>b_err := Some e\<rparr>)"

definition recordStepDigest :: "nat \<Rightarrow> string \<Rightarrow> bld \<Rightarrow> bld" where
  "recordStepDigest idx d s = s\<lparr>stepDigests := (stepDigests s)[idx := d]\<rparr>"

section \<open>Observers\<close>

record full_status =
  fs_BuildStatus :: build_status
  fs_StepStatus :: "step_status list"

definition GetStatus :: "bld \<Rightarrow> full_status" where
  "GetStatus s = \<lparr>fs_BuildStatus = b_status s, fs_StepStatus = stepStatus s\<rparr>"

record built_image =
  bi_Name :: string
  bi_Digest :: string

record build_summary =
  bs_Status :: build_status
  bs_StepStatus :: "step_status list"
  bs_StepOutputs :: "string list"
  bs_BuiltImages :: "built_image list"
  bs_BuildStepImages :: "string list"
  bs_Timing :: timing_info
  bs_Artifacts :: artifacts_info

definition Summary :: "bld \<Rightarrow> build_summary" where
  "Summary s = \<lparr>bs_Status = b_status s, bs_StepStatus = stepStatus s,
     bs_StepOutputs = (case stepOutputs s of None \<Rightarrow> [] | Some os \<Rightarrow> os),
     bs_BuiltImages = map (\<lambda>d. \<lparr>bi_Name = tag d, bi_Digest = digest d\<rparr>) (imageDigests s),
     bs_BuildStepImages = stepDigests s, bs_Timing = Timing s, bs_Artifacts = b_artifacts s\<rparr>"

definition Times :: "bld \<Rightarrow> (build_status \<times> int) list" where
  "Times s = times s"

definition LastStateStart :: "bld \<Rightarrow> int" where
  "LastStateStart s = lastStateStart s"

section \<open>Facts\<close>

lemma WriteMainEntry_simps [simp]:
  "b_status (WriteMainEntry m s) = b_status s" "b_err (WriteMainEntry m s) = b_err s"
  "times (WriteMainEntry m s) = times s" "lastStateStart (WriteMainEntry m s) = lastStateStart s"
  "main_log (WriteMainEntry m s) = main_log s @ [m]" "DoneClosed (WriteMainEntry m s) = DoneClosed s"
  "imageDigests (WriteMainEntry m s) = imageDigests s" "PushErrors (WriteMainEntry m s) = PushErrors s"
  "Timing (WriteMainEntry m s) = Timing s" "prevGCRAuth (WriteMainEntry m s) = prevGCRAuth s"
  "stepStatus (WriteMainEntry m s) = stepStatus s" "GCRErrors (WriteMainEntry m s) = GCRErrors s"
  "b_artifacts (WriteMainEntry m s) = b_artifacts s"
  by (simp_all add: WriteMainEntry_def)

lemma UpdateStatus_simps [simp]:
  "b_status (UpdateStatus t st s) = st" "b_err (UpdateStatus t st s) = b_err s"
  "lastStateStart (UpdateStatus t st s) = t"
  "times (UpdateStatus t st s) = AList.update (b_status s) (t - lastStateStart s) (times s)"
  "main_log (UpdateStatus t st s) = main_log s @ [status_text st]" "DoneClosed (UpdateStatus t st s) = DoneClosed s"
  "imageDigests (UpdateStatus t st s) = imageDigests s" "stepStatus (UpdateStatus t st s) = stepStatus s"
  by (simp_all add: UpdateStatus_def)

text \<open>The status a failure is reported as.\<close>

lemma FailBuild_status:
  "b_status (FailBuild t e s) =
     (if e = DeadlineExceeded then StatusTimeout else if e = Canceled then StatusCancelled else StatusError)"
  "b_err (FailBuild t e s) = Some e" "DoneClosed (FailBuild t e s) = DoneClosed s"
  by (cases e; simp add: FailBuild_def Let_def)+

text \<open>The time accounted for: what the states left so far have taken together.\<close>

definition accounted :: "bld \<Rightarrow> int" where
  "accounted s = sum_list (map snd (times s))"

lemma sum_update_new:
  "k \<notin> set (map fst m) \<Longrightarrow> sum_list (map snd (AList.update k (v :: int) m)) = sum_list (map snd m) + v"
  by (induction m) auto

text \<open>A run through different statuses accounts for the whole time since it began.\<close>

fun pass_statuses :: "(int \<times> build_status) list \<Rightarrow> bld \<Rightarrow> bld" where
  "pass_statuses [] s = s"
| "pass_statuses ((t, st) # xs) s = pass_statuses xs (UpdateStatus t st s)"

lemma pass_statuses_accounts:
  assumes "distinct (b_status s # map snd xs)" "b_status s \<notin> fst ` set (times s)"
    "fst ` set (times s) \<inter> snd ` set xs = {}"
  shows "accounted (pass_statuses xs s) - lastStateStart (pass_statuses xs s) = accounted s - lastStateStart s"
  using assms
proof (induction xs arbitrary: s)
  case (Cons x xs)
  obtain t st where x: "x = (t, st)" by fastforce
  let ?s = "UpdateStatus t st s"
  have keys: "fst ` set (times ?s) = insert (b_status s) (fst ` set (times s))"
    by (simp add: dom_update)
  have "accounted (pass_statuses xs ?s) - lastStateStart (pass_statuses xs ?s) = accounted ?s - lastStateStart ?s"
    by (intro Cons.IH) (use Cons.prems in \<open>simp_all only: keys x UpdateStatus_simps(1) list.map snd_conv\<close>, auto)
  moreover have "accounted ?s = accounted s + (t - lastStateStart s)"
    using Cons.prems(2) by (simp add: accounted_def sum_update_new)
  ultimately show ?case by (simp add: x)
qed simp

end
