(* ===== verification/Base64.thy ===== *)
theory Base64
  imports Prelude
begin

text \<open>
  \<open>base64.StdEncoding\<close> of Go's standard library: \<open>EncodeToString\<close> and \<open>DecodeString\<close>, with
  padding. The decoder skips carriage returns and line feeds and does not insist on zero
  bits behind the last byte.
\<close>

definition alphabet :: string where
  "alphabet = ''ABCDEFGHIJKLMNOPQRSTUVWXYZabcdefghijklmnopqrstuvwxyz0123456789+/''"

definition sextet :: "nat \<Rightarrow> char" where
  "sextet n = alphabet ! (n mod 64)"

fun position :: "char \<Rightarrow> string \<Rightarrow> nat option" where
  "position c [] = None"
| "position c (d # ds) = (if c = d then Some 0 else map_option Suc (position c ds))"

definition sextet_value :: "char \<Rightarrow> nat option" where
  "sextet_value c = position c alphabet"

fun encode_bytes :: "nat list \<Rightarrow> string" where
  "encode_bytes [] = []"
| "encode_bytes [a] = [sextet (a div 4), sextet (a mod 4 * 16), CHR ''='', CHR ''='']"
| "encode_bytes [a, b] =
     [sextet (a div 4), sextet (a mod 4 * 16 + b div 16), sextet (b mod 16 * 4), CHR ''='']"
| "encode_bytes (a # b # c # bs) =
     sextet (a div 4) # sextet (a mod 4 * 16 + b div 16) # sextet (b mod 16 * 4 + c div 64) #
     sextet (c mod 64) # encode_bytes bs"

definition EncodeToString :: "string \<Rightarrow> string" where
  "EncodeToString s = encode_bytes (map of_char s)"

fun decode_groups :: "string \<Rightarrow> nat list option" where
  "decode_groups [] = Some []"
| "decode_groups (p # q # r # s # t) =
     (case (sextet_value p, sextet_value q) of
        (Some a, Some b) \<Rightarrow>
          if s = CHR ''='' then
            (if t \<noteq> [] then None
             else if r = CHR ''='' then Some [a * 4 + b div 16]
             else (case sextet_value r of
                     Some c \<Rightarrow> Some [a * 4 + b div 16, b mod 16 * 16 + c div 4]
                   | None \<Rightarrow> None))
          else
            (case (sextet_value r, sextet_value s) of
               (Some c, Some d) \<Rightarrow>
                 map_option (\<lambda>bs. (a * 4 + b div 16) # (b mod 16 * 16 + c div 4) # (c mod 4 * 64 + d) # bs)
                   (decode_groups t)
             | _ \<Rightarrow> None)
      | _ \<Rightarrow> None)"
| "decode_groups _ = None"

definition DecodeString :: "string \<Rightarrow> string option" where
  "DecodeString s =
     map_option (map char_of) (decode_groups (filter (\<lambda>c. c \<noteq> CHR 0x0A \<and> c \<noteq> CHR 0x0D) s))"

section \<open>Round trip\<close>

lemma position_nth: "distinct ds \<Longrightarrow> n < length ds \<Longrightarrow> position (ds ! n) ds = Some n"
proof (induction ds arbitrary: n)
  case (Cons d ds)
  then show ?case by (cases n) (auto simp: nth_mem)
qed simp

lemma alphabet_facts: "length alphabet = 64" "distinct alphabet"
  by (simp_all add: alphabet_def)

lemma sextet_value_sextet: "n < 64 \<Longrightarrow> sextet_value (sextet n) = Some n"
  using position_nth [of alphabet n] by (simp add: sextet_value_def sextet_def alphabet_facts)

lemma sextet_in: "sextet n \<in> set alphabet"
  unfolding sextet_def by (rule nth_mem) (simp add: alphabet_facts)

lemma sextet_other: "sextet n \<noteq> CHR ''=''" "sextet n \<noteq> CHR 0x0A" "sextet n \<noteq> CHR 0x0D"
proof -
  have "CHR ''='' \<notin> set alphabet" "CHR 0x0A \<notin> set alphabet" "CHR 0x0D \<notin> set alphabet"
    by (simp_all add: alphabet_def)
  then show "sextet n \<noteq> CHR ''=''" "sextet n \<noteq> CHR 0x0A" "sextet n \<noteq> CHR 0x0D"
    using sextet_in [of n] by metis+
qed

lemma split_bytes:
  fixes a b c :: nat
  assumes "a < 256" "b < 256" "c < 256"
  shows "a div 4 < 64" "a mod 4 * 16 + b div 16 < 64" "b mod 16 * 4 + c div 64 < 64" "c mod 64 < 64"
    "a div 4 * 4 + (a mod 4 * 16 + b div 16) div 16 = a"
    "(a mod 4 * 16 + b div 16) mod 16 * 16 + (b mod 16 * 4 + c div 64) div 4 = b"
    "(b mod 16 * 4 + c div 64) mod 4 * 64 + c mod 64 = c"
    "a mod 4 * 16 < 64" "a div 4 * 4 + a mod 4 * 16 div 16 = a" "b mod 16 * 4 < 64"
    "(a mod 4 * 16 + b div 16) mod 16 * 16 + b mod 16 * 4 div 4 = b"
proof -
  have d: "b div 16 < 16" "c div 64 < 4" "a mod 4 < 4" "b mod 16 < 16"
    using assms by (simp_all add: less_mult_imp_div_less)
  show "a div 4 < 64" using assms by (simp add: less_mult_imp_div_less)
  show "a mod 4 * 16 + b div 16 < 64" "b mod 16 * 4 + c div 64 < 64" "c mod 64 < 64"
    "a mod 4 * 16 < 64" "b mod 16 * 4 < 64" using d by simp_all
  have e: "(a mod 4 * 16 + b div 16) div 16 = a mod 4" "(a mod 4 * 16 + b div 16) mod 16 = b div 16"
    "(b mod 16 * 4 + c div 64) div 4 = b mod 16" "(b mod 16 * 4 + c div 64) mod 4 = c div 64"
    using d by simp_all
  show "a div 4 * 4 + (a mod 4 * 16 + b div 16) div 16 = a" "a div 4 * 4 + a mod 4 * 16 div 16 = a"
    "(a mod 4 * 16 + b div 16) mod 16 * 16 + (b mod 16 * 4 + c div 64) div 4 = b"
    "(b mod 16 * 4 + c div 64) mod 4 * 64 + c mod 64 = c"
    "(a mod 4 * 16 + b div 16) mod 16 * 16 + b mod 16 * 4 div 4 = b"
    unfolding e by simp_all
qed

lemma decode_encode_bytes:
  "\<forall>x\<in>set bs. x < 256 \<Longrightarrow> decode_groups (encode_bytes bs) = Some bs"
proof (induction bs rule: encode_bytes.induct)
  case (2 a)
  then show ?case using split_bytes [of a 0 0] by (simp add: sextet_value_sextet)
next
  case (3 a b)
  then show ?case
    using split_bytes [of a b 0] by (simp add: sextet_value_sextet sextet_other)
next
  case (4 a b c bs)
  then show ?case
    using split_bytes [of a b c] by (simp add: sextet_value_sextet sextet_other)
qed simp

lemma encode_bytes_no_newline: "CHR 0x0A \<notin> set (encode_bytes bs)" "CHR 0x0D \<notin> set (encode_bytes bs)"
  by (induction bs rule: encode_bytes.induct) (auto simp: sextet_other [symmetric])

lemma DecodeString_EncodeToString: "DecodeString (EncodeToString s) = Some s"
proof -
  have "filter (\<lambda>c. c \<noteq> CHR 0x0A \<and> c \<noteq> CHR 0x0D) (EncodeToString s) = EncodeToString s"
    using encode_bytes_no_newline [of "map of_char s"]
    unfolding EncodeToString_def by (intro filter_True) metis
  moreover have "\<forall>x\<in>set (map of_char s). x < (256 :: nat)" by simp
  ultimately show ?thesis
    using decode_encode_bytes [of "map of_char s"]
    by (simp add: DecodeString_def EncodeToString_def map_idI)
qed

text \<open>An encoded string holds no byte that could end a shell word or a sed expression but the slash.\<close>

lemma EncodeToString_chars: "set (EncodeToString s) \<subseteq> insert CHR ''='' (set alphabet)"
proof -
  have "set (encode_bytes bs) \<subseteq> insert CHR ''='' (set alphabet)" for bs
    by (induction bs rule: encode_bytes.induct) (auto simp: sextet_in)
  then show ?thesis by (simp add: EncodeToString_def)
qed

lemma sextet_slash: "sextet n = CHR 0x2F \<longleftrightarrow> n mod 64 = 63"
proof -
  have "alphabet ! 63 = CHR 0x2F" by (simp add: alphabet_def)
  then have "sextet n = CHR 0x2F \<longleftrightarrow> alphabet ! (n mod 64) = alphabet ! 63" by (simp add: sextet_def)
  also have "\<dots> \<longleftrightarrow> n mod 64 = 63" by (intro nth_eq_iff_index_eq) (simp_all add: alphabet_facts)
  finally show ?thesis .
qed

lemma slash_sextet: "CHR 0x2F = sextet n \<longleftrightarrow> n mod 64 = 63"
  using sextet_slash [of n] by metis

lemma small_sextets:
  fixes a b c :: nat
  assumes "a < 127" "b < 127" "c < 127" "c \<noteq> 63"
  shows "a div 4 mod 64 \<noteq> 63" "(a mod 4 * 16 + b div 16) mod 64 \<noteq> 63"
    "(b mod 16 * 4 + c div 64) mod 64 \<noteq> 63" "c mod 64 mod 64 \<noteq> 63"
proof -
  have d: "a div 4 < 32" "b div 16 < 8" "c div 64 < 2" "a mod 4 < 4" "b mod 16 < 16"
    using assms by (simp_all add: less_mult_imp_div_less)
  show "a div 4 mod 64 \<noteq> 63" using d by simp
  have "a mod 4 * 16 + b div 16 < 63" "b mod 16 * 4 + c div 64 < 63" using d by linarith+
  then show "(a mod 4 * 16 + b div 16) mod 64 \<noteq> 63" "(b mod 16 * 4 + c div 64) mod 64 \<noteq> 63" by simp_all
  show "c mod 64 mod 64 \<noteq> 63"
  proof
    assume "c mod 64 mod 64 = 63"
    then have "c = c div 64 * 64 + 63" using div_mult_mod_eq [of c 64] by simp
    then show False using d(3) assms(3,4) by (cases "c div 64 = 0") auto
  qed
qed

lemma slash_not_pad: "CHR 0x2F \<noteq> CHR ''=''"
  by simp

lemmas no_slash_simps = encode_bytes.simps list.set insert_iff slash_sextet slash_not_pad empty_iff

lemma encode_bytes_no_slash:
  "\<forall>x\<in>set bs. x < 127 \<and> x \<noteq> 63 \<Longrightarrow> CHR 0x2F \<notin> set (encode_bytes bs)"
proof (induction bs rule: encode_bytes.induct)
  case (2 a)
  then have f: "a div 4 mod 64 \<noteq> 63" "(a mod 4 * 16 + 0 div 16) mod 64 \<noteq> 63"
    using small_sextets [of a 0 0] by (simp_all only: list.set insert_iff ball_simps) auto
  then have "a mod 4 * 16 mod 64 \<noteq> 63" by simp
  with f(1) show ?case by (simp only: no_slash_simps) blast
next
  case (3 a b)
  then have ab: "a < 127" "b < 127" by simp_all
  note f = small_sextets [OF ab, of 0, simplified div_0 add_0_right, OF _ zero_neq_numeral]
  show ?case using f by (simp only: no_slash_simps) simp
next
  case (4 a b c bs)
  then have abc: "a < 127" "b < 127" "c < 127" "c \<noteq> 63" by simp_all
  have "CHR 0x2F \<notin> set (encode_bytes bs)" using 4 by simp
  with small_sextets(1-3) [OF abc] small_sextets(4) [OF abc, unfolded mod_mod_trivial] mod_mod_trivial [of c 64]
  show ?case by (simp only: no_slash_simps) blast
qed simp

text \<open>The encoding of a text without \<open>?\<close>, DEL and bytes above has no slash.\<close>

lemma EncodeToString_no_slash:
  assumes "\<forall>c\<in>set s. (of_char c :: nat) < 127 \<and> c \<noteq> CHR 0x3F"
  shows "CHR 0x2F \<notin> set (EncodeToString s)"
  unfolding EncodeToString_def
proof (intro encode_bytes_no_slash ballI)
  fix x :: nat assume "x \<in> set (map of_char s)"
  then obtain c where c: "c \<in> set s" "x = of_char c" by auto
  have "(of_char c :: nat) = of_char CHR 0x3F \<longleftrightarrow> c = CHR 0x3F" by (simp only: of_char_eq_iff)
  moreover have "of_char CHR 0x3F = (63 :: nat)" by simp
  ultimately have "c \<noteq> CHR 0x3F \<Longrightarrow> (of_char c :: nat) \<noteq> 63" by metis
  then show "x < 127 \<and> x \<noteq> 63" using assms c by auto
qed

end
