(* ===== verification/Backoff.thy ===== *)
theory Backoff
  imports Float64
begin

text \<open>
  \<open>Backoff\<close> of \<open>common/common.go\<close>, the delay before a pull or a push is tried again, and the
  constants that \<open>build/build.go\<close> passes to it. The random number that \<open>rand.Float64\<close> draws
  is an argument. A product and a difference are rounded one after the other, as on the
  platforms where the compiler does not fuse them.
\<close>

section \<open>The delay\<close>

definition backoffFactor :: rat where "backoffFactor = float_of (13 / 10)"
definition backoffRange :: rat where "backoffRange = float_of (2 / 5)"

text \<open>The loop; a negative number of retries is none.\<close>

fun grow_delay :: "rat \<Rightarrow> rat \<Rightarrow> nat \<Rightarrow> rat" where
  "grow_delay maximum backoff 0 = backoff"
| "grow_delay maximum backoff (Suc n) =
     (if backoff < maximum then grow_delay maximum (float_of (backoff * backoffFactor)) n else backoff)"

definition capped_delay :: "int \<Rightarrow> int \<Rightarrow> int \<Rightarrow> rat" where
  "capped_delay base maximum retries =
     (let m = float_of (of_int maximum); backoff = grow_delay m (float_of (of_int base)) (nat retries)
      in if backoff > m then m else backoff)"

definition Backoff :: "int \<Rightarrow> int \<Rightarrow> int \<Rightarrow> rat \<Rightarrow> int" where
  "Backoff base maximum retries random =
     (let backoff = capped_delay base maximum retries;
          backoff = float_of (backoff - float_of (float_of (backoff * backoffRange) * random))
      in if backoff < 0 then 0 else int_of_float backoff)"

definition baseDelay :: int where "baseDelay = 500 * 10 ^ 6"
definition maxDelay :: int where "maxDelay = 10 * 10 ^ 9"

section \<open>Facts\<close>

lemma backoffFactor_ge: "1 \<le> backoffFactor"
proof -
  have "is_float 1" using is_float_power [of 0] by simp
  then show ?thesis unfolding backoffFactor_def by (intro float_of_ge) simp_all
qed

lemma backoffRange_half: "0 \<le> backoffRange" "backoffRange \<le> 1 / 2"
proof -
  have "is_float (1 / 2)" using is_float_power [of "-1"] by (simp add: power_int_minus inverse_eq_divide)
  then show "backoffRange \<le> 1 / 2" unfolding backoffRange_def by (intro float_of_le) simp_all
  show "0 \<le> backoffRange" unfolding backoffRange_def by (intro float_of_nonneg) simp
qed

lemma grow_delay_float:
  "0 \<le> b \<Longrightarrow> is_float b \<Longrightarrow> b \<le> grow_delay m b n \<and> is_float (grow_delay m b n)"
proof (induction n arbitrary: b)
  case (Suc n)
  have "b \<le> b * backoffFactor" using mult_left_mono [OF backoffFactor_ge Suc.prems(1)] by simp
  then have "b \<le> float_of (b * backoffFactor)" "is_float (float_of (b * backoffFactor))"
    using Suc.prems by (auto intro: float_of_ge float_of_idem)
  then show ?case using Suc.IH [of "float_of (b * backoffFactor)"] Suc.prems by auto
qed simp

lemma capped_delay_float:
  assumes "0 \<le> base" "0 \<le> maximum"
  shows "0 \<le> capped_delay base maximum retries" "is_float (capped_delay base maximum retries)"
    "capped_delay base maximum retries \<le> float_of (of_int maximum)"
    "min (float_of (of_int base)) (float_of (of_int maximum)) \<le> capped_delay base maximum retries"
proof -
  have "0 \<le> float_of (of_int base)" "is_float (float_of (of_int base))"
      "0 \<le> float_of (of_int maximum)" "is_float (float_of (of_int maximum))"
    using assms by (simp_all add: float_of_nonneg float_of_idem)
  with grow_delay_float [of "float_of (of_int base)" "float_of (of_int maximum)" "nat retries"]
  show "0 \<le> capped_delay base maximum retries" "is_float (capped_delay base maximum retries)"
    "capped_delay base maximum retries \<le> float_of (of_int maximum)"
    "min (float_of (of_int base)) (float_of (of_int maximum)) \<le> capped_delay base maximum retries"
    by (auto simp: capped_delay_def Let_def)
qed

text \<open>The random part takes away at most half.\<close>

lemma jitter_bounds:
  assumes "0 \<le> b" "is_float b" "0 \<le> random" "random < 1"
  shows "b / 2 \<le> float_of (b - float_of (float_of (b * backoffRange) * random))"
    "float_of (b - float_of (float_of (b * backoffRange) * random)) \<le> b"
proof -
  let ?t = "float_of (float_of (b * backoffRange) * random)"
  have half: "is_float (b / 2)"
    using is_float_half [of b] assms(1,2) by (cases "b = 0") (simp_all add: is_float_def)
  have r: "0 \<le> b * backoffRange" "b * backoffRange \<le> b / 2"
    using backoffRange_half assms(1) mult_left_mono [of backoffRange "1 / 2" b] by simp_all
  have f: "0 \<le> float_of (b * backoffRange)" "float_of (b * backoffRange) \<le> b / 2"
    by (rule float_of_nonneg [OF r(1)], rule float_of_le [OF r half])
  have "float_of (b * backoffRange) * random \<le> float_of (b * backoffRange)"
    using f(1) assms(4) mult_left_mono [of random 1 "float_of (b * backoffRange)"] by simp
  then have "float_of (b * backoffRange) * random \<le> b / 2" using f(2) by simp
  moreover have "0 \<le> float_of (b * backoffRange) * random" using f(1) assms(3) by simp
  ultimately have t: "0 \<le> ?t" "?t \<le> b / 2"
    using float_of_nonneg float_of_le [OF _ _ half] by blast+
  have d: "b / 2 \<le> b - ?t" "b - ?t \<le> b" using t by simp_all
  have "0 \<le> b / 2" "0 \<le> b - ?t" using assms(1) d(1) by linarith+
  then show "b / 2 \<le> float_of (b - ?t)" "float_of (b - ?t) \<le> b"
    using float_of_ge [OF _ d(1) half] float_of_le [OF _ d(2) assms(2)] by simp_all
qed

lemma Backoff_between:
  assumes "0 \<le> base" "0 \<le> maximum" "0 \<le> random" "random < 1"
  shows "\<lfloor>capped_delay base maximum retries / 2\<rfloor> \<le> Backoff base maximum retries random"
    "Backoff base maximum retries random \<le> \<lfloor>capped_delay base maximum retries\<rfloor>"
proof -
  let ?b = "capped_delay base maximum retries"
  let ?x = "float_of (?b - float_of (float_of (?b * backoffRange) * random))"
  note b = capped_delay_float [OF assms(1,2), of retries]
  note j = jitter_bounds [OF b(1,2) assms(3,4)]
  have "0 \<le> ?x" using j(1) b(1) by (simp add: order_trans [of 0 "?b / 2"])
  then have "Backoff base maximum retries random = \<lfloor>?x\<rfloor>" by (simp add: Backoff_def Let_def int_of_float_def)
  then show "\<lfloor>?b / 2\<rfloor> \<le> Backoff base maximum retries random" "Backoff base maximum retries random \<le> \<lfloor>?b\<rfloor>"
    using floor_mono [OF j(1)] floor_mono [OF j(2)] by simp_all
qed

lemma Backoff_limits:
  assumes "0 \<le> base" "base \<le> 2 ^ 53" "0 \<le> maximum" "maximum \<le> 2 ^ 53" "0 \<le> random" "random < 1"
  shows "min base maximum div 2 \<le> Backoff base maximum retries random \<and>
    Backoff base maximum retries random \<le> maximum \<and>
    \<lfloor>capped_delay base maximum retries / 2\<rfloor> \<le> Backoff base maximum retries random \<and>
    Backoff base maximum retries random \<le> \<lfloor>capped_delay base maximum retries\<rfloor>"
proof -
  let ?b = "capped_delay base maximum retries"
  note b = capped_delay_float [OF assms(1,3), of retries]
  note j = Backoff_between [OF assms(1,3,5,6), of retries]
  have f: "float_of (of_int base) = of_int base" "float_of (of_int maximum) = of_int maximum"
    using assms by (simp_all add: is_float_of is_float_int)
  have "\<lfloor>?b\<rfloor> \<le> maximum" using b(3) f by linarith
  moreover have "of_int (min base maximum) / 2 \<le> ?b / 2" using b(4) f by (simp add: min_def split: if_splits)
  then have "\<lfloor>(of_int (min base maximum) :: rat) / of_int 2\<rfloor> \<le> \<lfloor>?b / 2\<rfloor>"
    by (intro floor_mono) simp
  then have "min base maximum div 2 \<le> \<lfloor>?b / 2\<rfloor>" by (simp only: floor_divide_of_int_eq)
  ultimately show ?thesis using j by linarith
qed

section \<open>Properties\<close>

text \<open>
  C31: The delay before a retry obeys its limits. For every base delay and maximum that a
  \<open>float64\<close> holds exactly, and whatever number is drawn, the delay is not negative, at most
  the maximum and at least half of the base delay (or of the maximum, if that is less),
  although each operation is rounded; it lies between one half of the delay without the
  random part and that delay.
\<close>

theorem Backoff_bounds:
  assumes "0 \<le> base" "base \<le> 2 ^ 53" "0 \<le> maximum" "maximum \<le> 2 ^ 53" "0 \<le> random" "random < 1"
  shows "min base maximum div 2 \<le> Backoff base maximum retries random \<and>
    Backoff base maximum retries random \<le> maximum \<and>
    \<lfloor>capped_delay base maximum retries / 2\<rfloor> \<le> Backoff base maximum retries random \<and>
    Backoff base maximum retries random \<le> \<lfloor>capped_delay base maximum retries\<rfloor>"
  by (rule Backoff_limits [OF assms])

theorem Backoff_bounds_witness:
  "Backoff baseDelay maxDelay 0 (1 / 2) = 400000000 \<and> Backoff baseDelay maxDelay 2 0 = 845000000 \<and>
   250000000 \<le> Backoff baseDelay maxDelay 3 (3 / 4)"
proof -
  have "Backoff baseDelay maxDelay 0 (1 / 2) = 400000000" "Backoff baseDelay maxDelay 2 0 = 845000000" by code_simp+
  moreover have "(0 :: int) \<le> baseDelay" "baseDelay \<le> 2 ^ 53" "0 \<le> maxDelay" "maxDelay \<le> 2 ^ 53"
    by (simp_all add: baseDelay_def maxDelay_def)
  from Backoff_bounds [OF this, of "3 / 4" 3] have "min baseDelay maxDelay div 2 \<le> Backoff baseDelay maxDelay 3 (3 / 4)" by simp
  ultimately show ?thesis by (simp add: baseDelay_def maxDelay_def)
qed

end
