(* ===== verification/Docker_Ops.thy ===== *)
theory Docker_Ops
  imports Build_State Base64 Backoff
begin

text \<open>
  The docker commands that \<open>build/build.go\<close> runs outside the steps: inspecting, pulling and
  pushing images, with retries, fetching the image of a step, and writing the credentials of
  the container registry. The surroundings are one record: the \<open>Run\<close> method, the error of
  the build context, the clock, the source of unique names (each is used for one command,
  so it is a function of the world before that command), the decoder of the JSON that
  \<open>docker inspect\<close> prints, the sleep and the random numbers between attempts, and the writers
  of the log (\<open>LogWrite prefix stdout text\<close> is a write to the writer that \<open>MakeWriter\<close> makes).
\<close>

record 'w os =
  Run :: "'w run"
  ctx_Err :: "'w \<Rightarrow> err option"
  now_of :: "'w \<Rightarrow> int"
  newUUID :: "'w \<Rightarrow> string"
  RepoDigests_of :: "string \<Rightarrow> string list list option"
  Sleep :: "int \<Rightarrow> 'w \<Rightarrow> 'w"
  rand_Float64 :: "'w \<Rightarrow> rat"
  LogWrite :: "string \<Rightarrow> bool \<Rightarrow> string \<Rightarrow> 'w \<Rightarrow> 'w"

definition maxPushRetries :: nat where "maxPushRetries = 10"
definition osImage :: string where "osImage = ''gcr.io/cloud-builders/docker''"

text \<open>The arguments that the containers with the home volume share.\<close>

definition home_container :: "string \<Rightarrow> string \<Rightarrow> string list" where
  "home_container prefix uuid =
     [''docker'', ''run'', ''--name'', prefix @ uuid, ''--rm'',
      ''--volume'', homeVolume @ '':'' @ homeDir, ''--env'', ''HOME='' @ homeDir,
      ''--volume'', ''/var/run/docker.sock:/var/run/docker.sock'']"

section \<open>Running and reading\<close>

definition runAndScrape :: "'w os \<Rightarrow> string list \<Rightarrow> 'w \<Rightarrow> (string \<times> err option) \<times> 'w" where
  "runAndScrape os cmd w = (case Run os BuildCtx cmd w of (a, w) \<Rightarrow> ((output_of a, run_err a), w))"

text \<open>What a command has written goes to the writers of the log, write by write.\<close>

definition log_answer :: "'w os \<Rightarrow> (bool \<Rightarrow> string) \<Rightarrow> answer \<Rightarrow> 'w \<Rightarrow> 'w" where
  "log_answer os prefix a w = fold (\<lambda>(out, text). LogWrite os (prefix out) out text) (writes a) w"

definition runWithScrapedLogging :: "'w os \<Rightarrow> string \<Rightarrow> string list \<Rightarrow> 'w \<Rightarrow> (string \<times> err option) \<times> 'w" where
  "runWithScrapedLogging os logPrefix cmd w =
     (case Run os BuildCtx cmd w of
        (a, w) \<Rightarrow>
          ((output_of a, run_err a),
           log_answer os (\<lambda>out. logPrefix @ (if out then '':STDOUT'' else '':STDERR'')) a w))"

definition dockerCmdOutput :: "'w os \<Rightarrow> string \<Rightarrow> string list \<Rightarrow> 'w \<Rightarrow> (string \<times> err option) \<times> 'w" where
  "dockerCmdOutput os cmd args w = runAndScrape os ([''docker'', cmd] @ args) w"

definition dockerInspect :: "'w os \<Rightarrow> string \<Rightarrow> 'w \<Rightarrow> (err + string) \<times> 'w" where
  "dockerInspect os img w =
     (case dockerCmdOutput os ''inspect'' [img] w of
        ((output, Some e), w) \<Rightarrow> (Inl e, w)
      | ((output, None), w) \<Rightarrow> (digestForStepImage img (RepoDigests_of os output), w))"

definition imageIsLocal :: "'w os \<Rightarrow> string \<Rightarrow> 'w \<Rightarrow> bool \<times> 'w" where
  "imageIsLocal os img w =
     (case dockerCmdOutput os ''images'' [''-q'', img] w of
        ((output, Some e), w) \<Rightarrow> (False, w)
      | ((output, None), w) \<Rightarrow> (length output > 0, w))"

section \<open>Pulling\<close>

definition pull_args :: "string \<Rightarrow> string \<Rightarrow> string list" where
  "pull_args uuid img =
     home_container ''cloudbuild_docker_pull_'' uuid @ [''gcr.io/cloud-builders/docker'', ''pull'', img]"

text \<open>Only standard output goes into the buffer; the writers get both streams.\<close>

definition dockerPull :: "'w os \<Rightarrow> string \<Rightarrow> string \<Rightarrow> 'w \<Rightarrow> (err + string) \<times> 'w" where
  "dockerPull os ident img w =
     (case Run os BuildCtx (pull_args (newUUID os w) img) w of
        (a, w) \<Rightarrow>
          ((case run_err a of Some e \<Rightarrow> Inl e | None \<Rightarrow> scrapePullDigest (stdout_of a)), log_answer os (\<lambda>_. ident) a w))"

text \<open>\<open>time.Sleep(common.Backoff(baseDelay, maxDelay, attempt))\<close>.\<close>

definition sleep_backoff :: "'w os \<Rightarrow> nat \<Rightarrow> 'w \<Rightarrow> 'w" where
  "sleep_backoff os attempt w = Sleep os (Backoff baseDelay maxDelay (int attempt) (rand_Float64 os w)) w"

function dockerPullWithRetries ::
  "'w os \<Rightarrow> string \<Rightarrow> string \<Rightarrow> nat \<Rightarrow> bld \<Rightarrow> 'w \<Rightarrow> (err + string) \<times> bld \<times> 'w"
where
  "dockerPullWithRetries os ident img attempt s w =
     (case dockerPull os ident img w of
        (Inr d, w) \<Rightarrow> (Inr d, s, w)
      | (Inl e, w) \<Rightarrow>
          if attempt < maxPushRetries
          then dockerPullWithRetries os ident img (attempt + 1) s (sleep_backoff os attempt w)
          else (Inl e, WriteMainEntry ''ERROR: failed to pull because we ran out of retries.'' s, w))"
  by pat_completeness auto
termination
  by (relation "measure (\<lambda>(os, ident, img, attempt, s, w). maxPushRetries - attempt)") auto

declare dockerPullWithRetries.simps [simp del]

section \<open>Pushing\<close>

definition push_args :: "string \<Rightarrow> string \<Rightarrow> string list" where
  "push_args uuid img =
     home_container ''cloudbuild_docker_push_'' uuid @ [''gcr.io/cloud-builders/docker'', ''push'', img]"

text \<open>One failed attempt: it is counted, and a failure that is recognised is logged.\<close>

definition push_failed :: "string \<Rightarrow> string \<Rightarrow> bld \<Rightarrow> bld" where
  "push_failed attempt output s =
     (let s = s\<lparr>PushErrors := PushErrors s + 1\<rparr>
      in case detectPushFailure output (GCRErrors s) of
           (derr, errs) \<Rightarrow>
             (let s = s\<lparr>GCRErrors := errs\<rparr>
              in case derr of
                   None \<Rightarrow> s
                 | Some e \<Rightarrow>
                     WriteMainEntry (''ERROR: push attempt '' @ attempt @ '' detected failure, retrying: '' @ err_text e) s))"

function dockerPushWithRetries ::
  "'w os \<Rightarrow> string \<Rightarrow> nat \<Rightarrow> bld \<Rightarrow> 'w \<Rightarrow> (string \<times> err option) \<times> bld \<times> 'w"
where
  "dockerPushWithRetries os img attempt s w =
     (case runWithScrapedLogging os ''PUSH'' (push_args (newUUID os w) img) w of
        ((output, None), w) \<Rightarrow> ((output, None), WriteMainEntry (''Pushing '' @ img) s, w)
      | ((output, Some e), w) \<Rightarrow>
          (let s = push_failed (show_nat attempt) output (WriteMainEntry (''Pushing '' @ img) s)
           in if attempt < maxPushRetries then dockerPushWithRetries os img (attempt + 1) s (sleep_backoff os attempt w)
              else ((output, Some e),
                    WriteMainEntry ''ERROR: failed to push because we ran out of retries.'' s, w)))"
  by pat_completeness auto
termination
  by (relation "measure (\<lambda>(os, img, attempt, s, w). maxPushRetries - attempt)") auto

declare dockerPushWithRetries.simps [simp del]

definition dockerPush :: "'w os \<Rightarrow> string \<Rightarrow> bld \<Rightarrow> 'w \<Rightarrow> (err + image_digest list) \<times> bld \<times> 'w" where
  "dockerPush os img s w =
     (case dockerPushWithRetries os img 1 s w of
        ((output, Some e), s, w) \<Rightarrow> (Inl e, s, w)
      | ((output, None), s, w) \<Rightarrow> (scrapePushDigests output, s, w))"

section \<open>The image of a step\<close>

definition quoted :: "string \<Rightarrow> string" where
  "quoted s = CHR 0x22 # s @ [CHR 0x22]"

text \<open>
  The verb \<open>%q\<close>: quotes, backslashes and control characters are escaped. A byte from 128 on is
  taken to be part of a printable character, which stays as it is.
\<close>

definition hex_digit :: "int \<Rightarrow> char" where
  "hex_digit n = char_of (if n < 10 then 48 + n else 87 + n)"

definition escape_char :: "char \<Rightarrow> string" where
  "escape_char c =
     (case map_of [(CHR 0x22, CHR 0x22), (CHR 0x5C, CHR 0x5C), (CHR 0x07, CHR ''a''), (CHR 0x08, CHR ''b''),
         (CHR 0x0C, CHR ''f''), (CHR 0x0A, CHR ''n''), (CHR 0x0D, CHR ''r''), (CHR 0x09, CHR ''t''), (CHR 0x0B, CHR ''v'')] c of
        Some d \<Rightarrow> [CHR 0x5C, d]
      | None \<Rightarrow>
          (let n = of_char c :: int
           in if n < 32 \<or> n = 127 then [CHR 0x5C, CHR ''x'', hex_digit (n div 16), hex_digit (n mod 16)] else [c]))"

definition Quote :: "string \<Rightarrow> string" where
  "Quote s = CHR 0x22 # concat (map escape_char s) @ [CHR 0x22]"

definition HasMultipleSteps :: "build \<Rightarrow> bool" where
  "HasMultipleSteps b = (length (Steps b) > 1)"

definition stepIdentifier :: "build \<Rightarrow> nat \<Rightarrow> string" where
  "stepIdentifier b idx =
     (if \<not> HasMultipleSteps b then []
      else if s_Id (Steps b ! idx) \<noteq> [] then ''Step #'' @ show_nat idx @ '' - '' @ Quote (s_Id (Steps b ! idx))
      else ''Step #'' @ show_nat idx)"

text \<open>
  The result is the digest to run at (empty: run the name). A \<open>case\<close> of the switch with
  \<open>ctx.Err()\<close> compares with the error the context has then.
\<close>

definition fetchBuilder :: "'w os \<Rightarrow> build \<Rightarrow> nat \<Rightarrow> bld \<Rightarrow> 'w \<Rightarrow> (err + string) \<times> bld \<times> 'w" where
  "fetchBuilder os b idx s w =
     (let name = s_Name (Steps b ! idx); ident = stepIdentifier b idx;
          say = (\<lambda>text. LogWrite os ident True (text @ name @ [CHR 0x0A]))
      in case dockerInspect os name w of
           (Inr d, w) \<Rightarrow> (Inr d, s, say ''Already have image (with digest): '' w)
         | (Inl e, w) \<Rightarrow>
             if e = ErrorScrapingDigest then (Inr [], s, say ''Already have image: '' w)
             else if ctx_Err os w = Some e then (Inl e, s, w)
             else (case dockerPullWithRetries os ident name 0 s (say ''Pulling image: '' w) of
                     (Inr d, s, w) \<Rightarrow> (Inr [], s, w)
                   | (Inl e, s, w) \<Rightarrow>
                       if e = ErrorScrapingDigest then (Inr [], s, w)
                       else if ctx_Err os w = Some e then (Inl e, s, w)
                       else (Inl (ErrWrap ''error pulling build step'' e), s, w)))"

section \<open>Registry credentials\<close>

definition gcrHosts :: "string list" where
  "gcrHosts = [''https://asia.gcr.io'', ''https://b.gcr.io'', ''https://bucket.gcr.io'', ''https://eu.gcr.io'',
     ''https://gcr.io'', ''https://gcr-staging.sandbox.google.com'', ''https://us.gcr.io'',
     ''https://marketplace.gcr.io'', ''https://k8s.gcr.io'']"

text \<open>
  What \<open>json.MarshalIndent\<close> prints for the configuration: the hosts are the keys of a map,
  which are printed in order.
\<close>

definition auth_entry :: "string \<Rightarrow> string \<Rightarrow> string" where
  "auth_entry auth host =
     ''    '' @ quoted host @ '': {'' @ [CHR 0x0A] @ ''      '' @ quoted ''auth'' @ '': '' @ quoted auth @
     [CHR 0x0A] @ ''    }''"

definition config_json :: "string \<Rightarrow> string" where
  "config_json auth =
     ''{'' @ [CHR 0x0A] @ ''  '' @ quoted ''auths'' @ '': {'' @ [CHR 0x0A] @
     join ('','' @ [CHR 0x0A]) (map (auth_entry auth) (sort gcrHosts)) @ [CHR 0x0A] @ ''  }'' @ [CHR 0x0A] @ ''}''"

definition token_auth :: "string \<Rightarrow> string" where
  "token_auth tok = EncodeToString (''oauth2accesstoken:'' @ tok)"

definition bash_container :: "string \<Rightarrow> string \<Rightarrow> string \<Rightarrow> string list" where
  "bash_container prefix uuid script =
     home_container prefix uuid @ [''--entrypoint'', ''bash'', osImage, ''-c'', script]"

definition set_script :: "string \<Rightarrow> string" where
  "set_script auth =
     ''mkdir -p ~/.docker/ && cat << EOF > ~/.docker/config.json'' @ [CHR 0x0A] @ config_json auth @
     [CHR 0x0A] @ ''EOF''"

definition update_script :: "string \<Rightarrow> string \<Rightarrow> string" where
  "update_script old new = ''sed -i 's/'' @ old @ ''/'' @ new @ ''/g' ~/.docker/config.json''"

text \<open>Both operations run a container and keep the new value only when it has succeeded.\<close>

definition run_token_container ::
  "'w os \<Rightarrow> string \<Rightarrow> string \<Rightarrow> string \<Rightarrow> string \<Rightarrow> bld \<Rightarrow> 'w \<Rightarrow> err option \<times> bld \<times> 'w"
where
  "run_token_container os prefix script msg auth s w =
     (case Run os BuildCtx (bash_container prefix (newUUID os w) script) w of
        (a, w) \<Rightarrow>
          (case run_err a of
             Some e \<Rightarrow>
               (Some (case ctx_Err os w of
                        Some ce \<Rightarrow> ce
                      | None \<Rightarrow> ErrText (msg @ '': '' @ err_text e @ [CHR 0x0A] @ output_of a)), s, w)
           | None \<Rightarrow> (None, s\<lparr>prevGCRAuth := auth\<rparr>, w)))"

definition SetDockerAccessToken :: "'w os \<Rightarrow> string \<Rightarrow> bld \<Rightarrow> 'w \<Rightarrow> err option \<times> bld \<times> 'w" where
  "SetDockerAccessToken os tok s w =
     (let auth = token_auth tok
      in run_token_container os ''cloudbuild_set_docker_token_'' (set_script auth)
           ''failed to set initial docker credentials'' auth s w)"

definition UpdateDockerAccessToken :: "'w os \<Rightarrow> string \<Rightarrow> bld \<Rightarrow> 'w \<Rightarrow> err option \<times> bld \<times> 'w" where
  "UpdateDockerAccessToken os tok s w =
     (if prevGCRAuth s = [] then
        (Some (ErrText ''UpdateDockerAccessToken called before SetDockerAccessToken''), s, w)
      else
        (let auth = token_auth tok
         in run_token_container os ''cloudbuild_update_docker_token_'' (update_script (prevGCRAuth s) auth)
              ''failed to update docker credentials'' auth s w))"

section \<open>Retries\<close>

text \<open>
  The reference: an operation that is tried again at most \<open>n\<close> times, with a pause before each
  further attempt.
\<close>

fun first_success ::
  "nat \<Rightarrow> ('w \<Rightarrow> (err + 'a) \<times> 'w) \<Rightarrow> (nat \<Rightarrow> 'w \<Rightarrow> 'w) \<Rightarrow> nat \<Rightarrow> 'w \<Rightarrow> (err + 'a) \<times> 'w"
where
  "first_success 0 f pause k w = f w"
| "first_success (Suc n) f pause k w =
     (case f w of
        (Inr x, w) \<Rightarrow> (Inr x, w)
      | (Inl e, w) \<Rightarrow> first_success n f pause (Suc k) (pause k w))"

text \<open>The log says that the retries have run out exactly after a failure.\<close>

definition out_of_retries :: "(err + 'a) \<times> 'w \<Rightarrow> bld \<Rightarrow> (err + 'a) \<times> bld \<times> 'w" where
  "out_of_retries rw s =
     (case rw of
        (Inr x, w) \<Rightarrow> (Inr x, s, w)
      | (Inl e, w) \<Rightarrow> (Inl e, WriteMainEntry ''ERROR: failed to pull because we ran out of retries.'' s, w))"

lemma dockerPullWithRetries_first_success:
  assumes "attempt \<le> maxPushRetries"
  shows "dockerPullWithRetries os ident img attempt s w =
    out_of_retries (first_success (maxPushRetries - attempt) (dockerPull os ident img) (sleep_backoff os) attempt w) s"
  using assms
proof (induction os ident img attempt s w rule: dockerPullWithRetries.induct)
  case (1 os ident img attempt s w)
  let ?f = "dockerPull os ident img"
  show ?case
  proof (cases "attempt < maxPushRetries")
    case True
    then obtain n where n: "maxPushRetries - attempt = Suc n" "maxPushRetries - (attempt + 1) = n"
      by (metis Suc_diff_Suc Suc_eq_plus1)
    have ih: "dockerPullWithRetries os ident img (Suc attempt) s (sleep_backoff os attempt w') =
        out_of_retries (first_success n ?f (sleep_backoff os) (Suc attempt) (sleep_backoff os attempt w')) s"
      if "?f w = (Inl e, w')" for e w'
      using 1 that True n by (metis Suc_eq_plus1 Suc_leI)
    show ?thesis
      by (subst dockerPullWithRetries.simps)
        (simp add: n True ih out_of_retries_def split: prod.split sum.split)
  next
    case False
    then have "maxPushRetries - attempt = 0" by simp
    then show ?thesis
      using False by (subst dockerPullWithRetries.simps) (auto simp: out_of_retries_def split: prod.split sum.split)
  qed
qed

text \<open>Fetching the image of a step writes nothing of the build but its log.\<close>

lemma dockerPullWithRetries_writes:
  "dockerPullWithRetries os ident img 0 s w = (r, s', w') \<Longrightarrow> \<exists>l. s' = s\<lparr>main_log := l\<rparr>"
proof -
  assume run: "dockerPullWithRetries os ident img 0 s w = (r, s', w')"
  obtain q w1 where "dockerPullWithRetries os ident img 0 s w = out_of_retries (q, w1) s"
    using dockerPullWithRetries_first_success [of 0 os ident img s w] by (metis prod.collapse zero_le)
  moreover have "\<exists>l. s = s\<lparr>main_log := l\<rparr>" by (intro exI [of _ "main_log s"]) simp
  ultimately show ?thesis using run by (cases q) (auto simp: out_of_retries_def WriteMainEntry_def)
qed

lemma fetchBuilder_writes:
  assumes "fetchBuilder os b i s w = (r, s', w')"
  shows "\<exists>l. s' = s\<lparr>main_log := l\<rparr>"
proof -
  have "\<exists>l. s = s\<lparr>main_log := l\<rparr>" by (intro exI [of _ "main_log s"]) simp
  then show ?thesis
    using assms dockerPullWithRetries_writes
    by (auto simp: fetchBuilder_def Let_def split: prod.splits sum.splits if_splits)
qed

lemma push_failed_errors: "PushErrors (push_failed a output s) = PushErrors s + 1"
  by (simp add: push_failed_def Let_def split: prod.split option.split)

text \<open>The commands that the operations issue, over every runner that hands on its commands.\<close>

locale docker_client =
  fixes os :: "'w os" and issued :: "'w \<Rightarrow> string list list"
  assumes os_issued: "issued (snd (Run os c args w)) = issued w @ [args]"
    and sleep_issued [simp]: "issued (Sleep os d w) = issued w"
    and log_issued [simp]: "issued (LogWrite os p out text w) = issued w"

sublocale docker_client \<subseteq> os: command_runner "Run os" issued
  by unfold_locales (rule os_issued)

context docker_client
begin

lemma log_answer_issued [simp]: "issued (log_answer os prefix a w) = issued w"
proof -
  have "issued (fold (\<lambda>(out, text). LogWrite os (prefix out) out text) xs w) = issued w" for xs
    by (induction xs arbitrary: w) auto
  then show ?thesis by (simp add: log_answer_def)
qed

lemma sleep_backoff_issued [simp]: "issued (sleep_backoff os k w) = issued w"
  by (simp add: sleep_backoff_def)

lemma dockerPull_issued:
  "dockerPull os ident img w = (r, w') \<Longrightarrow> issued w' = issued w @ [pull_args (newUUID os w) img]"
  using os_issued [of BuildCtx "pull_args (newUUID os w) img" w]
  by (auto simp: dockerPull_def split: prod.splits)

lemma scraped_issued:
  "runWithScrapedLogging os p cmd w = ((out, r), w') \<Longrightarrow> issued w' = issued w @ [cmd]"
  using os_issued [of BuildCtx cmd w] by (auto simp: runWithScrapedLogging_def split: prod.splits)

lemma first_success_pull_issued:
  "first_success n (dockerPull os ident img) (sleep_backoff os) k w = (r, w') \<Longrightarrow>
     \<exists>us. issued w' = issued w @ map (\<lambda>u. pull_args u img) us \<and> us \<noteq> [] \<and> length us \<le> Suc n \<and>
       (\<forall>e. r = Inl e \<longrightarrow> length us = Suc n)"
proof (induction n arbitrary: k w)
  case 0
  then show ?case using dockerPull_issued [of ident img w r w'] by (intro exI [of _ "[newUUID os w]"]) simp
next
  case (Suc n)
  obtain r1 w1 where p: "dockerPull os ident img w = (r1, w1)" by fastforce
  note i = dockerPull_issued [OF p]
  show ?case
  proof (cases r1)
    case (Inl e)
    then have "first_success n (dockerPull os ident img) (sleep_backoff os) (Suc k) (sleep_backoff os k w1) = (r, w')"
      using Suc.prems p by simp
    from Suc.IH [OF this] obtain us where "issued w' = issued w1 @ map (\<lambda>u. pull_args u img) us" "us \<noteq> []"
        "length us \<le> Suc n" "\<forall>e. r = Inl e \<longrightarrow> length us = Suc n" by auto
    then show ?thesis using i by (intro exI [of _ "newUUID os w # us"]) simp
  next
    case (Inr d)
    then show ?thesis using Suc.prems p i by (intro exI [of _ "[newUUID os w]"]) auto
  qed
qed

text \<open>One attempt to push: it is the last one, or it has failed and the next one follows.\<close>

lemma push_attempt:
  assumes "dockerPushWithRetries os img attempt s w = ((out, r), s', w')"
    and "runWithScrapedLogging os ''PUSH'' (push_args (newUUID os w) img) w = ((o1, r1), w1)"
  shows "r1 = None \<and> r = None \<and> w' = w1 \<and> PushErrors s' = PushErrors s \<or>
    (\<exists>e s1. r1 = Some e \<and> PushErrors s1 = PushErrors s + 1 \<and>
      (if attempt < maxPushRetries
       then dockerPushWithRetries os img (Suc attempt) s1 (sleep_backoff os attempt w1) = ((out, r), s', w')
       else r = Some e \<and> w' = w1 \<and> PushErrors s' = PushErrors s1))"
proof (cases r1)
  case None
  then show ?thesis using assms by (subst (asm) dockerPushWithRetries.simps) auto
next
  case (Some e)
  let ?s = "push_failed (show_nat attempt) o1 (WriteMainEntry (''Pushing '' @ img) s)"
  have "PushErrors ?s = PushErrors s + 1" by (simp add: push_failed_errors)
  then show ?thesis
    using assms Some by (subst (asm) dockerPushWithRetries.simps) (auto simp: Let_def split: if_splits)
qed

lemma push_retries_issued:
  "dockerPushWithRetries os img attempt s w = ((out, r), s', w') \<Longrightarrow> attempt + n = maxPushRetries \<Longrightarrow>
     \<exists>us. issued w' = issued w @ map (\<lambda>u. push_args u img) us \<and> us \<noteq> [] \<and> length us \<le> Suc n \<and>
       (r \<noteq> None \<longrightarrow> length us = Suc n) \<and>
       PushErrors s' = PushErrors s + (if r = None then length us - 1 else length us)"
proof (induction n arbitrary: attempt s w)
  case 0
  obtain o1 r1 w1 where p: "runWithScrapedLogging os ''PUSH'' (push_args (newUUID os w) img) w = ((o1, r1), w1)"
    by (metis prod.collapse)
  show ?case
    using push_attempt [OF 0(1) p] 0(2) scraped_issued [OF p] by (auto intro!: exI [of _ "[newUUID os w]"])
next
  case (Suc n)
  obtain o1 r1 w1 where p: "runWithScrapedLogging os ''PUSH'' (push_args (newUUID os w) img) w = ((o1, r1), w1)"
    by (metis prod.collapse)
  have i: "issued w1 = issued w @ [push_args (newUUID os w) img]" by (rule scraped_issued [OF p])
  from push_attempt [OF Suc.prems(1) p] show ?case
  proof
    assume "r1 = None \<and> r = None \<and> w' = w1 \<and> PushErrors s' = PushErrors s"
    then show ?thesis using i by (intro exI [of _ "[newUUID os w]"]) simp
  next
    assume "\<exists>e s1. r1 = Some e \<and> PushErrors s1 = PushErrors s + 1 \<and>
      (if attempt < maxPushRetries
       then dockerPushWithRetries os img (Suc attempt) s1 (sleep_backoff os attempt w1) = ((out, r), s', w')
       else r = Some e \<and> w' = w1 \<and> PushErrors s' = PushErrors s1)"
    then obtain s1 where s1: "PushErrors s1 = PushErrors s + 1"
        "dockerPushWithRetries os img (Suc attempt) s1 (sleep_backoff os attempt w1) = ((out, r), s', w')"
      using Suc.prems(2) by auto
    from Suc.IH [OF s1(2)] Suc.prems(2) obtain us where
        us: "issued w' = issued w1 @ map (\<lambda>u. push_args u img) us" "us \<noteq> []" "length us \<le> Suc n"
        "r \<noteq> None \<longrightarrow> length us = Suc n"
        "PushErrors s' = PushErrors s1 + (if r = None then length us - 1 else length us)" by auto
    have "PushErrors s' = PushErrors s + (if r = None then length (newUUID os w # us) - 1 else length (newUUID os w # us))"
      using us(2,5) s1(1) by (cases us) simp_all
    then show ?thesis using us(1-4) i by (intro exI [of _ "newUUID os w # us"]) simp
  qed
qed

end

text \<open>
  A client that also tells how long the program has slept: only the pauses between attempts
  count, and each obeys the limits of \<open>Backoff\<close>.
\<close>

definition pause_ok :: "int \<Rightarrow> bool" where
  "pause_ok d \<longleftrightarrow> baseDelay div 2 \<le> d \<and> d \<le> maxDelay"

lemma Backoff_pause:
  assumes "0 \<le> random" "random < 1"
  shows "pause_ok (Backoff baseDelay maxDelay k random)"
proof -
  have "(0 :: int) \<le> baseDelay" "baseDelay \<le> 2 ^ 53" "0 \<le> maxDelay" "maxDelay \<le> 2 ^ 53" "baseDelay \<le> maxDelay"
    by (simp_all add: baseDelay_def maxDelay_def)
  then show ?thesis using Backoff_limits [OF _ _ _ _ assms, of baseDelay maxDelay k] by (simp add: pause_ok_def)
qed

locale waiting_client = docker_client os issued
  for os :: "'w os" and issued :: "'w \<Rightarrow> string list list" +
  fixes waited :: "'w \<Rightarrow> int list"
  assumes run_waited: "waited (snd (Run os c args w)) = waited w"
    and sleep_waited: "waited (Sleep os d w) = waited w @ [d]"
    and log_waited [simp]: "waited (LogWrite os p out text w) = waited w"
    and random_range: "0 \<le> rand_Float64 os w" "rand_Float64 os w < 1"
begin

lemma log_answer_waited [simp]: "waited (log_answer os prefix a w) = waited w"
proof -
  have "waited (fold (\<lambda>(out, text). LogWrite os (prefix out) out text) xs w) = waited w" for xs
    by (induction xs arbitrary: w) auto
  then show ?thesis by (simp add: log_answer_def)
qed

lemma sleep_backoff_waited: "\<exists>d. waited (sleep_backoff os k w) = waited w @ [d] \<and> pause_ok d"
  using Backoff_pause random_range by (auto simp: sleep_backoff_def sleep_waited)

lemma run_waitedD: "Run os c args w = (a, w') \<Longrightarrow> waited w' = waited w"
  using run_waited [of c args w] by simp

lemma dockerPull_waited: "dockerPull os ident img w = (r, w') \<Longrightarrow> waited w' = waited w"
  by (auto simp: dockerPull_def split: prod.splits dest: run_waitedD)

lemma scraped_waited: "runWithScrapedLogging os p cmd w = (r, w') \<Longrightarrow> waited w' = waited w"
  by (auto simp: runWithScrapedLogging_def split: prod.splits dest: run_waitedD)

lemma first_success_pull_waits:
  "first_success n (dockerPull os ident img) (sleep_backoff os) k w = (r, w') \<Longrightarrow>
     \<exists>cs ds. issued w' = issued w @ cs \<and> waited w' = waited w @ ds \<and> length cs = Suc (length ds) \<and> list_all pause_ok ds"
proof (induction n arbitrary: k w)
  case 0
  then show ?case using dockerPull_issued [of ident img w r w'] dockerPull_waited [of ident img w r w'] by fastforce
next
  case (Suc n)
  obtain r1 w1 where p: "dockerPull os ident img w = (r1, w1)" by fastforce
  note i = dockerPull_issued [OF p] dockerPull_waited [OF p]
  show ?case
  proof (cases r1)
    case (Inl e)
    then have "first_success n (dockerPull os ident img) (sleep_backoff os) (Suc k) (sleep_backoff os k w1) = (r, w')"
      using Suc.prems p by simp
    from Suc.IH [OF this] sleep_backoff_waited [of k w1] obtain cs ds d where
        "issued w' = issued w1 @ cs" "waited w' = (waited w1 @ [d]) @ ds" "length cs = Suc (length ds)"
        "list_all pause_ok ds" "pause_ok d" by auto
    then show ?thesis using i
      by (intro exI [of _ "pull_args (newUUID os w) img # cs"] exI [of _ "d # ds"]) simp
  next
    case (Inr d)
    then show ?thesis using Suc.prems p i by fastforce
  qed
qed

lemma push_retries_waits:
  "dockerPushWithRetries os img attempt s w = ((out, r), s', w') \<Longrightarrow> attempt + n = maxPushRetries \<Longrightarrow>
     \<exists>cs ds. issued w' = issued w @ cs \<and> waited w' = waited w @ ds \<and> length cs = Suc (length ds) \<and> list_all pause_ok ds"
proof (induction n arbitrary: attempt s w)
  case 0
  obtain o1 r1 w1 where p: "runWithScrapedLogging os ''PUSH'' (push_args (newUUID os w) img) w = ((o1, r1), w1)"
    by (metis prod.collapse)
  then have "w' = w1" using push_attempt [OF 0(1) p] 0(2) by (auto split: if_splits)
  then show ?case using scraped_issued [OF p] scraped_waited [OF p] by fastforce
next
  case (Suc n)
  obtain o1 r1 w1 where p: "runWithScrapedLogging os ''PUSH'' (push_args (newUUID os w) img) w = ((o1, r1), w1)"
    by (metis prod.collapse)
  note i = scraped_issued [OF p] scraped_waited [OF p]
  have "w' = w1 \<or> (\<exists>s1. dockerPushWithRetries os img (Suc attempt) s1 (sleep_backoff os attempt w1) = ((out, r), s', w'))"
    using push_attempt [OF Suc.prems(1) p] by (auto split: if_splits)
  then show ?case
  proof
    assume "\<exists>s1. dockerPushWithRetries os img (Suc attempt) s1 (sleep_backoff os attempt w1) = ((out, r), s', w')"
    then obtain s1 where "dockerPushWithRetries os img (Suc attempt) s1 (sleep_backoff os attempt w1) = ((out, r), s', w')"
      by blast
    from Suc.IH [OF this] Suc.prems(2) sleep_backoff_waited [of attempt w1] obtain cs ds d where
        "issued w' = issued w1 @ cs" "waited w' = (waited w1 @ [d]) @ ds" "length cs = Suc (length ds)"
        "list_all pause_ok ds" "pause_ok d" by auto
    then show ?thesis using i
      by (intro exI [of _ "push_args (newUUID os w) img # cs"] exI [of _ "d # ds"]) simp
  qed (use i in fastforce)
qed

end

section \<open>The real runner\<close>

text \<open>
  The surroundings on the machine of \<open>RealRunner\<close>: the names, the clock, the decoder and the
  random numbers are arbitrary.
\<close>

definition real_os ::
  "host \<Rightarrow> (machine \<Rightarrow> int) \<Rightarrow> (machine \<Rightarrow> string) \<Rightarrow> (string \<Rightarrow> string list list option) \<Rightarrow>
     (machine \<Rightarrow> rat) \<Rightarrow> machine os"
where
  "real_os host clock uuids json random =
     \<lparr>Run = RealRunner_Run host, ctx_Err = CtxErr BuildCtx, now_of = clock, newUUID = uuids,
      RepoDigests_of = json, Sleep = (\<lambda>d m. m\<lparr>slept := slept m @ [d]\<rparr>), rand_Float64 = random,
      LogWrite = (\<lambda>prefix out text m. m\<lparr>printed := printed m @ [(prefix, out, text)]\<rparr>)\<rparr>"

interpretation rdocker: docker_client "real_os host clock uuids json random" logged for host clock uuids json random
  by unfold_locales (simp_all add: real_os_def real.run_issued)

text \<open>A source of random numbers in the range of \<open>rand.Float64\<close>.\<close>

definition in_unit :: "rat \<Rightarrow> rat" where
  "in_unit r = r - of_int \<lfloor>r\<rfloor>"

interpretation rwait: waiting_client "real_os host clock uuids json (in_unit \<circ> random)" logged slept
  for host clock uuids json random
proof unfold_locales
  fix c args m
  show "slept (snd (Run (real_os host clock uuids json (in_unit \<circ> random)) c args m)) = slept m"
    by (simp add: real_os_def RealRunner_Run_def Let_def split: outcome.split)
next
  fix m :: machine
  show "0 \<le> rand_Float64 (real_os host clock uuids json (in_unit \<circ> random)) m"
    "rand_Float64 (real_os host clock uuids json (in_unit \<circ> random)) m < 1"
    by (simp_all add: real_os_def in_unit_def) linarith
qed (simp_all add: real_os_def)

section \<open>The life of the credentials\<close>

datatype token_op = SetTok string | UpdateTok string

fun token_op_run :: "'w os \<Rightarrow> token_op \<Rightarrow> bld \<Rightarrow> 'w \<Rightarrow> err option \<times> bld \<times> 'w" where
  "token_op_run os (SetTok tok) s w = SetDockerAccessToken os tok s w"
| "token_op_run os (UpdateTok tok) s w = UpdateDockerAccessToken os tok s w"

text \<open>
  What a successful operation does to the credential in the configuration file: the first
  writes it, the second replaces it where the file holds the value to be replaced.
\<close>

fun credential_after :: "token_op \<Rightarrow> string \<Rightarrow> string option \<Rightarrow> string option" where
  "credential_after (SetTok tok) old c = Some (token_auth tok)"
| "credential_after (UpdateTok tok) old c = (if c = Some old then Some (token_auth tok) else c)"

fun token_run :: "'w os \<Rightarrow> token_op list \<Rightarrow> bld \<Rightarrow> 'w \<Rightarrow> string option \<Rightarrow> bool list \<times> bld \<times> 'w \<times> string option" where
  "token_run os [] s w c = ([], s, w, c)"
| "token_run os (op # ops) s w c =
     (case token_op_run os op s w of
        (r, s', w') \<Rightarrow>
          (case token_run os ops s' w' (if r = None then credential_after op (prevGCRAuth s) c else c) of
             (rs, s'', w'', c') \<Rightarrow> ((r = None) # rs, s'', w'', c')))"

fun op_token :: "token_op \<Rightarrow> string" where
  "op_token (SetTok tok) = tok"
| "op_token (UpdateTok tok) = tok"

text \<open>The token of the last operation that succeeded.\<close>

fun last_token :: "token_op list \<Rightarrow> bool list \<Rightarrow> string option \<Rightarrow> string option" where
  "last_token (op # ops) (r # rs) t = last_token ops rs (if r then Some (op_token op) else t)"
| "last_token _ _ t = t"

lemma token_auth_nonempty: "token_auth tok \<noteq> []"
  by (simp add: token_auth_def EncodeToString_def)

lemma run_token_container_result:
  "run_token_container os prefix script msg auth s w = (r, s', w') \<Longrightarrow>
     s' = (if r = None then s\<lparr>prevGCRAuth := auth\<rparr> else s)"
  by (auto simp: run_token_container_def split: prod.splits option.splits)

lemma token_op_result:
  assumes "token_op_run os op s w = (r, s', w')"
  shows "s' = (if r = None then s\<lparr>prevGCRAuth := token_auth (op_token op)\<rparr> else s)"
    and "r = None \<Longrightarrow> (\<exists>tok. op = UpdateTok tok) \<Longrightarrow> prevGCRAuth s \<noteq> []"
  using assms
  by (cases op; auto simp: SetDockerAccessToken_def UpdateDockerAccessToken_def Let_def
      split: if_splits dest!: run_token_container_result)+

lemma token_run_invariant:
  "token_run os ops s w c = (rs, s', w', c') \<Longrightarrow>
     prevGCRAuth s = (case t of None \<Rightarrow> [] | Some tok \<Rightarrow> token_auth tok) \<Longrightarrow> c = map_option token_auth t \<Longrightarrow>
     length rs = length ops \<and> prevGCRAuth s' = (case last_token ops rs t of None \<Rightarrow> [] | Some tok \<Rightarrow> token_auth tok) \<and>
     c' = map_option token_auth (last_token ops rs t)"
proof (induction ops arbitrary: s w c rs t)
  case (Cons op ops)
  obtain r s1 w1 where op: "token_op_run os op s w = (r, s1, w1)" using prod_cases3 by blast
  let ?c = "if r = None then credential_after op (prevGCRAuth s) c else c"
  let ?t = "if r = None then Some (op_token op) else t"
  obtain rs1 where rest: "token_run os ops s1 w1 ?c = (rs1, s', w', c')" and rs: "rs = (r = None) # rs1"
    using Cons.prems(1) by (auto simp: op split: prod.splits)
  have "prevGCRAuth s1 = (case ?t of None \<Rightarrow> [] | Some tok \<Rightarrow> token_auth tok)"
    using token_op_result(1) [OF op] Cons.prems(2) by simp
  moreover have "?c = map_option token_auth ?t"
    using token_op_result(2) [OF op] Cons.prems(2,3) by (cases op; cases t) auto
  ultimately show ?case using Cons.IH [OF rest] rs by simp
qed simp

section \<open>Properties\<close>

text \<open>
  C29: Pulling with retries is the plain loop: the operation is tried at most eleven times,
  with a pause of \<open>Backoff\<close> before each further attempt, and the first success, or the last
  failure, is the result. Every attempt is one \<open>docker pull\<close> of the image; a failure is
  reported, and logged, only after all eleven.
\<close>

theorem pull_retries:
  "dockerPullWithRetries (real_os host clock uuids json random) ident img 0 s m =
     out_of_retries (first_success 10 (dockerPull (real_os host clock uuids json random) ident img)
       (sleep_backoff (real_os host clock uuids json random)) 0 m) s \<and>
   (\<exists>us r s' m'. dockerPullWithRetries (real_os host clock uuids json random) ident img 0 s m = (r, s', m') \<and>
      logged m' = logged m @ map (\<lambda>u. pull_args u img) us \<and> us \<noteq> [] \<and> length us \<le> 11 \<and>
      (length us = 11 \<or> (\<exists>d. r = Inr d) \<and> s' = s))"
proof -
  let ?os = "real_os host clock uuids json random"
  have eq: "dockerPullWithRetries ?os ident img 0 s m =
      out_of_retries (first_success 10 (dockerPull ?os ident img) (sleep_backoff ?os) 0 m) s"
    using dockerPullWithRetries_first_success [of 0 ?os ident img s m] by (simp add: maxPushRetries_def)
  obtain r m' where r: "first_success 10 (dockerPull ?os ident img) (sleep_backoff ?os) 0 m = (r, m')" by fastforce
  have "\<exists>us. logged m' = logged m @ map (\<lambda>u. pull_args u img) us \<and> us \<noteq> [] \<and> length us \<le> 11 \<and>
      (length us = 11 \<or> (\<exists>d. r = Inr d))"
    using rdocker.first_success_pull_issued [OF r] by (cases r) auto
  then show ?thesis using eq r by (cases r) (auto simp: out_of_retries_def)
qed

text \<open>
  C30: Pushing with retries: at most ten attempts, all of them \<open>docker push\<close> of the image; an
  error is returned only after ten failures, and every failed attempt is counted in
  \<open>PushErrors\<close>. Between two attempts the program sleeps once, for a quarter of a second at
  least and ten seconds at most, so that no push sleeps for more than ninety seconds.
\<close>

theorem push_retries:
  assumes "dockerPushWithRetries (real_os host clock uuids json (in_unit \<circ> random)) img 1 s m = ((out, r), s', m')"
  shows "\<exists>us ds. logged m' = logged m @ map (\<lambda>u. push_args u img) us \<and> us \<noteq> [] \<and> length us \<le> 10 \<and>
     (r \<noteq> None \<longrightarrow> length us = 10) \<and>
     PushErrors s' = PushErrors s + (if r = None then length us - 1 else length us) \<and>
     slept m' = slept m @ ds \<and> length us = Suc (length ds) \<and> list_all pause_ok ds \<and> sum_list ds \<le> 9 * maxDelay"
proof -
  obtain us where us: "logged m' = logged m @ map (\<lambda>u. push_args u img) us" "us \<noteq> []" "length us \<le> 10"
      "r \<noteq> None \<longrightarrow> length us = 10" "PushErrors s' = PushErrors s + (if r = None then length us - 1 else length us)"
    using rdocker.push_retries_issued [OF assms, of 9] by (auto simp: maxPushRetries_def)
  obtain cs ds where ds: "logged m' = logged m @ cs" "slept m' = slept m @ ds" "length cs = Suc (length ds)"
      "list_all pause_ok ds"
    using rwait.push_retries_waits [OF assms, of 9] by (auto simp: maxPushRetries_def)
  have "length us = length cs" using us(1) ds(1) by (metis length_map same_append_eq)
  then have n: "length us = Suc (length ds)" using ds(3) by simp
  have "sum_list ds \<le> int (length ds) * maxDelay" using ds(4)
    by (induction ds) (auto simp: pause_ok_def algebra_simps)
  also have "\<dots> \<le> 9 * maxDelay" using us(3) n by (intro mult_right_mono) (simp_all add: maxDelay_def)
  finally show ?thesis using us ds n by blast
qed

text \<open>A host on which every push fails for lack of a name server.\<close>

definition no_dns :: host where
  "no_dns h c args = Exits [(False, ''no such host'')] (Some (ErrText ''exit status 1''))"

definition idle_machine :: machine where
  "idle_machine = \<lparr>DryRun = False, logged = [], started = [], ctx_err = None, slept = [], printed = []\<rparr>"

lemma no_dns_scraped:
  assumes "\<not> DryRun m"
  obtains out m1 where "runWithScrapedLogging (real_os no_dns clock uuids json random) p cmd m =
      ((out, Some (ErrText ''exit status 1'')), m1)" "\<not> DryRun m1"
  using assms that by (simp add: runWithScrapedLogging_def real_os_def RealRunner_Run_def no_dns_def log_answer_def)

lemma no_dns_push:
  "\<not> DryRun m \<Longrightarrow> attempt + n = maxPushRetries \<Longrightarrow>
     snd (fst (dockerPushWithRetries (real_os no_dns clock uuids json random) img attempt s m)) =
       Some (ErrText ''exit status 1'')"
proof (induction n arbitrary: attempt s m)
  case 0
  obtain out m1 where "runWithScrapedLogging (real_os no_dns clock uuids json random) ''PUSH''
      (push_args (newUUID (real_os no_dns clock uuids json random) m) img) m = ((out, Some (ErrText ''exit status 1'')), m1)"
    using no_dns_scraped [OF 0(1)] by metis
  then show ?case using 0(2) by (subst dockerPushWithRetries.simps) (simp add: Let_def)
next
  case (Suc n)
  let ?os = "real_os no_dns clock uuids json random"
  obtain out m1 where r: "runWithScrapedLogging ?os ''PUSH'' (push_args (newUUID ?os m) img) m =
      ((out, Some (ErrText ''exit status 1'')), m1)" "\<not> DryRun m1"
    using no_dns_scraped [OF Suc.prems(1)] by metis
  have "\<not> DryRun (sleep_backoff ?os attempt m1)" using r(2) by (simp add: sleep_backoff_def real_os_def)
  then show ?case
    using r Suc.prems(2) Suc.IH [of "sleep_backoff ?os attempt m1" "Suc attempt"]
    by (subst dockerPushWithRetries.simps) (simp add: Let_def)
qed

theorem push_retries_witness:
  "let r = dockerPushWithRetries (real_os no_dns (\<lambda>_. 0) (\<lambda>_. ''u'') (\<lambda>_. None) (in_unit \<circ> (\<lambda>_. 0))) ''gcr.io/p/a'' 1
         (New_build 0 empty_build) idle_machine
   in snd (fst r) = Some (ErrText ''exit status 1'') \<and> PushErrors (fst (snd r)) = 10 \<and>
      length (logged (snd (snd r))) = 10 \<and> length (slept (snd (snd r))) = 9"
proof -
  let ?r = "dockerPushWithRetries (real_os no_dns (\<lambda>_. 0) (\<lambda>_. ''u'') (\<lambda>_. None) (in_unit \<circ> (\<lambda>_. 0))) ''gcr.io/p/a'' 1
         (New_build 0 empty_build) idle_machine"
  have fails: "snd (fst ?r) = Some (ErrText ''exit status 1'')"
    by (rule no_dns_push [of _ _ 9]) (simp_all add: idle_machine_def maxPushRetries_def)
  have run: "?r = ((fst (fst ?r), Some (ErrText ''exit status 1'')), fst (snd ?r), snd (snd ?r))"
    using fails by (metis prod.collapse)
  show ?thesis
    unfolding Let_def using push_retries [OF run] fails by (auto simp: idle_machine_def New_build_def)
qed


text \<open>
  The script that replaces a credential is a well-formed \<open>sed\<close> command if the two tokens
  are printable ASCII without a question mark: neither credential holds a slash, the
  delimiter, or a character that is special to \<open>sed\<close> or to the shell.
\<close>

theorem update_script_wellformed:
  assumes "\<forall>c\<in>set old \<union> set new. (of_char c :: nat) < 127 \<and> c \<noteq> CHR 0x3F"
  shows "count_list (update_script (token_auth old) (token_auth new)) CHR 0x2F = 5 \<and>
    set (token_auth new) \<subseteq> set alphabet \<union> {CHR ''=''}"
proof
  have pre: "\<forall>c\<in>set (''oauth2accesstoken:'' @ tok). (of_char c :: nat) < 127 \<and> c \<noteq> CHR 0x3F"
    if "\<forall>c\<in>set tok. (of_char c :: nat) < 127 \<and> c \<noteq> CHR 0x3F" for tok
    using that by auto
  have "CHR 0x2F \<notin> set (token_auth old)" "CHR 0x2F \<notin> set (token_auth new)"
    unfolding token_auth_def using assms by (intro EncodeToString_no_slash pre; blast)+
  then show "count_list (update_script (token_auth old) (token_auth new)) CHR 0x2F = 5"
    by (simp add: update_script_def)
  show "set (token_auth new) \<subseteq> set alphabet \<union> {CHR ''=''}"
    using EncodeToString_chars by (auto simp: token_auth_def)
qed

theorem update_script_wellformed_witness:
  "count_list (update_script (token_auth ''ya29.A-b_c'') (token_auth ''ya29.D'')) CHR 0x2F = 5"
  by (rule update_script_wellformed [THEN conjunct1]) simp

text \<open>A token with a question mark breaks the script: the credential has a slash of its own.\<close>

lemma update_script_extra_slash:
  "count_list (update_script (token_auth ''aa'') (token_auth ''aa?'')) CHR 0x2F = 6"
  by code_simp

end
