(* ===== verification/Gsutil.thy ===== *)
theory Gsutil
  imports Docker_Ops GoPath
begin

text \<open>
  Package \<open>gsutil\<close> (\<open>gsutil/gsutil.go\<close>): copying artifacts to a bucket in a container and
  reading the manifest that \<open>gsutil cp\<close> leaves. The file system is a third-party interface
  (\<open>afero.Fs\<close>) whose files the container writes too: what its operations return is a
  parameter. The reader of comma separated values follows \<open>encoding/csv\<close> with its default
  settings; the JSON encoder is a parameter.
\<close>

section \<open>Comma separated values\<close>

text \<open>A carriage return before a line feed or at the end of the file is dropped.\<close>

fun drop_cr :: "string \<Rightarrow> string" where
  "drop_cr [] = []"
| "drop_cr (c # s) =
     (if c = CHR 0x0D \<and> (case s of [] \<Rightarrow> True | d # _ \<Rightarrow> d = CHR 0x0A) then drop_cr s else c # drop_cr s)"

text \<open>The rest of a quoted field, after the opening quote; a doubled quote stands for one.\<close>

fun csv_quoted :: "string \<Rightarrow> (string \<times> string) option" where
  "csv_quoted [] = None"
| "csv_quoted (c # s) =
     (if c = CHR 0x22 then
        (case s of
           d # t \<Rightarrow> if d = CHR 0x22 then map_option (\<lambda>(f, r). (CHR 0x22 # f, r)) (csv_quoted t) else Some ([], s)
         | [] \<Rightarrow> Some ([], []))
      else map_option (\<lambda>(f, r). (c # f, r)) (csv_quoted s))"

lemma csv_quoted_shorter: "csv_quoted s = Some (f, r) \<Longrightarrow> length r < length s"
proof (induction s arbitrary: f r rule: csv_quoted.induct)
  case (2 c s)
  show ?case
  proof (cases "c = CHR 0x22")
    case True
    then show ?thesis using 2 by (cases s) (fastforce split: if_splits)+
  next
    case False
    then show ?thesis using 2 by fastforce
  qed
qed simp

definition plain_field :: "string \<Rightarrow> string \<times> string" where
  "plain_field s =
     (takeWhile (\<lambda>c. c \<noteq> CHR '','' \<and> c \<noteq> CHR 0x0A) s, dropWhile (\<lambda>c. c \<noteq> CHR '','' \<and> c \<noteq> CHR 0x0A) s)"

lemma plain_field_shorter: "plain_field s = (f, c # r) \<Longrightarrow> length r < length s"
  using length_dropWhile_le [of "\<lambda>c. c \<noteq> CHR '','' \<and> c \<noteq> CHR 0x0A" s] by (auto simp: plain_field_def)

text \<open>One field: its text and what follows; \<open>None\<close> for a misplaced quote.\<close>

definition csv_field :: "string \<Rightarrow> (string \<times> string) option" where
  "csv_field s =
     (case s of
        c # t \<Rightarrow> if c = CHR 0x22 then csv_quoted t
                 else if CHR 0x22 \<in> set (fst (plain_field s)) then None else Some (plain_field s)
      | [] \<Rightarrow> Some ([], []))"

lemma csv_field_shorter: "csv_field s = Some (f, c # r) \<Longrightarrow> length r < length s"
  by (auto simp: csv_field_def split: list.splits if_splits
      dest!: csv_quoted_shorter sym [of "(f, c # r)"] dest: plain_field_shorter)

function csv_record :: "string \<Rightarrow> (string list \<times> string) option" where
  "csv_record s =
     (case csv_field s of
        None \<Rightarrow> None
      | Some (f, []) \<Rightarrow> Some ([f], [])
      | Some (f, c # r) \<Rightarrow>
          if c = CHR '','' then map_option (\<lambda>(fs, rest). (f # fs, rest)) (csv_record r)
          else if c = CHR 0x0A then Some ([f], r)
          else None)"
  by pat_completeness auto
termination
  by (relation "measure length") (auto dest: csv_field_shorter)

declare csv_record.simps [simp del]

datatype csv_read = EndOfFile | BadRecord | Fields "string list" string

text \<open>One call of \<open>Read\<close>: empty lines are skipped, a record must have ten fields.\<close>

definition csvHeaders :: "string list" where
  "csvHeaders = [''Source'', ''Destination'', ''Start'', ''End'', ''Md5'', ''UploadId'', ''Source Size'',
     ''Bytes Transferred'', ''Result'', ''Description'']"

definition Read :: "string \<Rightarrow> csv_read" where
  "Read s =
     (case dropWhile (\<lambda>c. c = CHR 0x0A) s of
        [] \<Rightarrow> EndOfFile
      | t \<Rightarrow> (case csv_record t of
               None \<Rightarrow> BadRecord
             | Some (fs, r) \<Rightarrow> if length fs = length csvHeaders then Fields fs r else BadRecord))"

lemma csv_record_shorter: "csv_record s = Some (fs, r) \<Longrightarrow> s \<noteq> [] \<Longrightarrow> length r < length s"
proof (induction s arbitrary: fs r rule: csv_record.induct)
  case (1 s)
  obtain f t where f: "csv_field s = Some (f, t)"
    using 1(2) by (subst (asm) csv_record.simps) (auto split: option.splits)
  show ?case
  proof (cases t)
    case Nil
    then show ?thesis using 1(2,3) f by (subst (asm) csv_record.simps) simp
  next
    case (Cons c t')
    have short: "length t' < length s" using csv_field_shorter f Cons by blast
    show ?thesis
    proof (cases "c = CHR '','' \<and> t' \<noteq> []")
      case True
      then obtain fs' where "csv_record t' = Some (fs', r)"
        using 1(2) f Cons by (subst (asm) csv_record.simps) auto
      then have "length r < length t'" using 1(1) [OF f refl Cons] True by blast
      then show ?thesis using short by simp
    next
      case False
      have "csv_record [] = Some ([[]], [])" by (subst csv_record.simps) (simp add: csv_field_def)
      then show ?thesis using 1(2) f Cons False short
        by (subst (asm) csv_record.simps) (auto split: if_splits)
    qed
  qed
qed

lemma Read_shorter:
  assumes "Read s = Fields fs r"
  shows "length r < length s"
proof -
  let ?t = "dropWhile (\<lambda>c. c = CHR 0x0A) s"
  have "?t \<noteq> [] \<and> csv_record ?t = Some (fs, r)"
    using assms by (cases ?t; cases "csv_record ?t") (auto simp: Read_def split: if_splits prod.splits)
  then have "length r < length ?t" using csv_record_shorter by blast
  also have "\<dots> \<le> length s" by (rule length_dropWhile_le)
  finally show ?thesis .
qed

section \<open>The manifest of a copy\<close>

record artifact_result =
  r_Location :: string
  r_Md5 :: string

function manifest_rows :: "string \<Rightarrow> err + artifact_result list" where
  "manifest_rows s =
     (case Read s of
        EndOfFile \<Rightarrow> Inr []
      | BadRecord \<Rightarrow> Inl (ErrText ''malformed record'')
      | Fields values r \<Rightarrow>
          if values ! 8 = ''error'' then
            Inl (ErrText (''error copying '' @ values ! 0 @ '' to '' @ values ! 1 @ '': '' @ values ! 9))
          else if values ! 8 = ''skip'' then
            Inl (ErrText (''skipped copying '' @ values ! 0 @ '' to '' @ values ! 1 @ '': '' @ values ! 9))
          else (case manifest_rows r of
                  Inl e \<Rightarrow> Inl e
                | Inr rs \<Rightarrow> Inr (\<lparr>r_Location = values ! 1, r_Md5 = values ! 4\<rparr> # rs)))"
  by pat_completeness auto
termination
  by (relation "measure length") (auto dest: Read_shorter)

declare manifest_rows.simps [simp del]

text \<open>\<open>parseGsutilManifest\<close>, from what opening and reading the file gives.\<close>

definition parseGsutilManifest :: "string \<Rightarrow> err + string \<Rightarrow> err + artifact_result list" where
  "parseGsutilManifest manifestPath f =
     (case f of
        Inl e \<Rightarrow> Inl (ErrWrap (''could not open '' @ manifestPath) e)
      | Inr content \<Rightarrow>
          (case Read (drop_cr content) of
             EndOfFile \<Rightarrow> Inl (ErrText (''could not read '' @ manifestPath @ '': err = EOF''))
           | BadRecord \<Rightarrow> Inl (ErrText (''could not read '' @ manifestPath @ '': err = malformed record''))
           | Fields values r \<Rightarrow>
               if values \<noteq> csvHeaders then Inl (ErrText ''got csv headers'')
               else manifest_rows r))"

section \<open>The helper\<close>

record 'w files =
  TempFile :: "string \<Rightarrow> string \<Rightarrow> 'w \<Rightarrow> (err + string) \<times> 'w"
  ReadFile :: "string \<Rightarrow> 'w \<Rightarrow> err + string"
  WriteOver :: "string \<Rightarrow> string \<Rightarrow> 'w \<Rightarrow> err option \<times> 'w"
  RemoveFile :: "string \<Rightarrow> 'w \<Rightarrow> 'w"
  EncodeResult :: "artifact_result \<Rightarrow> string"

record docker_flags =
  Workvol :: string
  Workdir :: string
  Tmpdir :: string

definition verify_args :: "string \<Rightarrow> string \<Rightarrow> string list" where
  "verify_args uuid bucket =
     [''docker'', ''run'', ''--name'', ''cloudbuild_gsutil_ls_'' @ uuid, ''--rm'',
      ''--volume'', ''/var/run/docker.sock:/var/run/docker.sock'', ''--network'', ''cloudbuild'',
      ''gcr.io/cloud-builders/gsutil'', ''ls'', bucket]"

definition VerifyBucket :: "'w os \<Rightarrow> string \<Rightarrow> 'w \<Rightarrow> err option \<times> 'w" where
  "VerifyBucket os bucket w =
     (case Run os BuildCtx (verify_args (newUUID os w) bucket) w of
        (a, w) \<Rightarrow>
          (if run_err a = ctx_Err os w then run_err a
           else Some (ErrText (''bucket '' @ Quote bucket @ '' does not exist'')), w))"

definition gsutil_args :: "string \<Rightarrow> docker_flags \<Rightarrow> string list \<Rightarrow> string list" where
  "gsutil_args uuid flags cmd =
     [''docker'', ''run'', ''--name'', ''cloudbuild_gsutil_'' @ uuid, ''--rm'',
      ''--volume'', ''/var/run/docker.sock:/var/run/docker.sock'', ''--volume'', Workvol flags,
      ''--workdir'', Workdir flags, ''--network'', ''cloudbuild'', ''--entrypoint'', ''bash''] @
     (if Tmpdir flags \<noteq> [] then [''--volume'', Tmpdir flags @ '':'' @ Tmpdir flags] else []) @
     [''gcr.io/cloud-builders/gsutil'', ''-c'', ''gsutil '' @ join '' '' cmd]"

text \<open>With a label what the command writes goes to the log too, write by write.\<close>

definition runWithOptionalLogging ::
  "'w os \<Rightarrow> bool \<Rightarrow> string \<Rightarrow> string list \<Rightarrow> 'w \<Rightarrow> (string \<times> err option) \<times> 'w"
where
  "runWithOptionalLogging os hasLogging label cmd w =
     (case Run os BuildCtx cmd w of
        (a, w) \<Rightarrow> ((output_of a, run_err a), if hasLogging then log_answer os (\<lambda>_. label) a w else w))"

definition runGsutil ::
  "'w os \<Rightarrow> string \<Rightarrow> docker_flags \<Rightarrow> string list \<Rightarrow> 'w \<Rightarrow> (string \<times> err option) \<times> 'w"
where
  "runGsutil os label flags cmd w =
     (if Workvol flags = [] then (([], Some (ErrText ''flags.Workvol has no value'')), w)
      else if Workdir flags = [] then (([], Some (ErrText ''flags.Workdir has no value'')), w)
      else runWithOptionalLogging os (label \<noteq> []) label (gsutil_args (newUUID os w) flags cmd) w)"

text \<open>The largest line in the order of bytes.\<close>

definition max_line :: "string list \<Rightarrow> string" where
  "max_line ls = foldl (\<lambda>mx l. if mx < l then l else mx) [] ls"

definition getGeneration :: "'w os \<Rightarrow> docker_flags \<Rightarrow> string \<Rightarrow> 'w \<Rightarrow> (err + string) \<times> 'w" where
  "getGeneration os flags url w =
     (case runGsutil os [] flags [''ls'', ''-a'', url] w of
        ((output, Some e), w) \<Rightarrow> (Inl e, w)
      | ((output, None), w) \<Rightarrow>
          (let mx = max_line (split_on CHR 0x0A output)
           in if mx = [] then (Inl (ErrText (''could not find most recent generation for '' @ Quote url)), w)
              else (Inr mx, w)))"

fun update_locations ::
  "'w os \<Rightarrow> docker_flags \<Rightarrow> artifact_result list \<Rightarrow> 'w \<Rightarrow> (err + artifact_result list) \<times> 'w"
where
  "update_locations os flags [] w = (Inr [], w)"
| "update_locations os flags (r # rs) w =
     (case getGeneration os flags (r_Location r) w of
        (Inl e, w) \<Rightarrow> (Inl e, w)
      | (Inr newLoc, w) \<Rightarrow>
          (case update_locations os flags rs w of
             (Inl e, w) \<Rightarrow> (Inl e, w)
           | (Inr rs, w) \<Rightarrow> (Inr (r\<lparr>r_Location := newLoc\<rparr> # rs), w)))"

definition UploadArtifacts ::
  "'w os \<Rightarrow> 'w files \<Rightarrow> docker_flags \<Rightarrow> string \<Rightarrow> string \<Rightarrow> 'w \<Rightarrow> (err + artifact_result list) \<times> 'w"
where
  "UploadArtifacts os fs flags src dest w =
     (if Tmpdir flags = [] then (Inl (ErrText ''flags.Tmpdir has no value''), w)
      else case TempFile fs (Tmpdir flags) (''manifest_'' @ newUUID os w @ ''.log'') w of
             (Inl e, w) \<Rightarrow> (Inl e, w)
           | (Inr gsutilManifest, w) \<Rightarrow>
               (case runGsutil os src flags [''-m'', ''cp'', ''-L'', gsutilManifest, src, dest] w of
                  ((output, Some e), w) \<Rightarrow> (Inl e, w)
                | ((output, None), w) \<Rightarrow>
                    (case parseGsutilManifest gsutilManifest (ReadFile fs gsutilManifest w) of
                       Inl e \<Rightarrow> (Inl e, w)
                     | Inr results \<Rightarrow> update_locations os flags results w)))"

definition createArtifactsManifest :: "'w files \<Rightarrow> string \<Rightarrow> artifact_result list \<Rightarrow> 'w \<Rightarrow> err option \<times> 'w" where
  "createArtifactsManifest fs manifestPath results w =
     WriteOver fs manifestPath (concat (map (EncodeResult fs) results)) w"

definition UploadArtifactsManifest ::
  "'w os \<Rightarrow> 'w files \<Rightarrow> docker_flags \<Rightarrow> string \<Rightarrow> string \<Rightarrow> artifact_result list \<Rightarrow> 'w \<Rightarrow> (err + string) \<times> 'w"
where
  "UploadArtifactsManifest os fs flags manifest bucket results w =
     (let manifestPath = path_join [Tmpdir flags, manifest]
      in case createArtifactsManifest fs manifestPath results w of
           (Some e, w) \<Rightarrow> (Inl e, w)
         | (None, w) \<Rightarrow>
             (case runGsutil os [] flags [''cp'', manifestPath, bucket] w of
                ((output, Some e), w) \<Rightarrow> (Inl e, RemoveFile fs manifestPath w)
              | ((output, None), w) \<Rightarrow>
                  (Inr (join ''/'' [trim_suffix bucket ''/'', manifest]), RemoveFile fs manifestPath w)))"

section \<open>Reading back what a writer of comma separated values writes\<close>

definition quote_field :: "string \<Rightarrow> string" where
  "quote_field f = CHR 0x22 # concat (map (\<lambda>c. if c = CHR 0x22 then [CHR 0x22, CHR 0x22] else [c]) f) @ [CHR 0x22]"

definition render_row :: "string list \<Rightarrow> string" where
  "render_row fs = join '','' (map quote_field fs) @ [CHR 0x0A]"

lemma csv_quoted_render:
  "(case rest of c # _ \<Rightarrow> c \<noteq> CHR 0x22 | [] \<Rightarrow> True) \<Longrightarrow>
     csv_quoted (concat (map (\<lambda>c. if c = CHR 0x22 then [CHR 0x22, CHR 0x22] else [c]) f) @ CHR 0x22 # rest) =
       Some (f, rest)"
  by (induction f) (auto split: list.splits)

lemma csv_field_render:
  "(case rest of c # _ \<Rightarrow> c \<noteq> CHR 0x22 | [] \<Rightarrow> True) \<Longrightarrow> csv_field (quote_field f @ rest) = Some (f, rest)"
  using csv_quoted_render [of rest f] by (simp add: csv_field_def quote_field_def)

lemma csv_record_render: "fs \<noteq> [] \<Longrightarrow> csv_record (render_row fs @ rest) = Some (fs, rest)"
proof (induction fs rule: induct_list012)
  case (2 f)
  have "csv_field (quote_field f @ CHR 0x0A # rest) = Some (f, CHR 0x0A # rest)" by (rule csv_field_render) simp
  then show ?case by (subst csv_record.simps) (simp add: render_row_def)
next
  case (3 f g fs)
  let ?tail = "render_row (g # fs) @ rest"
  have "csv_field (quote_field f @ CHR '','' # ?tail) = Some (f, CHR '','' # ?tail)" by (rule csv_field_render) simp
  moreover have "render_row (f # g # fs) @ rest = quote_field f @ CHR '','' # ?tail" by (simp add: render_row_def)
  ultimately show ?case using 3 by (subst csv_record.simps) simp
qed simp

lemma render_row_start: "fs \<noteq> [] \<Longrightarrow> \<exists>t. render_row fs = CHR 0x22 # t"
  by (cases fs rule: list.exhaust; cases "tl fs") (auto simp: render_row_def quote_field_def)

lemma Read_render:
  assumes "length fs = length csvHeaders"
  shows "Read (render_row fs @ rest) = Fields fs rest"
proof -
  have ne: "fs \<noteq> []" using assms by (auto simp: csvHeaders_def)
  then obtain t where t: "render_row fs = CHR 0x22 # t" using render_row_start by blast
  then have "dropWhile (\<lambda>c. c = CHR 0x0A) (render_row fs @ rest) = CHR 0x22 # t @ rest" by simp
  then show ?thesis using csv_record_render [OF ne, of rest] assms t by (simp add: Read_def)
qed

lemma drop_cr_id: "CHR 0x0D \<notin> set s \<Longrightarrow> drop_cr s = s"
  by (induction s) auto

lemma render_row_no_cr: "\<forall>f\<in>set fs. CHR 0x0D \<notin> set f \<Longrightarrow> CHR 0x0D \<notin> set (render_row fs)"
proof -
  have q: "CHR 0x0D \<notin> set f \<Longrightarrow> CHR 0x0D \<notin> set (quote_field f)" for f
    by (auto simp: quote_field_def split: if_splits)
  assume "\<forall>f\<in>set fs. CHR 0x0D \<notin> set f"
  then have "CHR 0x0D \<notin> set (join '','' (map quote_field fs))"
    using q by (induction fs rule: induct_list012) auto
  then show ?thesis by (simp add: render_row_def)
qed

text \<open>The result for a list of rows, without the file format.\<close>

fun rows_result :: "string list list \<Rightarrow> err + artifact_result list" where
  "rows_result [] = Inr []"
| "rows_result (values # rows) =
     (if values ! 8 = ''error'' then
        Inl (ErrText (''error copying '' @ values ! 0 @ '' to '' @ values ! 1 @ '': '' @ values ! 9))
      else if values ! 8 = ''skip'' then
        Inl (ErrText (''skipped copying '' @ values ! 0 @ '' to '' @ values ! 1 @ '': '' @ values ! 9))
      else (case rows_result rows of
              Inl e \<Rightarrow> Inl e
            | Inr rs \<Rightarrow> Inr (\<lparr>r_Location = values ! 1, r_Md5 = values ! 4\<rparr> # rs)))"

lemma manifest_rows_render:
  "\<forall>fs\<in>set rows. length fs = length csvHeaders \<Longrightarrow>
     manifest_rows (concat (map render_row rows)) = rows_result rows"
proof (induction rows)
  case Nil
  show ?case by (subst manifest_rows.simps) (simp add: Read_def)
next
  case (Cons fs rows)
  then have "Read (concat (map render_row (fs # rows))) = Fields fs (concat (map render_row rows))"
    using Read_render [of fs] by simp
  then show ?case using Cons by (subst manifest_rows.simps) simp
qed

section \<open>The most recent generation\<close>

lemma max_line_step: "foldl (\<lambda>mx l. if mx < l then l else mx) acc ls = Max (set (acc # ls))"
  for acc :: string
proof (induction ls arbitrary: acc)
  case (Cons l ls)
  have "(if acc < l then l else acc) = max acc l" by (auto simp: max_def dest: less_imp_le)
  then have "foldl (\<lambda>mx l. if mx < l then l else mx) acc (l # ls) = Max (set (max acc l # ls))"
    using Cons [of "max acc l"] by simp
  also have "\<dots> = Max (set (acc # l # ls))" by (cases "ls = []") (simp_all add: max.assoc)
  finally show ?case .
qed simp

lemma empty_line_least: "[] \<le> (s :: string)"
  by simp

lemma max_line_Max: "ls \<noteq> [] \<Longrightarrow> max_line ls = Max (set ls)"
  unfolding max_line_def max_line_step by (simp add: max_def)

text \<open>The order is that of the text, not of the generation number.\<close>

lemma getGeneration_lexicographic:
  "max_line [''gs://b/o#9'', ''gs://b/o#10''] = ''gs://b/o#9''"
  by code_simp

section \<open>The commands of the helper\<close>

text \<open>The operations on files issue no commands.\<close>

locale gsutil_client = docker_client os issued
  for os :: "'w os" and issued :: "'w \<Rightarrow> string list list" +
  fixes fs :: "'w files"
  assumes temp_issued: "issued (snd (TempFile fs dir pat w)) = issued w"
    and write_issued: "issued (snd (WriteOver fs p content w)) = issued w"
    and remove_issued: "issued (RemoveFile fs p w) = issued w"
begin

lemma runGsutil_issued:
  assumes "runGsutil os label flags cmd w = ((output, r), w')"
  shows "issued w' = issued w @ (if Workvol flags = [] \<or> Workdir flags = [] then []
     else [gsutil_args (newUUID os w) flags cmd])" "Workvol flags = [] \<or> Workdir flags = [] \<Longrightarrow> r \<noteq> None"
  using assms os_issued [of BuildCtx "gsutil_args (newUUID os w) flags cmd" w]
  by (auto simp: runGsutil_def runWithOptionalLogging_def split: if_splits prod.splits)

lemma runGsutil_ok:
  assumes "runGsutil os label flags cmd w = ((output, None), w')"
  shows "issued w' = issued w @ [gsutil_args (newUUID os w) flags cmd]"
  using runGsutil_issued [OF assms] by auto

text \<open>For every result one listing is issued, in order.\<close>

lemma update_locations_issued:
  "update_locations os flags rs w = (Inr rs', w') \<Longrightarrow>
     length rs' = length rs \<and> map r_Md5 rs' = map r_Md5 rs \<and>
     (\<exists>us. length us = length rs \<and>
       issued w' = issued w @ map2 (\<lambda>u r. gsutil_args u flags [''ls'', ''-a'', r_Location r]) us rs)"
proof (induction rs arbitrary: w rs')
  case (Cons r rs)
  obtain g w1 where g: "getGeneration os flags (r_Location r) w = (Inr g, w1)"
    using Cons.prems by (auto split: prod.splits sum.splits)
  then obtain rs1 where rest: "update_locations os flags rs w1 = (Inr rs1, w')" "rs' = r\<lparr>r_Location := g\<rparr> # rs1"
    using Cons.prems by (auto split: prod.splits sum.splits)
  obtain out where "runGsutil os [] flags [''ls'', ''-a'', r_Location r] w = ((out, None), w1)"
    using g by (auto simp: getGeneration_def Let_def split: prod.splits option.splits if_splits)
  from runGsutil_ok [OF this] Cons.IH [OF rest(1)] obtain us where
      "length rs1 = length rs" "map r_Md5 rs1 = map r_Md5 rs" "length us = length rs"
      "issued w' = issued w @ [gsutil_args (newUUID os w) flags [''ls'', ''-a'', r_Location r]] @
         map2 (\<lambda>u r. gsutil_args u flags [''ls'', ''-a'', r_Location r]) us rs" by auto
  then show ?case using rest(2) by (auto intro!: exI [of _ "newUUID os w # us"])
qed simp

text \<open>An upload that succeeds: one copy, then a listing of every file of the manifest.\<close>

lemma UploadArtifacts_issued:
  assumes "UploadArtifacts os fs flags src dest w = (Inr results, w')"
  shows "\<exists>manifest content listed us. parseGsutilManifest manifest content = Inr listed \<and>
     map r_Md5 results = map r_Md5 listed \<and> length us = Suc (length listed) \<and>
     issued w' = issued w @ gsutil_args (hd us) flags [''-m'', ''cp'', ''-L'', manifest, src, dest] #
       map2 (\<lambda>u r. gsutil_args u flags [''ls'', ''-a'', r_Location r]) (tl us) listed"
proof -
  obtain m w1 where m: "TempFile fs (Tmpdir flags) (''manifest_'' @ newUUID os w @ ''.log'') w = (Inr m, w1)"
    using assms by (auto simp: UploadArtifacts_def split: if_splits prod.splits sum.splits)
  obtain out w2 where cp: "runGsutil os src flags [''-m'', ''cp'', ''-L'', m, src, dest] w1 = ((out, None), w2)"
    using assms m by (auto simp: UploadArtifacts_def split: if_splits prod.splits sum.splits option.splits)
  obtain listed where l: "parseGsutilManifest m (ReadFile fs m w2) = Inr listed"
      "update_locations os flags listed w2 = (Inr results, w')"
    using assms m cp by (auto simp: UploadArtifacts_def split: if_splits sum.splits)
  obtain us where us: "length us = length listed" "map r_Md5 results = map r_Md5 listed"
      "issued w' = issued w2 @ map2 (\<lambda>u r. gsutil_args u flags [''ls'', ''-a'', r_Location r]) us listed"
    using update_locations_issued [OF l(2)] by blast
  have "issued w1 = issued w" using temp_issued m by (metis snd_conv)
  then have "issued w' = issued w @ gsutil_args (hd (newUUID os w1 # us)) flags [''-m'', ''cp'', ''-L'', m, src, dest] #
       map2 (\<lambda>u r. gsutil_args u flags [''ls'', ''-a'', r_Location r]) (tl (newUUID os w1 # us)) listed"
    using runGsutil_ok [OF cp] us(3) by simp
  moreover have "length (newUUID os w1 # us) = Suc (length listed)" using us(1) by simp
  ultimately show ?thesis using l(1) us(2) by blast
qed

end

text \<open>
  On the machine of \<open>RealRunner\<close> what the operations on files return is arbitrary; they may
  depend on every command issued before.
\<close>

definition real_files ::
  "(string \<Rightarrow> string \<Rightarrow> machine \<Rightarrow> err + string) \<Rightarrow> (string \<Rightarrow> machine \<Rightarrow> err + string) \<Rightarrow>
   (string \<Rightarrow> string \<Rightarrow> machine \<Rightarrow> err option) \<Rightarrow> (artifact_result \<Rightarrow> string) \<Rightarrow> machine files"
where
  "real_files temp rd wr enc =
     \<lparr>TempFile = (\<lambda>dir pat m. (temp dir pat m, m)), ReadFile = rd, WriteOver = (\<lambda>p c m. (wr p c m, m)),
      RemoveFile = (\<lambda>p m. m), EncodeResult = enc\<rparr>"

interpretation rgsutil: gsutil_client "real_os host clock uuids json random" logged "real_files temp rd wr enc"
  for host clock uuids json random temp rd wr enc
  by unfold_locales (simp_all add: real_files_def)

section \<open>Properties\<close>

text \<open>
  C36: Reading the manifest of a copy is the inverse of writing it: for every list of rows
  of ten fields, with any commas, quotes and line feeds in the fields, the rows written
  with quoted fields below the header give the location and the hash of every row, or the
  error of the first row that reports an error or a skipped file.
\<close>

theorem parseGsutilManifest_render:
  assumes "\<forall>fs\<in>set rows. length fs = length csvHeaders \<and> (\<forall>f\<in>set fs. CHR 0x0D \<notin> set f)"
  shows "parseGsutilManifest path (Inr (concat (map render_row (csvHeaders # rows)))) = rows_result rows"
proof -
  have "\<forall>f\<in>set csvHeaders. CHR 0x0D \<notin> set f" by (simp add: csvHeaders_def)
  then have "CHR 0x0D \<notin> set (concat (map render_row (csvHeaders # rows)))"
    using assms render_row_no_cr by auto
  from drop_cr_id [OF this]
  have "Read (drop_cr (concat (map render_row (csvHeaders # rows)))) = Fields csvHeaders (concat (map render_row rows))"
    using Read_render [of csvHeaders] by simp
  then show ?thesis
    using manifest_rows_render [of rows] assms by (simp add: parseGsutilManifest_def)
qed

theorem parseGsutilManifest_render_witness:
  "parseGsutilManifest ''m'' (Inr (concat (map render_row (csvHeaders #
     [[''a'', ''gs://b/x,y'', [], [], ''h'', [], [], [], ''OK'', []]])))) =
   Inr [\<lparr>r_Location = ''gs://b/x,y'', r_Md5 = ''h''\<rparr>]"
proof -
  have "parseGsutilManifest ''m'' (Inr (concat (map render_row (csvHeaders #
     [[''a'', ''gs://b/x,y'', [], [], ''h'', [], [], [], ''OK'', []]])))) =
     rows_result [[''a'', ''gs://b/x,y'', [], [], ''h'', [], [], [], ''OK'', []]]"
    by (rule parseGsutilManifest_render) (simp add: csvHeaders_def)
  then show ?thesis by simp
qed

text \<open>
  An upload that succeeds has copied the source once, with the manifest, and then has
  asked for the generation of every file the manifest lists, in order; the results carry
  the hashes of the manifest.
\<close>

theorem UploadArtifacts_commands:
  assumes "UploadArtifacts (real_os host clock uuids json random) (real_files temp rd wr enc) flags src dest m = (Inr results, m')"
  shows "\<exists>manifest content listed us. parseGsutilManifest manifest content = Inr listed \<and>
     map r_Md5 results = map r_Md5 listed \<and> length us = Suc (length listed) \<and>
     logged m' = logged m @ gsutil_args (hd us) flags [''-m'', ''cp'', ''-L'', manifest, src, dest] #
       map2 (\<lambda>u r. gsutil_args u flags [''ls'', ''-a'', r_Location r]) (tl us) listed"
  by (rule rgsutil.UploadArtifacts_issued [OF assms])

definition listing_host :: host where
  "listing_host h c args = Exits [(True, ''gs://b/x#7'')] None"

definition one_row :: string where
  "one_row = concat (map render_row [csvHeaders, [''a'', ''gs://b/x'', [], [], ''h'', [], [], [], ''OK'', []]])"

theorem UploadArtifacts_commands_witness:
  "\<exists>m'. UploadArtifacts (real_os listing_host (\<lambda>_. 0) (\<lambda>_. ''u'') (\<lambda>_. None) (\<lambda>_. 0))
      (real_files (\<lambda>_ _ _. Inr ''m'') (\<lambda>_ _. Inr one_row) (\<lambda>_ _ _. None) (\<lambda>_. []))
      \<lparr>Workvol = ''v'', Workdir = ''/workspace'', Tmpdir = ''/tmp''\<rparr> ''a'' ''gs://b/'' idle_machine =
      (Inr [\<lparr>r_Location = ''gs://b/x#7'', r_Md5 = ''h''\<rparr>], m') \<and> logged m' \<noteq> []"
proof -
  let ?r = "UploadArtifacts (real_os listing_host (\<lambda>_. 0) (\<lambda>_. ''u'') (\<lambda>_. None) (\<lambda>_. 0))
      (real_files (\<lambda>_ _ _. Inr ''m'') (\<lambda>_ _. Inr one_row) (\<lambda>_ _ _. None) (\<lambda>_. []))
      \<lparr>Workvol = ''v'', Workdir = ''/workspace'', Tmpdir = ''/tmp''\<rparr> ''a'' ''gs://b/'' idle_machine"
  have "fst ?r = Inr [\<lparr>r_Location = ''gs://b/x#7'', r_Md5 = ''h''\<rparr>]" by code_simp
  then have run: "?r = (Inr [\<lparr>r_Location = ''gs://b/x#7'', r_Md5 = ''h''\<rparr>], snd ?r)" by (metis prod.collapse)
  from UploadArtifacts_commands [OF run] have "logged (snd ?r) \<noteq> []" by auto
  with run show ?thesis by blast
qed

text \<open>
  The generation that is reported is the greatest line of the listing in the order of
  bytes, and an empty listing is an error.
\<close>

theorem getGeneration_greatest:
  assumes "getGeneration os flags url w = (Inr g, w')"
  shows "\<exists>out. runGsutil os [] flags [''ls'', ''-a'', url] w = ((out, None), w') \<and>
     g \<noteq> [] \<and> g \<in> set (split_on CHR 0x0A out) \<and> (\<forall>l\<in>set (split_on CHR 0x0A out). l \<le> g)"
proof -
  obtain out where o': "runGsutil os [] flags [''ls'', ''-a'', url] w = ((out, None), w')"
      "g = max_line (split_on CHR 0x0A out)" "g \<noteq> []"
    using assms by (auto simp: getGeneration_def Let_def split: prod.splits option.splits if_splits)
  have ne: "split_on CHR 0x0A out \<noteq> []" using o'(2,3) by (auto simp: max_line_def)
  then have "g = Max (set (split_on CHR 0x0A out))" using o'(2) max_line_Max by simp
  then show ?thesis using o'(1,3) ne by (auto intro!: exI [of _ out])
qed

theorem getGeneration_greatest_witness:
  "\<exists>m'. getGeneration (real_os listing_host (\<lambda>_. 0) (\<lambda>_. ''u'') (\<lambda>_. None) (\<lambda>_. 0))
      \<lparr>Workvol = ''v'', Workdir = ''/workspace'', Tmpdir = ''/tmp''\<rparr> ''gs://b/x'' idle_machine = (Inr ''gs://b/x#7'', m') \<and>
      (''gs://b/x#7'' :: string) \<noteq> []"
proof -
  let ?r = "getGeneration (real_os listing_host (\<lambda>_. 0) (\<lambda>_. ''u'') (\<lambda>_. None) (\<lambda>_. 0))
      \<lparr>Workvol = ''v'', Workdir = ''/workspace'', Tmpdir = ''/tmp''\<rparr> ''gs://b/x'' idle_machine"
  have "fst ?r = Inr ''gs://b/x#7''" by code_simp
  then have run: "?r = (Inr ''gs://b/x#7'', snd ?r)" by (metis prod.collapse)
  from getGeneration_greatest [OF run] run show ?thesis by blast
qed

text \<open>
  \<open>VerifyBucket\<close> accepts a bucket exactly if the listing has succeeded and the context
  has no error.
\<close>

theorem VerifyBucket_accepts:
  "fst (VerifyBucket os bucket w) = None \<longleftrightarrow>
     (case Run os BuildCtx (verify_args (newUUID os w) bucket) w of
        (a, w') \<Rightarrow> run_err a = None \<and> ctx_Err os w' = None)"
  by (auto simp: VerifyBucket_def split: prod.splits)

end
