(* ===== verification/Kms.thy ===== *)
theory Kms
  imports Build_State Base64
begin

text \<open>
  The client of the key management service (\<open>build/build.go\<close>) and the transport that gives
  its requests a token (\<open>TokenTransport\<close> of \<open>common/common.go\<close>). The library
  (\<open>cloudkms.New\<close>, which makes a service that sends its requests through a transport) and
  \<open>http.DefaultTransport\<close> are parameters. A nil source of tokens would be a nil dereference,
  a panic, in \<open>RoundTrip\<close>; it is the error \<open>NilTokenSource\<close> here, and \<open>Local_Refresh\<close>
  shows that no build gets there.
\<close>

section \<open>The transport\<close>

record http_request =
  req_URL :: string
  req_Body :: string
  req_Header :: strmap

type_synonym transport = "http_request \<Rightarrow> err + string"

definition NilTokenSource :: err where
  "NilTokenSource = ErrText ''runtime error: invalid memory address or nil pointer dereference''"

definition RoundTrip :: "token_source option \<Rightarrow> transport \<Rightarrow> transport" where
  "RoundTrip Ts DefaultTransport req =
     (case Ts of
        None \<Rightarrow> Inl NilTokenSource
      | Some (Inl e) \<Rightarrow> Inl e
      | Some (Inr tok) \<Rightarrow>
          DefaultTransport (req\<lparr>req_Header := AList.update ''Authorization'' (''Bearer '' @ tok) (req_Header req)\<rparr>))"

section \<open>The clients\<close>

text \<open>What \<open>Do\<close> returns for the decryption of a ciphertext with a key.\<close>

record decrypt_response =
  Plaintext :: string

type_synonym service = "string \<Rightarrow> string \<Rightarrow> err + decrypt_response"

definition realKMS_Decrypt :: "service \<Rightarrow> kms" where
  "realKMS_Decrypt svc key enc = (case svc key enc of Inl e \<Rightarrow> Inl e | Inr resp \<Rightarrow> Inr (Plaintext resp))"

definition dryRunKMS_Decrypt :: kms where
  "dryRunKMS_Decrypt key enc = Inr (EncodeToString ''<REDACTED>'')"

text \<open>
  The client is made when it is needed first, and kept. The transport holds the source of
  tokens that the build has at that moment.
\<close>

definition GetKMSClient ::
  "bool \<Rightarrow> (transport \<Rightarrow> err + service) \<Rightarrow> transport \<Rightarrow> bld \<Rightarrow> (err + kms) \<times> bld"
where
  "GetKMSClient dryrun cloudkms_New DefaultTransport s =
     (case Kms s of
        Some k \<Rightarrow> (Inr k, s)
      | None \<Rightarrow>
          if dryrun then (Inr dryRunKMS_Decrypt, s\<lparr>Kms := Some dryRunKMS_Decrypt\<rparr>)
          else (case cloudkms_New (RoundTrip (TokenSource s) DefaultTransport) of
                  Inl e \<Rightarrow> (Inl e, s)
                | Inr svc \<Rightarrow> (Inr (realKMS_Decrypt svc), s\<lparr>Kms := Some (realKMS_Decrypt svc)\<rparr>)))"

section \<open>The client that a build has\<close>

text \<open>
  The client belongs to the build: it is the one of dry runs, or one that was made with a
  source of tokens \<open>ts\<close> for which \<open>P\<close> holds.
\<close>

definition client_made ::
  "(token_source option \<Rightarrow> bool) \<Rightarrow> bool \<Rightarrow> (transport \<Rightarrow> err + service) \<Rightarrow> transport \<Rightarrow> kms \<Rightarrow> bool"
where
  "client_made P dryrun cloudkms_New DefaultTransport k \<longleftrightarrow>
     (if dryrun then k = dryRunKMS_Decrypt
      else \<exists>ts svc. P ts \<and> cloudkms_New (RoundTrip ts DefaultTransport) = Inr svc \<and> k = realKMS_Decrypt svc)"

text \<open>Asking for the client changes nothing but the field that keeps it, and that only once.\<close>

lemma GetKMSClient_cases:
  assumes "GetKMSClient dryrun new http s = (r, s')"
  obtains (kept) k where "Kms s = Some k" "r = Inr k" "s' = s"
    | (refused) e where "Kms s = None" "r = Inl e" "s' = s"
    | (made) k where "Kms s = None" "r = Inr k" "s' = s\<lparr>Kms := Some k\<rparr>"
        "client_made (\<lambda>ts. ts = TokenSource s) dryrun new http k"
  using assms by (auto simp: GetKMSClient_def client_made_def split: option.splits if_splits sum.splits)

lemma client_made_mono: "client_made P d new http k \<Longrightarrow> (\<And>ts. P ts \<Longrightarrow> Q ts) \<Longrightarrow> client_made Q d new http k"
  by (auto simp: client_made_def split: if_splits)

end
