(* ===== verification/Build_Args.thy ===== *)
theory Build_Args
  imports Docker_Ops Kms GoPath
begin

text \<open>
  The command line of a build step (\<open>build/build.go\<close>): the working directory, the mounts,
  the environment with the decrypted secrets, the image, and the function \<open>runStep\<close> that
  puts them together, runs the container and reads the file of outputs it leaves. The library
  of the key service, the file system and the environment of the process are parameters.
\<close>

section \<open>Constants and names\<close>

definition builderOutputFile :: string where "builderOutputFile = ''output''"
definition stepOutputPath :: string where "stepOutputPath = ''/builder/outputs''"
definition maxOutputBytes :: nat where "maxOutputBytes = 4 * 1024"

definition step_container :: "nat \<Rightarrow> string" where
  "step_container idx = ''step_'' @ show_nat idx"

section \<open>Directories\<close>

definition workdir :: "string \<Rightarrow> string \<Rightarrow> string" where
  "workdir rsDir stepDir =
     (if is_abs rsDir then []
      else if is_abs stepDir then path_clean stepDir
      else path_clean (path_join [''/workspace'', rsDir, stepDir]))"

definition osTempDir :: "string \<Rightarrow> string \<Rightarrow> string" where
  "osTempDir runtimeGOOS os_TempDir = (if runtimeGOOS = ''darwin'' then ''/tmp'' else os_TempDir)"

definition getTempDir :: "string \<Rightarrow> string \<Rightarrow> string" where
  "getTempDir osTmp subpath =
     (if subpath = [] then osTmp
      else let fullpath = path_join [osTmp, subpath]
           in if has_suffix fullpath ''/'' then fullpath else fullpath @ ''/'')"

section \<open>Secrets and environment\<close>

text \<open>The fields of \<open>Build\<close> and the surroundings that a step uses.\<close>

record exec_env =
  Request :: build
  hostWorkspaceDir :: string
  is_local :: bool
  dryrun :: bool
  osTmp :: string
  cloudkms_New :: "transport \<Rightarrow> err + service"
  DefaultTransport :: transport
  MkdirAll :: "string \<Rightarrow> err option"
  output_file :: "string \<Rightarrow> (err + string) option"

definition var_name :: "string \<Rightarrow> string" where
  "var_name env = hd (split2 CHR ''='' env)"

definition plain_env :: "string list \<Rightarrow> strmap" where
  "plain_env envs = fold (\<lambda>env m. AList.update (var_name env) env m) envs []"

text \<open>One secret variable: the first secret that defines it is decrypted.\<close>

definition decrypt_env :: "kms \<Rightarrow> secret list \<Rightarrow> string \<Rightarrow> strmap \<Rightarrow> err + strmap" where
  "decrypt_env Decrypt secs se envVars =
     (case find (\<lambda>sec. map_of (SecretEnvs sec) se \<noteq> None) secs of
        None \<Rightarrow> Inr envVars
      | Some sec \<Rightarrow>
          (case Decrypt (KmsKeyName sec) (EncodeToString (the (map_of (SecretEnvs sec) se))) of
             Inl e \<Rightarrow> Inl (ErrWrap ''Failed to decrypt'' e)
           | Inr plaintext \<Rightarrow>
               (case DecodeString plaintext of
                  None \<Rightarrow> Inl (ErrText ''Plaintext was not base64-decodeable'')
                | Some dec \<Rightarrow>
                    Inr (if map_of envVars se = None
                         then AList.update se (se @ ''='' @ dec) envVars else envVars))))"

fun secret_env :: "kms \<Rightarrow> secret list \<Rightarrow> string list \<Rightarrow> strmap \<Rightarrow> err + strmap" where
  "secret_env Decrypt secs [] envVars = Inr envVars"
| "secret_env Decrypt secs (se # ses) envVars =
     (case decrypt_env Decrypt secs se envVars of
        Inl e \<Rightarrow> Inl e
      | Inr envVars \<Rightarrow> secret_env Decrypt secs ses envVars)"

definition env_args :: "strmap \<Rightarrow> string list" where
  "env_args envVars =
     concat (map (\<lambda>key. [''--env'', the (map_of envVars key)]) (sort (map fst envVars)))"

definition processEnvVars :: "exec_env \<Rightarrow> build_step \<Rightarrow> bld \<Rightarrow> (err + string list) \<times> bld" where
  "processEnvVars env step s =
     (let b = Request env; envVars = plain_env (options_Env b @ s_Env step);
          secretEnvVars = options_SecretEnv b @ s_SecretEnv step
      in if secretEnvVars = [] then (Inr (env_args envVars), s)
         else (case GetKMSClient (dryrun env) (cloudkms_New env) (DefaultTransport env) s of
                 (Inl e, s) \<Rightarrow> (Inl e, s)
               | (Inr Decrypt, s) \<Rightarrow>
                   (case secret_env Decrypt (Secrets b) secretEnvVars envVars of
                      Inl e \<Rightarrow> (Inl e, s)
                    | Inr envVars \<Rightarrow> (Inr (env_args envVars), s))))"

section \<open>Running a step\<close>

definition repo_dir :: "build \<Rightarrow> string" where
  "repo_dir b = (case GetRepoSource b of Some rs \<Rightarrow> RepoDir rs | None \<Rightarrow> [])"

definition dockerRunArgs :: "exec_env \<Rightarrow> string \<Rightarrow> string \<Rightarrow> nat \<Rightarrow> string list" where
  "dockerRunArgs env stepDir stepOutputDir idx =
     [''docker'', ''run'', ''--rm'', ''--name'', step_container idx,
      ''--volume'', ''/var/run/docker.sock:/var/run/docker.sock'', ''--privileged'',
      ''--volume'', hostWorkspaceDir env @ '':'' @ containerWorkspaceDir,
      ''--workdir'', workdir (repo_dir (Request env)) stepDir,
      ''--volume'', homeVolume @ '':'' @ homeDir,
      ''--env'', ''HOME='' @ homeDir,
      ''--network'', ''cloudbuild'',
      ''--volume'', stepOutputDir @ '':'' @ stepOutputPath,
      ''--env'', ''BUILDER_OUTPUT='' @ stepOutputPath] @
     (if is_local env then [] else [''--volume'', ''/root/tokencache:/root/tokencache''])"

definition runTarget :: "string \<Rightarrow> string \<Rightarrow> string" where
  "runTarget name builderImageDigest =
     (if builderImageDigest \<noteq> [] then stripTagDigest name @ ''@'' @ builderImageDigest else name)"

definition volume_args :: "volume_pb list \<Rightarrow> string list" where
  "volume_args vols = concat (map (\<lambda>vol. [''--volume'', v_Name vol @ '':'' @ v_Path vol]) vols)"

definition step_args :: "exec_env \<Rightarrow> nat \<Rightarrow> string \<Rightarrow> bld \<Rightarrow> (err + string list) \<times> bld" where
  "step_args env idx builderImageDigest s =
     (let b = Request env; step = Steps b ! idx;
          stepOutputDir = getTempDir (osTmp env) (''step-'' @ show_nat idx)
      in case processEnvVars env step s of
           (Inl e, s) \<Rightarrow> (Inl e, s)
         | (Inr envVarArgs, s) \<Rightarrow>
             (Inr (dockerRunArgs env (path_clean (s_Dir step)) stepOutputDir idx @ envVarArgs @
                volume_args (options_Volumes b @ s_Volumes step) @
                (if s_Entrypoint step \<noteq> [] then [''--entrypoint'', s_Entrypoint step] else []) @
                [runTarget (s_Name step) builderImageDigest] @ s_Args step), s))"

text \<open>
  The outputs of the steps: \<open>None\<close> until the first step has written one. Of a file, the
  first \<open>maxOutputBytes\<close> are kept; a file that is there but cannot be read is an error.
\<close>

definition captureStepOutput ::
  "exec_env \<Rightarrow> nat \<Rightarrow> string \<Rightarrow> string list option \<Rightarrow> err option \<times> string list option"
where
  "captureStepOutput env idx stepOutputDir recorded =
     (case output_file env (path_join [stepOutputDir, builderOutputFile]) of
        None \<Rightarrow> (None, recorded)
      | Some f \<Rightarrow>
          (let outputs = (case recorded of
                            None \<Rightarrow> replicate (length (Steps (Request env))) []
                          | Some os \<Rightarrow> os)
           in case f of
                Inl e \<Rightarrow> (Some e, Some outputs)
              | Inr content \<Rightarrow> (None, Some (outputs[idx := take maxOutputBytes content]))))"

text \<open>
  A step with a timeout runs in a context of its own; the entry in the log that says that it
  has finished is deferred, so it is written on every way out.
\<close>

definition step_ctx :: "int \<Rightarrow> ctx" where
  "step_ctx timeout = (if timeout \<noteq> 0 then TimeoutCtx timeout else BuildCtx)"

definition runStep ::
  "'w os \<Rightarrow> exec_env \<Rightarrow> int \<Rightarrow> nat \<Rightarrow> string \<Rightarrow> bld \<Rightarrow> 'w \<Rightarrow> err option \<times> bld \<times> 'w"
where
  "runStep os env timeout idx builderImageDigest s w =
     (let b = Request env; ident = stepIdentifier b idx;
          finish = write_if (HasMultipleSteps b) (''Finished '' @ ident);
          stepOutputDir = getTempDir (osTmp env) (''step-'' @ show_nat idx)
      in case MkdirAll env stepOutputDir of
           Some e \<Rightarrow> (Some (ErrWrap ''failed to create temp dir for step outputs'' e), finish s, w)
         | None \<Rightarrow>
             (case step_args env idx builderImageDigest s of
                (Inl e, s) \<Rightarrow> (Some e, finish s, w)
              | (Inr args, s) \<Rightarrow>
                  (case Run os (step_ctx timeout) args w of
                     (a, w) \<Rightarrow>
                       (case captureStepOutput env idx stepOutputDir (stepOutputs s) of
                          (outputErr, outputs) \<Rightarrow>
                            (if outputErr \<noteq> None \<and> run_err a = None then outputErr else run_err a,
                             finish (s\<lparr>stepOutputs := outputs\<rparr>), log_answer os (\<lambda>_. ident) a w)))))"

text \<open>\<open>cleanBuildSteps\<close>: the arguments of the command that removes the containers.\<close>

definition cleanBuildSteps_args :: "build \<Rightarrow> string list" where
  "cleanBuildSteps_args b = [''docker'', ''rm'', ''-f''] @ map step_container [0..<length (Steps b)]"

definition cleanBuildSteps :: "'w run \<Rightarrow> build \<Rightarrow> 'w \<Rightarrow> 'w" where
  "cleanBuildSteps run b w = snd (run Background (cleanBuildSteps_args b) w)"

section \<open>What a step writes\<close>

text \<open>A step may make the client of the key service, if the build has none.\<close>

definition kms_step :: "exec_env \<Rightarrow> bld \<Rightarrow> kms option \<Rightarrow> bool" where
  "kms_step env s k \<longleftrightarrow> k = Kms s \<or>
     Kms s = None \<and> (\<exists>c. k = Some c \<and>
       client_made (\<lambda>ts. ts = TokenSource s) (dryrun env) (cloudkms_New env) (DefaultTransport env) c)"

lemma processEnvVars_writes:
  assumes "processEnvVars env step s = (r, s')"
  shows "\<exists>k. s' = s\<lparr>Kms := k\<rparr> \<and> kms_step env s k"
proof -
  have same: "\<exists>k. s = s\<lparr>Kms := k\<rparr> \<and> kms_step env s k"
    by (intro exI [of _ "Kms s"]) (simp add: kms_step_def)
  obtain q s1 where g: "GetKMSClient (dryrun env) (cloudkms_New env) (DefaultTransport env) s = (q, s1)" by fastforce
  have "s' = s \<or> s' = s1"
    using assms g by (auto simp: processEnvVars_def Let_def split: if_splits sum.splits)
  moreover from g have "\<exists>k. s1 = s\<lparr>Kms := k\<rparr> \<and> kms_step env s k"
    by (cases rule: GetKMSClient_cases) (use same in \<open>auto simp: kms_step_def\<close>)
  ultimately show ?thesis using same by blast
qed

text \<open>Besides that a step writes its outputs and the log.\<close>

definition step_outputs :: "exec_env \<Rightarrow> nat \<Rightarrow> string list option \<Rightarrow> string list option \<Rightarrow> bool" where
  "step_outputs env i outs outs' \<longleftrightarrow> outs' = outs \<or> (\<exists>dir q. captureStepOutput env i dir outs = (q, outs'))"

lemma write_if_log: "\<exists>l. write_if c m s = s\<lparr>main_log := l\<rparr>"
  by (cases c) (auto simp: write_if_def WriteMainEntry_def intro: exI [of _ "main_log s"])

lemma runStep_writes:
  assumes "runStep os env timeout i d s w = (r, s', w')"
  shows "\<exists>k outs l. s' = s\<lparr>Kms := k, stepOutputs := outs, main_log := l\<rparr> \<and> kms_step env s k \<and>
    step_outputs env i (stepOutputs s) outs"
proof -
  let ?fin = "write_if (HasMultipleSteps (Request env)) (''Finished '' @ stepIdentifier (Request env) i)"
  have fin: "\<exists>k outs l. ?fin (s\<lparr>Kms := k0, stepOutputs := o0\<rparr>) = s\<lparr>Kms := k, stepOutputs := outs, main_log := l\<rparr> \<and>
      kms_step env s k \<and> step_outputs env i (stepOutputs s) outs"
    if "kms_step env s k0" "step_outputs env i (stepOutputs s) o0" for k0 o0
    using that write_if_log [of _ _ "s\<lparr>Kms := k0, stepOutputs := o0\<rparr>"] by (metis (no_types))
  have none: "kms_step env s (Kms s)" "step_outputs env i (stepOutputs s) (stepOutputs s)"
    by (simp_all add: kms_step_def step_outputs_def)
  show ?thesis
  proof (cases "MkdirAll env (getTempDir (osTmp env) (''step-'' @ show_nat i))")
    case (Some e)
    then have "s' = ?fin (s\<lparr>Kms := Kms s, stepOutputs := stepOutputs s\<rparr>)"
      using assms by (simp add: runStep_def Let_def)
    then show ?thesis using fin [OF none] by simp
  next
    case None
    obtain q s1 where args: "step_args env i d s = (q, s1)" by fastforce
    then have "\<exists>q1. processEnvVars env (Steps (Request env) ! i) s = (q1, s1)"
      by (auto simp: step_args_def Let_def split: prod.splits sum.splits)
    then obtain k where k: "s1 = s\<lparr>Kms := k\<rparr>" "kms_step env s k" using processEnvVars_writes by blast
    show ?thesis
    proof (cases q)
      case (Inl e)
      then have "s' = ?fin (s\<lparr>Kms := k, stepOutputs := stepOutputs s\<rparr>)"
        using assms None args k(1) by (simp add: runStep_def Let_def)
      then show ?thesis using fin [OF k(2) none(2)] by simp
    next
      case (Inr cmd)
      obtain a w1 where "Run os (step_ctx timeout) cmd w = (a, w1)" by fastforce
      moreover obtain e outs where
        c: "captureStepOutput env i (getTempDir (osTmp env) (''step-'' @ show_nat i)) (stepOutputs s1) = (e, outs)" by fastforce
      ultimately have "s' = ?fin (s\<lparr>Kms := k, stepOutputs := outs\<rparr>)"
        using assms None args k(1) Inr by (simp add: runStep_def Let_def)
      moreover have "step_outputs env i (stepOutputs s) outs" using c k(1) by (auto simp: step_outputs_def)
      ultimately show ?thesis using fin [OF k(2)] by blast
    qed
  qed
qed

section \<open>Numbers in names\<close>

lemma show_nat_last:
  "show_nat n = (if n < 10 then [] else show_nat (n div 10)) @ [char_of (48 + n mod 10)]"
  by (subst show_nat.simps) simp

lemma digit_inj: "m < 10 \<Longrightarrow> n < 10 \<Longrightarrow> char_of (48 + m) = (char_of (48 + n :: nat) :: char) \<longleftrightarrow> m = n"
  using inj_on_char_of_nat by (auto dest: inj_onD [of char_of _ "48 + m" "48 + n"])

lemma show_nat_not_Nil [simp]: "show_nat n \<noteq> []"
  by (subst show_nat_last) simp

lemma show_nat_inj: "show_nat m = show_nat n \<Longrightarrow> m = n"
proof (induction m arbitrary: n rule: less_induct)
  case (less m)
  have l: "(if m < 10 then [] else show_nat (m div 10)) = (if n < 10 then [] else show_nat (n div 10))"
      "char_of (48 + m mod 10) = (char_of (48 + n mod 10) :: char)"
    using less.prems by (subst (asm) (1 2) show_nat_last, simp)+
  then have d: "m mod 10 = n mod 10" using digit_inj [of "m mod 10" "n mod 10"] by simp
  show ?case
  proof (cases "m < 10 \<or> n < 10")
    case True
    then have "m < 10 \<and> n < 10"
      using l(1) show_nat_not_Nil [of "m div 10"] show_nat_not_Nil [of "n div 10"]
      by (auto split: if_splits simp del: show_nat_not_Nil)
    then show ?thesis using d by simp
  next
    case False
    then have "show_nat (m div 10) = show_nat (n div 10)" using l(1) by simp
    then have "m div 10 = n div 10" using less.IH [of "m div 10"] False by simp
    with d show ?thesis by (metis div_mult_mod_eq)
  qed
qed

lemma step_container_inj: "step_container i = step_container j \<longleftrightarrow> i = j"
  using show_nat_inj by (auto simp: step_container_def)

lemma cleanBuildSteps_distinct: "distinct (map step_container [0..<n])"
  by (simp add: distinct_map inj_on_def step_container_inj)

section \<open>The environment of a step\<close>

lemma map_of_plain_env_step:
  "map_of (fold (\<lambda>env m. AList.update (var_name env) env m) envs acc) k =
     (case filter (\<lambda>e. var_name e = k) envs of [] \<Rightarrow> map_of acc k | es \<Rightarrow> Some (last es))"
proof (induction envs arbitrary: acc)
  case (Cons e envs)
  show ?case
    by (auto simp: Cons update_conv' split: list.splits)
qed simp

lemma plain_env_map_of:
  "map_of (plain_env envs) k =
     (case filter (\<lambda>e. var_name e = k) envs of [] \<Rightarrow> None | es \<Rightarrow> Some (last es))"
  by (simp add: plain_env_def map_of_plain_env_step split: list.split)

lemma plain_env_distinct: "distinct (map fst (plain_env envs))"
proof -
  have "distinct (map fst acc) \<Longrightarrow>
      distinct (map fst (fold (\<lambda>env m. AList.update (var_name env) env m) envs acc))" for acc
    by (induction envs arbitrary: acc) (auto simp: distinct_update)
  then show ?thesis by (simp add: plain_env_def)
qed

text \<open>Every entry stands under its own name.\<close>

definition named_env :: "strmap \<Rightarrow> bool" where
  "named_env m \<longleftrightarrow> (\<forall>k e. map_of m k = Some e \<longrightarrow> var_name e = k)"

lemma plain_env_named: "named_env (plain_env envs)"
proof -
  have "var_name e = k" if "map_of (plain_env envs) k = Some e" for k e
  proof -
    have "e \<in> set (filter (\<lambda>e. var_name e = k) envs)"
      using that by (auto simp: plain_env_map_of split: list.splits simp del: set_filter)
    then show ?thesis by simp
  qed
  then show ?thesis by (simp add: named_env_def)
qed

lemma var_name_eq: "CHR ''='' \<notin> set k \<Longrightarrow> var_name (k @ CHR ''='' # v) = k"
  by (simp add: var_name_def split2_append)

text \<open>The step never lets a secret replace an entry, and only adds names of secrets.\<close>

lemma decrypt_env_facts:
  assumes "decrypt_env D secs se m = Inr m'" "CHR ''='' \<notin> set se" "named_env m" "distinct (map fst m)"
  shows "named_env m'" "distinct (map fst m')" "\<And>k e. map_of m k = Some e \<Longrightarrow> map_of m' k = Some e"
    "\<And>k. map_of m k = None \<Longrightarrow> k \<noteq> se \<Longrightarrow> map_of m' k = None"
  using assms
  by (auto simp: decrypt_env_def named_env_def update_conv' distinct_update var_name_eq
      split: option.splits sum.splits if_splits)

lemma secret_env_facts:
  assumes "secret_env D secs ses m = Inr m'" "\<forall>se\<in>set ses. CHR ''='' \<notin> set se"
    "named_env m" "distinct (map fst m)"
  shows "named_env m' \<and> distinct (map fst m') \<and> (\<forall>k e. map_of m k = Some e \<longrightarrow> map_of m' k = Some e) \<and>
     (\<forall>k. map_of m k = None \<longrightarrow> k \<notin> set ses \<longrightarrow> map_of m' k = None)"
  using assms
proof (induction D secs ses m rule: secret_env.induct)
  case (2 D secs se ses m)
  then obtain m1 where m1: "decrypt_env D secs se m = Inr m1" "secret_env D secs ses m1 = Inr m'"
    by (auto split: sum.splits)
  note f = decrypt_env_facts [OF m1(1) _ "2.prems"(3,4)]
  have "CHR ''='' \<notin> set se" using "2.prems"(2) by simp
  note f = f [OF this]
  have "named_env m' \<and> distinct (map fst m') \<and> (\<forall>k e. map_of m1 k = Some e \<longrightarrow> map_of m' k = Some e) \<and>
     (\<forall>k. map_of m1 k = None \<longrightarrow> k \<notin> set ses \<longrightarrow> map_of m' k = None)"
    using "2.IH" [OF m1] "2.prems"(2) f(1,2) m1 by simp
  then show ?case using f(3,4) by (metis list.set_intros)
qed simp

text \<open>Only names of secrets are added.\<close>

lemma secret_env_keys:
  "secret_env D secs ses m = Inr m' \<Longrightarrow> map_of m k = None \<Longrightarrow> map_of m' k \<noteq> None \<Longrightarrow> k \<in> set ses"
proof (induction D secs ses m rule: secret_env.induct)
  case (2 D secs se ses m)
  then obtain m1 where m1: "decrypt_env D secs se m = Inr m1" "secret_env D secs ses m1 = Inr m'"
    by (auto split: sum.splits)
  show ?case
  proof (cases "map_of m1 k")
    case None
    then show ?thesis using "2.IH" [OF m1 None "2.prems"(3)] by simp
  next
    case (Some e)
    then have "k = se"
      using m1(1) "2.prems"(2) by (auto simp: decrypt_env_def update_conv' split: option.splits sum.splits if_splits)
    then show ?thesis by simp
  qed
qed simp

text \<open>The dry-run client decrypts everything to one placeholder.\<close>

lemma dry_decrypt_env:
  "decrypt_env dryRunKMS_Decrypt secs se m =
     Inr (if find (\<lambda>sec. map_of (SecretEnvs sec) se \<noteq> None) secs \<noteq> None \<and> map_of m se = None
          then AList.update se (se @ ''=<REDACTED>'') m else m)"
  by (simp add: decrypt_env_def dryRunKMS_Decrypt_def DecodeString_EncodeToString split: option.split)

lemma dry_secret_env:
  "\<exists>m'. secret_env dryRunKMS_Decrypt secs ses m = Inr m' \<and>
     (\<forall>k. map_of m k = None \<longrightarrow> map_of m' k \<in> {None, Some (k @ ''=<REDACTED>'')}) \<and>
     (\<forall>k e. map_of m k = Some e \<longrightarrow> map_of m' k = Some e)"
proof (induction ses arbitrary: m)
  case (Cons se ses)
  let ?m = "if find (\<lambda>sec. map_of (SecretEnvs sec) se \<noteq> None) secs \<noteq> None \<and> map_of m se = None
          then AList.update se (se @ ''=<REDACTED>'') m else m"
  obtain m' where m': "secret_env dryRunKMS_Decrypt secs ses ?m = Inr m'"
      "\<forall>k. map_of ?m k = None \<longrightarrow> map_of m' k \<in> {None, Some (k @ ''=<REDACTED>'')}"
      "\<forall>k e. map_of ?m k = Some e \<longrightarrow> map_of m' k = Some e"
    using Cons.IH by blast
  have run: "secret_env dryRunKMS_Decrypt secs (se # ses) m = Inr m'"
    using m'(1) by (simp only: secret_env.simps dry_decrypt_env sum.case)
  have keep: "\<forall>k e. map_of m k = Some e \<longrightarrow> map_of m' k = Some e"
  proof (intro allI impI)
    fix k e assume k: "map_of m k = Some e"
    then have "map_of ?m k = Some e" by (auto simp: update_conv')
    then show "map_of m' k = Some e" using m'(3) by blast
  qed
  have new: "\<forall>k. map_of m k = None \<longrightarrow> map_of m' k \<in> {None, Some (k @ ''=<REDACTED>'')}"
  proof (intro allI impI)
    fix k assume k: "map_of m k = None"
    show "map_of m' k \<in> {None, Some (k @ ''=<REDACTED>'')}"
    proof (cases "map_of ?m k")
      case None
      then show ?thesis using m'(2) by blast
    next
      case (Some e)
      then have "e = k @ ''=<REDACTED>''" using k by (auto simp: update_conv' split: if_splits)
      then show ?thesis using Some m'(3) by blast
    qed
  qed
  from run keep new show ?case by blast
qed simp

section \<open>The working directory\<close>

lemma path_join_clean: "path_clean (path_join es) = (if path_join es = [] then ''.'' else path_join es)"
  by (auto simp: path_join_def path_clean_idem path_clean_def [of "[]"] split: list.splits)

lemma workspace_join:
  "path_join [''/workspace'', r, d] = path_clean (''/workspace'' @
     (if r = [] then [] else ''/'' @ r) @ (if d = [] then [] else ''/'' @ d))"
  by (simp add: path_join_def)

lemma workspace_comps: "comps ''/workspace'' = [''workspace'']"
  by (simp add: comps_def)

lemma workdir_cases:
  assumes "\<not> is_abs r"
  obtains p where "workdir r d = path_clean p" "is_abs p"
    "\<not> is_abs d \<Longrightarrow> comps p = [''workspace''] @ comps r @ comps d"
proof (cases "is_abs d")
  case True
  then show thesis using that [of d] assms by (simp add: workdir_def)
next
  case False
  let ?p = "''/workspace'' @ (if r = [] then [] else ''/'' @ r) @ (if d = [] then [] else ''/'' @ d)"
  have c: "comps ?p = [''workspace''] @ comps r @ comps d"
    using comps_join_slash [of "''/workspace''" d] comps_join_slash [of "''/workspace''" r]
      comps_join_slash [of "''/workspace/'' @ r" d] workspace_comps
    by (auto simp: comps_def split_on_sep [of _ "''/workspace''", simplified])
  have "is_abs ?p" by (simp add: is_abs_def)
  then show thesis
    using that [of ?p] c False assms by (simp add: workdir_def workspace_join path_clean_idem)
qed

section \<open>Properties\<close>


definition secret_environment :: exec_env where
  "secret_environment = \<lparr>Request = empty_build\<lparr>Options := Some \<lparr>SubstitutionOption = MUST_MATCH,
       o_Env = [''B=1'', ''A=1''], o_SecretEnv = [], o_Volumes = []\<rparr>,
       Secrets := [\<lparr>KmsKeyName = ''k'', SecretEnvs = [(''PW'', ''x'')]\<rparr>]\<rparr>,
     hostWorkspaceDir = ''vol'', is_local = True, dryrun = True, osTmp = ''/tmp'',
     cloudkms_New = (\<lambda>_. Inl Canceled), DefaultTransport = (\<lambda>_. Inl Canceled),
     MkdirAll = (\<lambda>_. None), output_file = (\<lambda>_. None)\<rparr>"


text \<open>
  C33: A dry run reveals no secret and does not fail on one. Whatever the key service would
  answer, the environment of a step of a dry run is computed without an error, and each
  argument is the option, a plain entry of the request, or a secret variable with the
  placeholder as its value; the client of dry runs is the only one that is made.
\<close>

theorem dry_run_redacts:
  assumes "dryrun env" "Kms s = None \<or> Kms s = Some dryRunKMS_Decrypt"
    and "processEnvVars env step s = (r, s')"
  shows "\<exists>args. r = Inr args \<and> (\<forall>a\<in>set args. a = ''--env'' \<or> a \<in> set (options_Env (Request env) @ s_Env step) \<or>
      (\<exists>k\<in>set (options_SecretEnv (Request env) @ s_SecretEnv step). a = k @ ''=<REDACTED>'')) \<and>
    (s' = s \<or> s' = s\<lparr>Kms := Some dryRunKMS_Decrypt\<rparr>)"
proof -
  let ?plain = "options_Env (Request env) @ s_Env step" and ?ses = "options_SecretEnv (Request env) @ s_SecretEnv step"
  let ?ok = "\<lambda>a. a = ''--env'' \<or> a \<in> set ?plain \<or> (\<exists>k\<in>set ?ses. a = k @ ''=<REDACTED>'')"
  have entry: "e \<in> set ?plain" if "map_of (plain_env ?plain) k = Some e" for k e
  proof -
    let ?es = "filter (\<lambda>e. var_name e = k) ?plain"
    have "?es \<noteq> []" "e = last ?es"
      using that unfolding plain_env_map_of by (auto split: list.splits)
    then have "e \<in> set ?es" using last_in_set by blast
    then show ?thesis by auto
  qed
  have args: "\<forall>a\<in>set (env_args m). ?ok a" if ok: "\<And>k e. map_of m k = Some e \<Longrightarrow> ?ok e" for m
  proof -
    have "?ok (the (map_of m k))" if "k \<in> fst ` set m" for k
    proof -
      have "map_of m k \<noteq> None" using that by (simp add: map_of_eq_None_iff)
      then obtain e where "map_of m k = Some e" by blast
      then show ?thesis using ok by simp
    qed
    then show ?thesis by (auto simp: env_args_def)
  qed
  show ?thesis
  proof (cases "?ses = []")
    case True
    then have "r = Inr (env_args (plain_env ?plain))" "s' = s" using assms(3) by (simp_all add: processEnvVars_def)
    then show ?thesis using args entry by blast
  next
    case False
    have g: "GetKMSClient (dryrun env) (cloudkms_New env) (DefaultTransport env) s =
        (Inr dryRunKMS_Decrypt, s\<lparr>Kms := Some dryRunKMS_Decrypt\<rparr>)"
      using assms(1,2) by (auto simp: GetKMSClient_def)
    obtain m where m: "secret_env dryRunKMS_Decrypt (Secrets (Request env)) ?ses (plain_env ?plain) = Inr m"
        "\<forall>k. map_of (plain_env ?plain) k = None \<longrightarrow> map_of m k \<in> {None, Some (k @ ''=<REDACTED>'')}"
        "\<forall>k e. map_of (plain_env ?plain) k = Some e \<longrightarrow> map_of m k = Some e"
      using dry_secret_env [of "Secrets (Request env)" ?ses "plain_env ?plain"] by blast
    have keys: "k \<in> set ?ses" if "map_of (plain_env ?plain) k = None" "map_of m k \<noteq> None" for k
      using secret_env_keys [OF m(1)] that by blast
    have "?ok e" if "map_of m k = Some e" for k e
    proof (cases "map_of (plain_env ?plain) k")
      case None
      then have "map_of m k \<in> {None, Some (k @ ''=<REDACTED>'')}" using m(2) by blast
      then have "e = k @ ''=<REDACTED>''" unfolding that by blast
      moreover have "k \<in> set ?ses" using keys [OF None] that by blast
      ultimately show ?thesis by blast
    next
      case (Some e')
      then show ?thesis using m(3) entry that by (metis option.inject)
    qed
    then have "\<forall>a\<in>set (env_args m). ?ok a" using args by blast
    moreover have "r = Inr (env_args m)" "s' = s\<lparr>Kms := Some dryRunKMS_Decrypt\<rparr>"
      using assms(3) unfolding processEnvVars_def Let_def if_not_P [OF False] g prod.case sum.case m(1) by simp_all
    ultimately show ?thesis by blast
  qed
qed

theorem dry_run_redacts_witness:
  "\<exists>args s'. processEnvVars secret_environment (empty_step\<lparr>s_Env := [''B=2''], s_SecretEnv := [''PW'']\<rparr>) (New_build 0 empty_build) =
      (Inr args, s') \<and> Kms s' \<in> {None, Some dryRunKMS_Decrypt}"
proof -
  let ?s = "New_build 0 empty_build"
  obtain r s' where run: "processEnvVars secret_environment (empty_step\<lparr>s_Env := [''B=2''], s_SecretEnv := [''PW'']\<rparr>) ?s = (r, s')"
    by fastforce
  have d: "dryrun secret_environment" "Kms ?s = None" by (simp_all add: secret_environment_def New_build_def)
  from dry_run_redacts [OF d(1) disjI1 [OF d(2)] run] obtain args
    where r: "r = Inr args" "s' = ?s \<or> s' = ?s\<lparr>Kms := Some dryRunKMS_Decrypt\<rparr>" by blast
  from r(2) have "Kms s' \<in> {None, Some dryRunKMS_Decrypt}" using d(2) by (elim disjE) simp_all
  then show ?thesis using run unfolding r(1) by blast
qed

text \<open>
  The working directory of a step. For a relative source directory it is absolute and
  clean (no dot-dot element is left), and if neither directory has a dot-dot element and the
  one of the step is relative, it is the workspace, the source directory and the directory
  of the step, in this order.
\<close>

theorem workdir_clean:
  assumes "\<not> is_abs rsDir"
  shows "is_abs (workdir rsDir stepDir) \<and> path_clean (workdir rsDir stepDir) = workdir rsDir stepDir \<and>
     ''..'' \<notin> set (comps (workdir rsDir stepDir)) \<and>
     (\<not> is_abs stepDir \<longrightarrow> ''..'' \<notin> set (comps rsDir) \<union> set (comps stepDir) \<longrightarrow>
        comps (workdir rsDir stepDir) = ''workspace'' # comps rsDir @ comps stepDir)"
proof -
  obtain p where p: "workdir rsDir stepDir = path_clean p" "is_abs p"
    "\<not> is_abs stepDir \<Longrightarrow> comps p = [''workspace''] @ comps rsDir @ comps stepDir"
    using workdir_cases [OF assms] by blast
  have "comps (path_clean p) = ''workspace'' # comps rsDir @ comps stepDir"
    if "\<not> is_abs stepDir" "''..'' \<notin> set (comps rsDir) \<union> set (comps stepDir)"
  proof -
    have "''..'' \<notin> set (comps p)" using p(3) that by simp
    then show ?thesis using resolve_no_dotdot [of "comps p" "is_abs p"] p(3) that(1) by (simp add: comps_clean)
  qed
  then show ?thesis using p(1,2) path_clean_idem comps_clean_abs by simp
qed

theorem workdir_clean_witness:
  "workdir ''sub'' ''./a//b'' = ''/workspace/sub/a/b'' \<and>
   comps (workdir ''sub'' ''./a//b'') = [''workspace'', ''sub'', ''a'', ''b'']"
proof -
  have "\<not> is_abs ''sub''" by code_simp
  from workdir_clean [OF this, of "''./a//b''"] show ?thesis
    by (auto simp: comps_def is_abs_def workdir_def) code_simp+
qed

text \<open>A dot-dot element leads out of the workspace: nothing confines the step to it.\<close>

lemma workdir_escapes: "workdir [] ''../etc'' = ''/etc''"
  by code_simp

text \<open>
  C34: Every step container is removed: the command of step \<open>idx\<close> names its container, the
  clean-up command lists that name, and different steps have different names.
\<close>

theorem step_containers_removed:
  assumes "step_args env idx dg s = (Inr args, s')" "idx < length (Steps (Request env))"
  shows "\<exists>p q. args = p @ [''--name'', step_container idx] @ q \<and>
     step_container idx \<in> set (drop 3 (cleanBuildSteps_args (Request env))) \<and>
     distinct (drop 3 (cleanBuildSteps_args (Request env)))"
proof -
  obtain q where "args = [''docker'', ''run'', ''--rm''] @ [''--name'', step_container idx] @ q"
    using assms(1) by (auto simp: step_args_def dockerRunArgs_def Let_def split: sum.splits prod.splits)
  moreover have "drop 3 (cleanBuildSteps_args (Request env)) =
      map step_container [0..<length (Steps (Request env))]"
    by (simp add: cleanBuildSteps_args_def numeral_3_eq_3)
  moreover have "step_container idx \<in> set (map step_container [0..<length (Steps (Request env))])"
    using assms(2) by simp
  ultimately show ?thesis using cleanBuildSteps_distinct by metis
qed

definition example_env :: exec_env where
  "example_env = \<lparr>Request = empty_build\<lparr>Steps := [empty_step\<lparr>s_Name := ''a'', s_Args := [''x'']\<rparr>]\<rparr>,
     hostWorkspaceDir = ''vol'', is_local = True, dryrun = True, osTmp = ''/tmp'',
     cloudkms_New = (\<lambda>_. Inl Canceled), DefaultTransport = (\<lambda>_. Inl Canceled), MkdirAll = (\<lambda>_. None), output_file = (\<lambda>_. None)\<rparr>"

theorem step_containers_removed_witness:
  "\<exists>args p q s. step_args example_env 0 [] (New_build 0 empty_build) = (Inr args, s) \<and> args = p @ [''--name'', ''step_0''] @ q"
proof -
  obtain args s where run: "step_args example_env 0 [] (New_build 0 empty_build) = (Inr args, s)"
    by (simp add: step_args_def example_env_def processEnvVars_def options_SecretEnv_def empty_step_def
        empty_build_def Let_def)
  have n: "step_container 0 = ''step_0''" by code_simp
  have "0 < length (Steps (Request example_env))" by (simp add: example_env_def)
  from step_containers_removed [OF run this] run show ?thesis unfolding n by blast
qed

text \<open>
  The outputs of the steps: a step writes at most 4096 bytes, into its own entry only;
  the first output creates an entry for every step.
\<close>

theorem captureStepOutput_frame:
  assumes "captureStepOutput env idx dir (Some outputs) = (r, outs)" "idx < length outputs"
  shows "\<exists>os. outs = Some os \<and> length os = length outputs \<and> (\<forall>j. j \<noteq> idx \<longrightarrow> os ! j = outputs ! j) \<and>
     (os ! idx \<noteq> outputs ! idx \<longrightarrow> length (os ! idx) \<le> 4096)"
  using assms by (auto simp: captureStepOutput_def maxOutputBytes_def split: option.splits sum.splits)

theorem captureStepOutput_frame_witness:
  "let env = example_env\<lparr>output_file := (\<lambda>_. Some (Inr ''result''))\<rparr>
   in snd (captureStepOutput env 1 ''/tmp/step-1/'' (Some [''a'', ''b''])) = Some [''a'', ''result''] \<and>
      length ''result'' \<le> 4096"
proof -
  let ?env = "example_env\<lparr>output_file := (\<lambda>_. Some (Inr ''result''))\<rparr>"
  have run: "captureStepOutput ?env 1 ''/tmp/step-1/'' (Some [''a'', ''b'']) = (None, Some [''a'', ''result''])"
    by (simp add: captureStepOutput_def maxOutputBytes_def)
  from captureStepOutput_frame [OF run] run show ?thesis by (simp add: Let_def)
qed

end
