(* ===== verification/Build_Push.thy ===== *)
theory Build_Push
  imports Gsutil Build_Args
begin

text \<open>
  Pushing the results of a build (\<open>build/build.go\<close>): the images, one after the other, with the
  digests docker reports, and the artifacts, copied to a bucket with a manifest.
\<close>

section \<open>Images\<close>

text \<open>The first timing of a digest is kept.\<close>

definition record_digest :: "time_span \<Rightarrow> image_digest \<Rightarrow> bld \<Rightarrow> bld" where
  "record_digest timing d s =
     (let pushes = (case ImagePushes (Timing s) of Some m \<Rightarrow> m | None \<Rightarrow> [])
      in s\<lparr>imageDigests := imageDigests s @ [d],
           Timing := (Timing s)\<lparr>ImagePushes :=
             Some (if map_of pushes (digest d) = None then AList.update (digest d) timing pushes else pushes)\<rparr>\<rparr>)"

fun push_loop :: "'w os \<Rightarrow> string list \<Rightarrow> bld \<Rightarrow> 'w \<Rightarrow> err option \<times> bld \<times> 'w" where
  "push_loop os [] s w = (None, s, w)"
| "push_loop os (img # imgs) s w =
     (let start = now_of os w
      in case dockerPush os img s w of
           (r, s, w) \<Rightarrow>
             (let timing = \<lparr>Start_time = start, End_time = Some (now_of os w)\<rparr>
              in case r of
                   Inl e \<Rightarrow>
                     if e = ErrorScrapingDigest then push_loop os imgs s w
                     else if ctx_Err os w = Some e then (Some e, s, w)
                     else (Some (ErrWrap (''error pushing image '' @ Quote img) e), s, w)
                 | Inr digests \<Rightarrow>
                     push_loop os imgs (fold (record_digest timing) (resolveDigestsForImage img digests) s) w))"

definition pushImages :: "'w os \<Rightarrow> store \<Rightarrow> build \<Rightarrow> bld \<Rightarrow> 'w \<Rightarrow> err option \<times> bld \<times> 'w" where
  "pushImages os h b s w =
     (if Images b = None then (None, s, w)
      else push_loop os (deref h (Images b)) (s\<lparr>Timing := (Timing s)\<lparr>ImagePushes := Some []\<rparr>\<rparr>) w)"

section \<open>Artifacts\<close>

fun upload_paths ::
  "'w os \<Rightarrow> 'w files \<Rightarrow> docker_flags \<Rightarrow> string \<Rightarrow> string list \<Rightarrow> artifact_result list \<Rightarrow> bld \<Rightarrow> 'w \<Rightarrow>
     (err + artifact_result list) \<times> bld \<times> 'w"
where
  "upload_paths os fs flags location [] results s w = (Inr results, s, w)"
| "upload_paths os fs flags location (src # srcs) results s w =
     (let s = WriteMainEntry (src @ '': Uploading path....'') s
      in case UploadArtifacts os fs flags src location w of
           (Inl e, w) \<Rightarrow> (Inl (ErrWrap (''could not upload '' @ src @ '' to '' @ location @ ''; err'') e), s, w)
         | (Inr r, w) \<Rightarrow>
             upload_paths os fs flags location srcs (results @ r)
               (WriteMainEntry (src @ '': '' @ show_nat (length r) @ '' matching files uploaded'') s) w)"

definition artifact_flags :: "string \<Rightarrow> string \<Rightarrow> build \<Rightarrow> docker_flags" where
  "artifact_flags hostWs tmpdir b =
     \<lparr>Workvol = hostWs @ '':'' @ containerWorkspaceDir,
      Workdir = (if repo_dir b \<noteq> [] then path_join [containerWorkspaceDir, repo_dir b] else containerWorkspaceDir),
      Tmpdir = tmpdir\<rparr>"

definition pushArtifacts ::
  "'w os \<Rightarrow> 'w files \<Rightarrow> string \<Rightarrow> string \<Rightarrow> build \<Rightarrow> bld \<Rightarrow> 'w \<Rightarrow> err option \<times> bld \<times> 'w"
where
  "pushArtifacts os fs hostWs tmpdir b s w =
     (case artifacts_objects b of
        None \<Rightarrow> (None, s, w)
      | Some obj \<Rightarrow>
          (let location = Location obj; bucket = extractGCSBucket location
           in case VerifyBucket os bucket w of
                (Some e, w) \<Rightarrow> (Some e, s, w)
              | (None, w) \<Rightarrow>
                  (let flags = artifact_flags hostWs tmpdir b;
                       start = now_of os w;
                       s = s\<lparr>Timing := (Timing s)\<lparr>ArtifactsPushes := Some \<lparr>Start_time = start, End_time = None\<rparr>\<rparr>\<rparr>;
                       s = WriteMainEntry (''Artifacts will be uploaded to '' @ bucket @ '' using gsutil cp'') s
                   in case upload_paths os fs flags location (Paths obj) [] s w of
                        (Inl e, s, w) \<Rightarrow> (Some e, s, w)
                      | (Inr results, s, w) \<Rightarrow>
                          (let n = length results;
                               s = WriteMainEntry (show_nat n @ '' total artifacts uploaded to '' @ location) s;
                               s = s\<lparr>Timing := (Timing s)\<lparr>ArtifactsPushes :=
                                     Some \<lparr>Start_time = start, End_time = Some (now_of os w)\<rparr>\<rparr>\<rparr>;
                               filename = ''artifacts-'' @ Id b @ ''.json'';
                               s = WriteMainEntry (''Uploading manifest '' @ filename) s
                           in case UploadArtifactsManifest os fs flags filename location results w of
                                (Inl e, w) \<Rightarrow>
                                  (Some (ErrWrap (''could not upload '' @ filename @ '' to '' @ location @ ''; err'') e), s, w)
                              | (Inr artifactManifest, w) \<Rightarrow>
                                  (None,
                                   (WriteMainEntry (''Artifact manifest located at '' @ artifactManifest) s)
                                     \<lparr>b_artifacts := \<lparr>ArtifactManifest = artifactManifest, NumArtifacts = n\<rparr>\<rparr>, w)))))"

section \<open>Everything\<close>

definition pushAll ::
  "'w os \<Rightarrow> 'w files \<Rightarrow> string \<Rightarrow> string \<Rightarrow> store \<Rightarrow> build \<Rightarrow> bld \<Rightarrow> 'w \<Rightarrow> err option \<times> bld \<times> 'w"
where
  "pushAll os fs hostWs tmpdir h b s w =
     (if Images b = None \<and> artifacts_objects b = None then (None, s, w)
      else
        (let start = now_of os w;
             s = s\<lparr>Timing := (Timing s)\<lparr>PushTotal := Some \<lparr>Start_time = start, End_time = None\<rparr>\<rparr>\<rparr>
         in case (case pushImages os h b s w of
                    (Some e, s, w) \<Rightarrow> (Some e, s, w)
                  | (None, s, w) \<Rightarrow> pushArtifacts os fs hostWs tmpdir b s w) of
              (r, s, w) \<Rightarrow>
                (r, s\<lparr>Timing := (Timing s)\<lparr>PushTotal := Some \<lparr>Start_time = start, End_time = Some (now_of os w)\<rparr>\<rparr>\<rparr>, w)))"

section \<open>Facts about images\<close>

lemma record_digest_facts:
  "imageDigests (record_digest t d s) = imageDigests s @ [d]"
  "ImagePushes (Timing s) = Some m \<Longrightarrow>
     \<exists>m'. ImagePushes (Timing (record_digest t d s)) = Some m' \<and> fst ` set m' = insert (digest d) (fst ` set m) \<and>
       (\<forall>k v. map_of m k = Some v \<longrightarrow> map_of m' k = Some v)"
proof -
  show "imageDigests (record_digest t d s) = imageDigests s @ [d]" by (simp add: record_digest_def Let_def)
  assume m: "ImagePushes (Timing s) = Some m"
  show "\<exists>m'. ImagePushes (Timing (record_digest t d s)) = Some m' \<and> fst ` set m' = insert (digest d) (fst ` set m) \<and>
       (\<forall>k v. map_of m k = Some v \<longrightarrow> map_of m' k = Some v)"
  proof (cases "map_of m (digest d)")
    case None
    then show ?thesis
      by (intro exI [of _ "AList.update (digest d) t m"])
         (auto simp: record_digest_def Let_def m dom_update update_conv')
  next
    case (Some v)
    then have "digest d \<in> fst ` set m" by (auto dest!: map_of_SomeD intro: rev_image_eqI)
    then show ?thesis using Some by (auto simp: record_digest_def Let_def m)
  qed
qed

lemma record_all_facts:
  "ImagePushes (Timing s) = Some m \<Longrightarrow>
     imageDigests (fold (record_digest t) ds s) = imageDigests s @ ds \<and>
     (\<exists>m'. ImagePushes (Timing (fold (record_digest t) ds s)) = Some m' \<and>
        fst ` set m' = digest ` set ds \<union> fst ` set m)"
proof (induction ds arbitrary: s m)
  case (Cons d ds)
  obtain m1 where m1: "ImagePushes (Timing (record_digest t d s)) = Some m1" "fst ` set m1 = insert (digest d) (fst ` set m)"
    using record_digest_facts(2) [OF Cons.prems] by blast
  show ?case using Cons.IH [OF m1(1)] m1(2) by (auto simp: record_digest_facts(1))
qed simp

text \<open>What an attempt to push leaves alone.\<close>

definition push_frame :: "bld \<Rightarrow> image_digest list \<times> timing_info \<times> build_status \<times> err option \<times> bool \<times> step_status list" where
  "push_frame s = (imageDigests s, Timing s, b_status s, b_err s, DoneClosed s, stepStatus s)"

lemma push_failed_frame: "push_frame (push_failed a out s) = push_frame s"
  by (simp add: push_frame_def)
     (simp add: push_failed_def Let_def split: prod.split option.split)

lemma push_retries_frame:
  "dockerPushWithRetries os img attempt s w = ((out, r), s', w') \<Longrightarrow>
     push_frame s' = push_frame s"
proof (induction os img attempt s w rule: dockerPushWithRetries.induct)
  case (1 os img attempt s w)
  obtain o1 r1 w1 where p: "runWithScrapedLogging os ''PUSH'' (push_args (newUUID os w) img) w = ((o1, r1), w1)"
    by (metis prod.collapse)
  show ?case
  proof (cases r1)
    case None
    then show ?thesis using 1(2) p by (subst (asm) dockerPushWithRetries.simps) (auto simp: push_frame_def)
  next
    case (Some e)
    let ?s = "push_failed (show_nat attempt) o1 (WriteMainEntry (''Pushing '' @ img) s)"
    have s: "push_frame ?s = push_frame s" by (simp only: push_failed_frame) (simp add: push_frame_def)
    show ?thesis
    proof (cases "attempt < maxPushRetries")
      case True
      then have "dockerPushWithRetries os img (attempt + 1) ?s (sleep_backoff os attempt w1) = ((out, r), s', w')"
        using 1(2) p Some by (subst (asm) dockerPushWithRetries.simps) (simp add: Let_def)
      from 1(1) [OF p [symmetric] refl Some refl True this] show ?thesis using s by simp
    next
      case False
      then show ?thesis using 1(2) p Some s by (subst (asm) dockerPushWithRetries.simps) (auto simp: Let_def push_frame_def)
    qed
  qed
qed

lemma dockerPush_frame:
  "dockerPush os img s w = (r, s', w') \<Longrightarrow> imageDigests s' = imageDigests s \<and> Timing s' = Timing s \<and>
     b_status s' = b_status s \<and> b_err s' = b_err s \<and> DoneClosed s' = DoneClosed s \<and> stepStatus s' = stepStatus s \<and>
     (\<forall>ds. r = Inr ds \<longrightarrow> (\<forall>d\<in>set ds. sha_digest (digest d)))"
proof -
  assume p: "dockerPush os img s w = (r, s', w')"
  then obtain out e where "dockerPushWithRetries os img 1 s w = ((out, e), s', w')"
    by (auto simp: dockerPush_def split: prod.splits option.splits)
  from push_retries_frame [OF this] have "push_frame s' = push_frame s" .
  moreover have "\<forall>ds. r = Inr ds \<longrightarrow> (\<forall>d\<in>set ds. sha_digest (digest d))"
    using p scrapePushDigests_lines by (fastforce simp: dockerPush_def split: prod.splits option.splits)
  ultimately show ?thesis by (simp add: push_frame_def)
qed

text \<open>Digests of an image are recorded under its repository name.\<close>

lemma resolved_digest:
  "d \<in> set (resolveDigestsForImage img ds) \<Longrightarrow>
     has_prefix (tag d) (hd (split_on CHR '':'' img)) \<and> (\<exists>d'\<in>set ds. digest d = digest d')"
  by (auto simp: resolveDigestsForImage_def Let_def has_prefix_iff split: if_splits)

lemma push_loop_records:
  "push_loop os imgs s w = (r, s', w') \<Longrightarrow> ImagePushes (Timing s) = Some m \<Longrightarrow>
     \<exists>new m'. imageDigests s' = imageDigests s @ new \<and> ImagePushes (Timing s') = Some m' \<and>
       fst ` set m' = digest ` set new \<union> fst ` set m \<and>
       (\<forall>d\<in>set new. sha_digest (digest d) \<and> (\<exists>img\<in>set imgs. has_prefix (tag d) (hd (split_on CHR '':'' img))))"
proof (induction imgs arbitrary: s w m)
  case (Cons img imgs)
  obtain r1 s1 w1 where p: "dockerPush os img s w = (r1, s1, w1)" using prod_cases3 by blast
  note f = dockerPush_frame [OF p]
  let ?t = "\<lparr>Start_time = now_of os w, End_time = Some (now_of os w1)\<rparr>"
  consider (skip) "r1 = Inl ErrorScrapingDigest" | (fail) e where "r1 = Inl e" "e \<noteq> ErrorScrapingDigest"
    | (go) ds where "r1 = Inr ds" by (cases r1) auto
  then show ?case
  proof cases
    case skip
    then have "push_loop os imgs s1 w1 = (r, s', w')" using Cons.prems(1) p by simp
    from Cons.IH [OF this] f Cons.prems(2) show ?thesis by fastforce
  next
    case fail
    then have "s' = s1" using Cons.prems(1) p by (auto simp: Let_def split: if_splits)
    then show ?thesis using f Cons.prems(2) by (intro exI [of _ "[]"] exI [of _ m]) simp
  next
    case go
    let ?ds = "resolveDigestsForImage img ds"
    have rest: "push_loop os imgs (fold (record_digest ?t) ?ds s1) w1 = (r, s', w')"
      using Cons.prems(1) p go by (simp add: Let_def)
    obtain m1 where m1: "imageDigests (fold (record_digest ?t) ?ds s1) = imageDigests s @ ?ds"
        "ImagePushes (Timing (fold (record_digest ?t) ?ds s1)) = Some m1" "fst ` set m1 = digest ` set ?ds \<union> fst ` set m"
      using record_all_facts [of s1 m ?t ?ds] f Cons.prems(2) by auto
    obtain new m' where n: "imageDigests s' = (imageDigests s @ ?ds) @ new" "ImagePushes (Timing s') = Some m'"
        "fst ` set m' = digest ` set new \<union> fst ` set m1"
        "\<forall>d\<in>set new. sha_digest (digest d) \<and> (\<exists>img\<in>set imgs. has_prefix (tag d) (hd (split_on CHR '':'' img)))"
      using Cons.IH [OF rest m1(2)] m1(1) by auto
    have "\<forall>d\<in>set ?ds. sha_digest (digest d) \<and> has_prefix (tag d) (hd (split_on CHR '':'' img))"
      using f go resolved_digest by metis
    then have "\<forall>d\<in>set (?ds @ new). sha_digest (digest d) \<and>
        (\<exists>img\<in>set (img # imgs). has_prefix (tag d) (hd (split_on CHR '':'' img)))"
      using n(4) by auto
    moreover have "fst ` set m' = digest ` set (?ds @ new) \<union> fst ` set m" using n(3) m1(3) by auto
    ultimately show ?thesis using n(1,2) by (intro exI [of _ "?ds @ new"] exI [of _ m']) simp
  qed
qed simp

context docker_client
begin

lemma dockerPush_issued:
  assumes "dockerPush os img s w = (r, s', w')"
  shows "\<exists>us. issued w' = issued w @ map (\<lambda>u. push_args u img) us \<and> 1 \<le> length us \<and> length us \<le> 10"
proof -
  obtain out e where "dockerPushWithRetries os img 1 s w = ((out, e), s', w')"
    using assms by (auto simp: dockerPush_def split: prod.splits option.splits)
  from push_retries_issued [OF this, of 9] show ?thesis by (auto simp: maxPushRetries_def Suc_le_eq)
qed

text \<open>The images that were tried are the first ones, in order, each with its own attempts.\<close>

lemma push_loop_issued:
  "push_loop os imgs s w = (r, s', w') \<Longrightarrow>
     \<exists>uss. issued w' = issued w @ concat (map2 (\<lambda>img us. map (\<lambda>u. push_args u img) us) imgs uss) \<and>
       length uss \<le> length imgs \<and> (r = None \<longrightarrow> length uss = length imgs) \<and>
       (\<forall>us\<in>set uss. 1 \<le> length us \<and> length us \<le> 10)"
proof (induction imgs arbitrary: s w)
  case (Cons img imgs)
  obtain r1 s1 w1 where p: "dockerPush os img s w = (r1, s1, w1)" using prod_cases3 by blast
  obtain us where us: "issued w1 = issued w @ map (\<lambda>u. push_args u img) us" "1 \<le> length us" "length us \<le> 10"
    using dockerPush_issued [OF p] by blast
  have "(\<exists>s2. push_loop os imgs s2 w1 = (r, s', w')) \<or> (r \<noteq> None \<and> w' = w1)"
    using Cons.prems p by (auto simp: Let_def split: sum.splits if_splits)
  then show ?case
  proof
    assume "\<exists>s2. push_loop os imgs s2 w1 = (r, s', w')"
    then obtain uss where "issued w' = issued w1 @ concat (map2 (\<lambda>img us. map (\<lambda>u. push_args u img) us) imgs uss)"
        "length uss \<le> length imgs" "r = None \<longrightarrow> length uss = length imgs" "\<forall>us\<in>set uss. 1 \<le> length us \<and> length us \<le> 10"
      using Cons.IH by blast
    then show ?thesis using us by (intro exI [of _ "us # uss"]) simp
  next
    assume "r \<noteq> None \<and> w' = w1"
    then show ?thesis using us by (intro exI [of _ "[us]"]) auto
  qed
qed simp

end

section \<open>Properties\<close>

text \<open>
  The images are pushed in the order of the request, each with one to ten attempts;
  when no error is returned, every image was pushed.
\<close>

theorem pushImages_commands:
  assumes "pushImages (real_os host clock uuids json random) h b s m = (r, s', m')"
  shows "\<exists>uss. logged m' = logged m @
       concat (map2 (\<lambda>img us. map (\<lambda>u. push_args u img) us) (deref h (Images b)) uss) \<and>
     length uss \<le> length (deref h (Images b)) \<and> (r = None \<longrightarrow> length uss = length (deref h (Images b))) \<and>
     (\<forall>us\<in>set uss. 1 \<le> length us \<and> length us \<le> 10)"
proof (cases "Images b")
  case None
  then show ?thesis using assms by (auto simp: pushImages_def deref_def)
next
  case (Some a)
  then show ?thesis using assms rdocker.push_loop_issued by (auto simp: pushImages_def)
qed

definition pushing_host :: host where
  "pushing_host h c args = Exits [(True, ''v1: digest: sha256:ab size: 9'')] None"

definition two_images :: build where
  "two_images = empty_build\<lparr>Images := Some 0\<rparr>"

theorem pushImages_commands_witness:
  "let r = pushImages (real_os pushing_host (\<lambda>_. 0) (\<lambda>_. ''u'') (\<lambda>_. None) (\<lambda>_. 0))
       (\<lambda>_. [''gcr.io/p/a'', ''gcr.io/p/b'']) two_images (New_build 0 two_images) idle_machine
   in fst r = None \<and> 2 \<le> length (logged (snd (snd r)))"
proof -
  let ?h = "\<lambda>_. [''gcr.io/p/a'', ''gcr.io/p/b'']"
  let ?r = "pushImages (real_os pushing_host (\<lambda>_. 0) (\<lambda>_. ''u'') (\<lambda>_. None) (\<lambda>_. 0)) ?h two_images
      (New_build 0 two_images) idle_machine"
  have ok: "fst ?r = None" by code_simp
  have run: "?r = (None, fst (snd ?r), snd (snd ?r))" using ok by (metis prod.collapse)
  have imgs: "deref ?h (Images two_images) = [''gcr.io/p/a'', ''gcr.io/p/b'']"
    by (simp add: two_images_def deref_def)
  from pushImages_commands [OF run] obtain uss where u:
      "logged (snd (snd ?r)) = logged idle_machine @
        concat (map2 (\<lambda>img us. map (\<lambda>u. push_args u img) us) [''gcr.io/p/a'', ''gcr.io/p/b''] uss)"
      "length uss = 2" "\<forall>us\<in>set uss. 1 \<le> length us"
    unfolding imgs by auto
  obtain x y where "uss = [x, y]" using u(2) by (auto simp: length_Suc_conv numeral_2_eq_2)
  then have "2 \<le> length (logged (snd (snd ?r)))" using u(1,3) by (simp add: idle_machine_def)
  with ok show ?thesis by (simp only: Let_def)
qed

text \<open>
  What is recorded about pushed images: the digests are only appended, each is a
  \<^verbatim>\<open>sha256\<close> digest under the repository name of an image of the request, and there is a timing
  for exactly the digests recorded.
\<close>

theorem pushImages_records:
  assumes "pushImages os h b s w = (r, s', w')" "Images b \<noteq> None"
  shows "\<exists>new m. imageDigests s' = imageDigests s @ new \<and> ImagePushes (Timing s') = Some m \<and>
     fst ` set m = digest ` set new \<and>
     (\<forall>d\<in>set new. sha_digest (digest d) \<and>
        (\<exists>img\<in>set (deref h (Images b)). has_prefix (tag d) (hd (split_on CHR '':'' img))))"
proof -
  have "push_loop os (deref h (Images b)) (s\<lparr>Timing := (Timing s)\<lparr>ImagePushes := Some []\<rparr>\<rparr>) w = (r, s', w')"
    using assms by (simp add: pushImages_def)
  from push_loop_records [OF this, of "[]"] show ?thesis by auto
qed

theorem pushImages_records_witness:
  "let r = pushImages (real_os pushing_host (\<lambda>_. 0) (\<lambda>_. ''u'') (\<lambda>_. None) (\<lambda>_. 0))
       (\<lambda>_. [''gcr.io/p/a'', ''gcr.io/p/b'']) two_images (New_build 0 two_images) idle_machine
   in map tag (imageDigests (fst (snd r))) = [''gcr.io/p/a:v1'', ''gcr.io/p/b:v1''] \<and>
      (\<forall>d\<in>set (imageDigests (fst (snd r))). sha_digest (digest d))"
proof -
  let ?r = "pushImages (real_os pushing_host (\<lambda>_. 0) (\<lambda>_. ''u'') (\<lambda>_. None) (\<lambda>_. 0))
       (\<lambda>_. [''gcr.io/p/a'', ''gcr.io/p/b'']) two_images (New_build 0 two_images) idle_machine"
  have tags: "map tag (imageDigests (fst (snd ?r))) = [''gcr.io/p/a:v1'', ''gcr.io/p/b:v1'']" by code_simp
  have run: "?r = (fst ?r, fst (snd ?r), snd (snd ?r))" by (metis prod.collapse)
  have "Images two_images \<noteq> None" by (simp add: two_images_def)
  from pushImages_records [OF run this]
  have "\<forall>d\<in>set (imageDigests (fst (snd ?r))). sha_digest (digest d)" by (auto simp: New_build_def)
  with tags show ?thesis by (simp only: Let_def)
qed

end
