(* ===== verification/Volume.thy ===== *)
theory Volume
  imports Runner
begin

text \<open>
  Package \<open>volume\<close> (\<open>volume/volume.go\<close>): a docker volume and the helper container through
  which files are copied. The helper is created on the first copy and removed by \<open>Close\<close>.
  Every operation takes the \<open>Run\<close> method of its runner.
\<close>

definition workspaceDir :: string where "workspaceDir = ''/workspace''"

record volume =
  vname :: string
  helper :: string
  createdHelper :: bool

definition New :: "string \<Rightarrow> volume" where
  "New n = \<lparr>vname = n, helper = n @ ''-helper'', createdHelper = False\<rparr>"

definition create_cmd :: "volume \<Rightarrow> string list" where
  "create_cmd v = [''docker'', ''volume'', ''create'', ''--name'', vname v]"

definition helper_cmd :: "volume \<Rightarrow> string list" where
  "helper_cmd v = [''docker'', ''run'', ''-v'', vname v @ '':'' @ workspaceDir, ''--name'', helper v, ''busybox'']"

definition copy_cmd :: "string \<Rightarrow> volume \<Rightarrow> string list" where
  "copy_cmd dir v = [''docker'', ''cp'', dir, helper v @ '':'' @ workspaceDir]"

definition export_cmd :: "string \<Rightarrow> volume \<Rightarrow> string list" where
  "export_cmd dir v = [''docker'', ''cp'', helper v @ '':'' @ workspaceDir, dir]"

definition rm_helper_cmd :: "volume \<Rightarrow> string list" where
  "rm_helper_cmd v = [''docker'', ''rm'', helper v]"

definition rm_volume_cmd :: "volume \<Rightarrow> string list" where
  "rm_volume_cmd v = [''docker'', ''volume'', ''rm'', vname v]"

definition Setup :: "'w run \<Rightarrow> ctx \<Rightarrow> volume \<Rightarrow> 'w \<Rightarrow> err option \<times> 'w" where
  "Setup run c v w = (case run c (create_cmd v) w of (a, w) \<Rightarrow> (run_err a, w))"

definition getHelperContainer ::
  "'w run \<Rightarrow> ctx \<Rightarrow> volume \<Rightarrow> 'w \<Rightarrow> (err + string) \<times> volume \<times> 'w"
where
  "getHelperContainer run c v w =
     (if \<not> createdHelper v then
        (case run c (helper_cmd v) w of
           (a, w) \<Rightarrow>
             (case run_err a of
                Some e \<Rightarrow> (Inl e, v, w)
              | None \<Rightarrow> (Inr (helper v), v\<lparr>createdHelper := True\<rparr>, w)))
      else (Inr (helper v), v, w))"

definition with_helper ::
  "(volume \<Rightarrow> string list) \<Rightarrow> 'w run \<Rightarrow> ctx \<Rightarrow> volume \<Rightarrow> 'w \<Rightarrow> err option \<times> volume \<times> 'w"
where
  "with_helper cmd run c v w =
     (case getHelperContainer run c v w of
        (Inl e, v, w) \<Rightarrow> (Some e, v, w)
      | (Inr h, v, w) \<Rightarrow> (case run c (cmd v) w of (a, w) \<Rightarrow> (run_err a, v, w)))"

definition Copy :: "'w run \<Rightarrow> ctx \<Rightarrow> string \<Rightarrow> volume \<Rightarrow> 'w \<Rightarrow> err option \<times> volume \<times> 'w" where
  "Copy run c dir = with_helper (copy_cmd dir) run c"

definition Export :: "'w run \<Rightarrow> ctx \<Rightarrow> string \<Rightarrow> volume \<Rightarrow> 'w \<Rightarrow> err option \<times> volume \<times> 'w" where
  "Export run c dir = with_helper (export_cmd dir) run c"

text \<open>The flag \<open>createdHelper\<close> stays set.\<close>

definition Close :: "'w run \<Rightarrow> ctx \<Rightarrow> volume \<Rightarrow> 'w \<Rightarrow> err option \<times> 'w" where
  "Close run c v w =
     (if createdHelper v then
        (case run c (rm_helper_cmd v) w of
           (a, w) \<Rightarrow>
             (case run_err a of
                Some e \<Rightarrow> (Some e, w)
              | None \<Rightarrow> (case run c (rm_volume_cmd v) w of (a, w) \<Rightarrow> (run_err a, w))))
      else (case run c (rm_volume_cmd v) w of (a, w) \<Rightarrow> (run_err a, w)))"

text \<open>A sequence of copies into and out of the volume; a failing one does not stop the next.\<close>

datatype volume_op = DoCopy string | DoExport string

fun use_volume :: "'w run \<Rightarrow> ctx \<Rightarrow> volume_op list \<Rightarrow> volume \<Rightarrow> 'w \<Rightarrow> err option list \<times> volume \<times> 'w" where
  "use_volume run c [] v w = ([], v, w)"
| "use_volume run c (op # ops) v w =
     (case (case op of DoCopy d \<Rightarrow> Copy run c d v w | DoExport d \<Rightarrow> Export run c d v w) of
        (r, v, w) \<Rightarrow> (case use_volume run c ops v w of (rs, v, w) \<Rightarrow> (r # rs, v, w)))"

section \<open>The helper container\<close>

lemma getHelperContainer_facts:
  assumes "getHelperContainer run c v w = (r, v', w')"
  shows "vname v' = vname v" "helper v' = helper v" "createdHelper v \<Longrightarrow> v' = v \<and> w' = w"
    "createdHelper v' \<longleftrightarrow> (\<exists>h. r = Inr h)" "\<forall>h. r = Inr h \<longrightarrow> h = helper v"
  using assms by (auto simp: getHelperContainer_def split: if_splits prod.splits option.splits)

lemma with_helper_facts:
  assumes "with_helper cmd run c v w = (r, v', w')"
  shows "vname v' = vname v \<and> helper v' = helper v \<and> (createdHelper v \<longrightarrow> createdHelper v') \<and>
     (r = None \<longrightarrow> createdHelper v')"
proof -
  obtain g v1 w1 where g: "getHelperContainer run c v w = (g, v1, w1)" using prod_cases3 by blast
  show ?thesis
    using assms getHelperContainer_facts [OF g] g
    by (auto simp: with_helper_def split: sum.splits prod.splits)
qed

context command_runner
begin

text \<open>A copy first creates the helper if there is none, and does not copy if that fails.\<close>

lemma with_helper_issued:
  assumes "with_helper cmd run c v w = (r, v', w')"
  shows "issued w' = issued w @ (if createdHelper v then [] else [helper_cmd v]) @
     (if createdHelper v' then [cmd v'] else [])"
proof -
  obtain g v1 w1 where g: "getHelperContainer run c v w = (g, v1, w1)" using prod_cases3 by blast
  have get: "issued w1 = issued w @ (if createdHelper v then [] else [helper_cmd v])"
    using g run_issuedD [of c "helper_cmd v" w]
    by (auto simp: getHelperContainer_def split: if_splits prod.splits option.splits)
  show ?thesis
  proof (cases g)
    case (Inl e)
    then have "r = Some e" "v' = v1" "w' = w1" using assms g by (auto simp: with_helper_def)
    moreover have "\<not> createdHelper v1" using getHelperContainer_facts(4) [OF g] Inl by simp
    ultimately show ?thesis using get by simp
  next
    case (Inr h)
    obtain a w2 where a: "run c (cmd v1) w1 = (a, w2)" by fastforce
    then have "r = run_err a" "v' = v1" "w' = w2" using assms g Inr by (auto simp: with_helper_def)
    moreover have "createdHelper v1" using getHelperContainer_facts(4) [OF g] Inr by simp
    ultimately show ?thesis using get run_issuedD [OF a] by simp
  qed
qed

text \<open>
  How often the helper was asked for and whether it is there: over a sequence of
  operations, every request but the last failed.
\<close>

lemma use_volume_created:
  "use_volume run c ops v w = (rs, v', w') \<Longrightarrow>
     vname v' = vname v \<and> helper v' = helper v \<and> (createdHelper v \<longrightarrow> createdHelper v')"
proof (induction ops arbitrary: v w rs)
  case (Cons op ops)
  obtain cmd where op: "(case op of DoCopy d \<Rightarrow> Copy run c d v w | DoExport d \<Rightarrow> Export run c d v w) =
      with_helper cmd run c v w" by (cases op) (auto simp: Copy_def Export_def)
  obtain r v1 w1 where s: "with_helper cmd run c v w = (r, v1, w1)" using prod_cases3 by blast
  obtain rs' where "use_volume run c ops v1 w1 = (rs', v', w')"
    using Cons.prems by (auto simp: op s split: prod.splits)
  then show ?case using Cons.IH with_helper_facts [OF s] by metis
qed simp

lemma use_volume_helper_once:
  assumes "use_volume run c ops v w = (rs, v', w')" "createdHelper v"
    and "\<forall>d. copy_cmd d v \<noteq> helper_cmd v \<and> export_cmd d v \<noteq> helper_cmd v"
  shows "count_list (issued w') (helper_cmd v) = count_list (issued w) (helper_cmd v)"
  using assms
proof (induction ops arbitrary: v w rs)
  case (Cons op ops)
  obtain cmd where op: "(case op of DoCopy d \<Rightarrow> Copy run c d v w | DoExport d \<Rightarrow> Export run c d v w) =
      with_helper cmd run c v w" "cmd v \<noteq> helper_cmd v"
    using Cons.prems(3) by (cases op) (auto simp: Copy_def Export_def)
  obtain a w1 where a: "run c (cmd v) w = (a, w1)" by fastforce
  have s: "with_helper cmd run c v w = (run_err a, v, w1)"
    using Cons.prems(2) a by (simp add: with_helper_def getHelperContainer_def)
  obtain rs' where "use_volume run c ops v w1 = (rs', v', w')"
    using Cons.prems(1) by (auto simp: op(1) s split: prod.splits)
  then have "count_list (issued w') (helper_cmd v) = count_list (issued w1) (helper_cmd v)"
    using Cons.IH Cons.prems(2,3) by blast
  then show ?case using run_issuedD [OF a] op(2) by simp
qed simp

lemma Close_issued:
  "\<exists>cs. issued (snd (Close run c v w)) = issued w @ cs \<and>
     (if createdHelper v
      then cs = [rm_helper_cmd v] \<and> fst (Close run c v w) \<noteq> None \<or>
           cs = [rm_helper_cmd v, rm_volume_cmd v]
      else cs = [rm_volume_cmd v])"
proof (cases "createdHelper v")
  case True
  obtain a w1 where a: "run c (rm_helper_cmd v) w = (a, w1)" by fastforce
  obtain a2 w2 where a2: "run c (rm_volume_cmd v) w1 = (a2, w2)" by fastforce
  show ?thesis
    using True a a2 run_issuedD [OF a] run_issuedD [OF a2]
    by (cases "run_err a") (simp_all add: Close_def)
next
  case False
  obtain a w1 where a: "run c (rm_volume_cmd v) w = (a, w1)" by fastforce
  then show ?thesis using False run_issuedD [OF a] by (simp add: Close_def)
qed

text \<open>The life of a volume that works: created, filled, emptied, removed.\<close>

lemma Setup_issued: "Setup run c v w = (r, w') \<Longrightarrow> issued w' = issued w @ [create_cmd v]"
  using run_issuedD [of c "create_cmd v" w] by (auto simp: Setup_def split: prod.splits)

end

lemma helper_cmd_other: "copy_cmd d v \<noteq> helper_cmd v" "export_cmd d v \<noteq> helper_cmd v"
  by (simp_all add: copy_cmd_def export_cmd_def helper_cmd_def)

section \<open>Properties\<close>

text \<open>
  The helper container is created at most once: as soon as one copy has succeeded, no
  later copy or export of the volume creates it again, whatever fails in between.
\<close>

theorem helper_created_once:
  assumes "Copy (RealRunner_Run host) c d v w = (None, v1, w1)"
    and "use_volume (RealRunner_Run host) c ops v1 w1 = (rs, v2, w2)"
  shows "createdHelper v2 \<and> count_list (logged w2) (helper_cmd v) = count_list (logged w1) (helper_cmd v)"
proof -
  have v1: "createdHelper v1" "vname v1 = vname v" "helper v1 = helper v"
    using with_helper_facts assms(1) by (metis Copy_def)+
  then have h: "helper_cmd v1 = helper_cmd v" by (simp add: helper_cmd_def)
  have "count_list (logged w2) (helper_cmd v1) = count_list (logged w1) (helper_cmd v1)"
    by (rule real.use_volume_helper_once [OF assms(2) v1(1)]) (simp add: helper_cmd_other)
  then show ?thesis using real.use_volume_created [OF assms(2)] v1(1) by (simp add: h)
qed

text \<open>A host on which every command exits without an error, for the concrete examples.\<close>

definition good_host :: host where
  "good_host h c args = Exits [] None"

definition idle :: machine where
  "idle = \<lparr>DryRun = False, logged = [], started = [], ctx_err = None, slept = [], printed = []\<rparr>"

theorem helper_created_once_witness:
  "let (r, v1, w1) = Copy (RealRunner_Run good_host) BuildCtx ''src'' (New ''v'') idle;
       (rs, v2, w2) = use_volume (RealRunner_Run good_host) BuildCtx [DoExport ''out'', DoCopy ''x''] v1 w1
   in count_list (logged w2) (helper_cmd (New ''v'')) = 1 \<and> createdHelper v2"
proof -
  obtain v1 w1 where c: "Copy (RealRunner_Run good_host) BuildCtx ''src'' (New ''v'') idle = (None, v1, w1)"
      "logged w1 = [helper_cmd (New ''v''), copy_cmd ''src'' (New ''v'')]"
    by (simp add: Copy_def with_helper_def getHelperContainer_def RealRunner_Run_def good_host_def New_def
        idle_def copy_cmd_def)
  obtain rs v2 w2 where u: "use_volume (RealRunner_Run good_host) BuildCtx [DoExport ''out'', DoCopy ''x''] v1 w1 = (rs, v2, w2)"
    using prod_cases3 by blast
  show ?thesis
    unfolding Let_def c(1) prod.case u using helper_created_once [OF c(1) u] c(2) helper_cmd_other by simp
qed

text \<open>
  \<open>Close\<close> removes the helper container before the volume, removes it exactly if it was
  created, and leaves the volume in place when the helper cannot be removed.
\<close>

theorem Close_order:
  "\<exists>cs. logged (snd (Close (RealRunner_Run host) c v w)) = logged w @ cs \<and>
     (if createdHelper v
      then cs = [rm_helper_cmd v] \<and> fst (Close (RealRunner_Run host) c v w) \<noteq> None \<or>
           cs = [rm_helper_cmd v, rm_volume_cmd v]
      else cs = [rm_volume_cmd v])"
  by (rule real.Close_issued)

end
