(* ===== verification/Frame.thy ===== *)
theory Frame
  imports Build_Push Volume
begin

text \<open>
  What an operation may do to the world, whatever it returns. A relation that holds between
  the world before and after each call of \<open>Run\<close>, each access to a file, each sleep and each
  write to the log, and that is reflexive and transitive, holds between the world before and after every operation of
  the build. The two uses are that operations only add to the commands issued, and that a
  dry run starts nothing.
\<close>

section \<open>One relation for the runner\<close>

locale run_frame =
  fixes run :: "'w run" and R :: "'w \<Rightarrow> 'w \<Rightarrow> bool"
  assumes R_refl: "R w w"
    and R_trans: "R u v \<Longrightarrow> R v w \<Longrightarrow> R u w"
    and R_run: "R w (snd (run c args w))"
begin

lemma R_runD: "run c args w = (a, w') \<Longrightarrow> R w w'"
  using R_run by (metis snd_conv)

lemma R_run_seq: "run_seq run c cmds w = (r, w') \<Longrightarrow> R w w'"
proof (induction cmds arbitrary: w)
  case (Cons cmd cmds)
  obtain a w1 where a: "run c cmd w = (a, w1)" by fastforce
  then have "w' = w1 \<or> run_seq run c cmds w1 = (r, w')" using Cons.prems by (cases "run_err a") simp_all
  then show ?case using Cons.IH R_runD [OF a] R_trans by blast
qed (simp add: R_refl)

lemma R_Setup: "Setup run c v w = (r, w') \<Longrightarrow> R w w'"
  using R_runD by (auto simp: Setup_def split: prod.splits)

lemma R_with_helper:
  assumes "with_helper cmd run c v w = (r, v', w')"
  shows "R w w'"
proof -
  obtain g v1 w1 where g: "getHelperContainer run c v w = (g, v1, w1)" using prod_cases3 by blast
  have "R w w1"
    using g R_refl R_runD by (auto simp: getHelperContainer_def split: if_splits prod.splits option.splits)
  moreover have "w' = w1 \<or> (\<exists>a. run c (cmd v1) w1 = (a, w'))"
    using assms g by (auto simp: with_helper_def split: sum.splits prod.splits)
  ultimately show ?thesis using R_runD R_trans by blast
qed

lemma R_Close: "R w (snd (Close run c v w))"
proof -
  obtain a w1 where a: "run c (rm_helper_cmd v) w = (a, w1)" by fastforce
  obtain b w2 where b: "run c (rm_volume_cmd v) w1 = (b, w2)" by fastforce
  obtain d w3 where d: "run c (rm_volume_cmd v) w = (d, w3)" by fastforce
  show ?thesis
    using a b d R_runD [OF a] R_runD [OF b] R_runD [OF d] R_trans [OF R_runD [OF a] R_runD [OF b]]
    by (cases "run_err a") (simp_all add: Close_def)
qed

lemma R_first_success:
  assumes "\<And>w r w'. f w = (r, w') \<Longrightarrow> R w w'" "\<And>k w. R w (pause k w)"
  shows "first_success n f pause k w = (r, w') \<Longrightarrow> R w w'"
proof (induction n arbitrary: k w)
  case 0
  then show ?case using assms(1) by simp
next
  case (Suc n)
  obtain q w1 where q: "f w = (q, w1)" by fastforce
  have "w' = w1 \<or> first_success n f pause (Suc k) (pause k w1) = (r, w')"
    using Suc.prems q by (cases q) simp_all
  then show ?case using Suc.IH assms(1) [OF q] assms(2) [of w1 k] R_trans by blast
qed

lemma R_cleanBuildSteps: "R w (cleanBuildSteps run b w)"
  unfolding cleanBuildSteps_def by (rule R_run)

end

section \<open>One relation for the build\<close>

locale world_frame =
  fixes os :: "'w os" and fs :: "'w files" and R :: "'w \<Rightarrow> 'w \<Rightarrow> bool"
  assumes frame_refl: "R w w"
    and frame_trans: "R u v \<Longrightarrow> R v w \<Longrightarrow> R u w"
    and frame_run: "R w (snd (Run os c args w))"
    and frame_temp: "R w (snd (TempFile fs dir pat w))"
    and frame_write: "R w (snd (WriteOver fs p content w))"
    and frame_remove: "R w (RemoveFile fs p w)"
    and frame_sleep: "R w (Sleep os d w)"
    and frame_log: "R w (LogWrite os p out line w)"

sublocale world_frame \<subseteq> rf: run_frame "Run os" R
  by unfold_locales (rule frame_refl, rule frame_trans, assumption+, rule frame_run)

context world_frame
begin

lemma R_log_answer: "R w (log_answer os prefix a w)"
proof -
  have "R w (fold (\<lambda>(out, line). LogWrite os (prefix out) out line) xs w)" for xs
    by (induction xs arbitrary: w) (auto intro: frame_refl frame_log frame_trans)
  then show ?thesis by (simp add: log_answer_def)
qed

lemma R_sleep_backoff: "R w (sleep_backoff os k w)"
  unfolding sleep_backoff_def by (rule frame_sleep)

lemma R_runWithScrapedLogging: "runWithScrapedLogging os p cmd w = (r, w') \<Longrightarrow> R w w'"
  using rf.R_runD R_log_answer frame_trans by (fastforce simp: runWithScrapedLogging_def split: prod.splits)

lemma R_dockerPushWithRetries:
  "dockerPushWithRetries os img attempt s w = (r, s', w') \<Longrightarrow> R w w'"
proof (induction "maxPushRetries - attempt" arbitrary: attempt s w rule: less_induct)
  case less
  let ?cmd = "push_args (newUUID os w) img"
  obtain out e w1 where a: "runWithScrapedLogging os ''PUSH'' ?cmd w = ((out, e), w1)" by (metis prod.collapse)
  have i: "R w w1" by (rule R_runWithScrapedLogging [OF a])
  show ?case
  proof (cases "e \<noteq> None \<and> attempt < maxPushRetries")
    case True
    let ?s = "push_failed (show_nat attempt) out (WriteMainEntry (''Pushing '' @ img) s)"
    have "dockerPushWithRetries os img (attempt + 1) ?s (sleep_backoff os attempt w1) = (r, s', w')"
      using less.prems a True by (subst (asm) dockerPushWithRetries.simps) (auto simp: Let_def)
    then have "R (sleep_backoff os attempt w1) w'" using less.hyps [of "attempt + 1"] True by auto
    then show ?thesis using i R_sleep_backoff frame_trans by blast
  next
    case False
    then have "w' = w1"
      using less.prems a
      by (subst (asm) dockerPushWithRetries.simps) (auto simp: Let_def split: option.splits if_splits)
    then show ?thesis using i by simp
  qed
qed

lemma R_dockerPush: "dockerPush os img s w = (r, s', w') \<Longrightarrow> R w w'"
  using R_dockerPushWithRetries by (auto simp: dockerPush_def split: prod.splits option.splits)

lemma R_push_loop: "push_loop os imgs s w = (r, s', w') \<Longrightarrow> R w w'"
proof (induction imgs arbitrary: s w)
  case (Cons img imgs)
  obtain q s1 w1 where p: "dockerPush os img s w = (q, s1, w1)" using prod_cases3 by blast
  have "w' = w1 \<or> (\<exists>s2. push_loop os imgs s2 w1 = (r, s', w'))"
    using Cons.prems p by (auto simp: Let_def split: sum.splits if_splits)
  then show ?case using Cons.IH R_dockerPush [OF p] frame_trans by blast
qed (simp add: frame_refl)

lemma R_pushImages: "pushImages os h b s w = (r, s', w') \<Longrightarrow> R w w'"
  using R_push_loop frame_refl by (auto simp: pushImages_def split: if_splits)

lemma R_runGsutil:
  assumes "runGsutil os label flags cmd w = (r, w')"
  shows "R w w'"
proof -
  obtain a w1 where a: "Run os BuildCtx (gsutil_args (newUUID os w) flags cmd) w = (a, w1)" by fastforce
  have "w' = w \<or> w' = w1 \<or> w' = log_answer os (\<lambda>_. label) a w1"
    using assms a by (auto simp: runGsutil_def runWithOptionalLogging_def split: if_splits)
  then show ?thesis using rf.R_runD [OF a] R_log_answer frame_refl frame_trans by blast
qed

lemma R_update_locations: "update_locations os flags rs w = (r, w') \<Longrightarrow> R w w'"
proof (induction rs arbitrary: w r)
  case (Cons x rs)
  obtain g w1 where g: "getGeneration os flags (r_Location x) w = (g, w1)" by fastforce
  obtain out e where "runGsutil os [] flags [''ls'', ''-a'', r_Location x] w = ((out, e), w1)"
    using g by (auto simp: getGeneration_def Let_def split: prod.splits option.splits if_splits)
  note i = R_runGsutil [OF this]
  have "w' = w1 \<or> (\<exists>r1. update_locations os flags rs w1 = (r1, w'))"
    using Cons.prems g by (cases g) (auto split: prod.splits sum.splits)
  then show ?case using Cons.IH i frame_trans by blast
qed (simp add: frame_refl)

lemma R_UploadArtifacts:
  assumes "UploadArtifacts os fs flags src dest w = (r, w')"
  shows "R w w'"
proof -
  obtain t w1 where t: "TempFile fs (Tmpdir flags) (''manifest_'' @ newUUID os w @ ''.log'') w = (t, w1)" by fastforce
  have i: "R w w1" using frame_temp t by (metis snd_conv)
  show ?thesis
  proof (cases "Tmpdir flags = [] \<or> (\<exists>e. t = Inl e)")
    case True
    then show ?thesis using assms t i frame_refl by (auto simp: UploadArtifacts_def split: if_splits)
  next
    case False
    then obtain m where m: "t = Inr m" "Tmpdir flags \<noteq> []" by (cases t) auto
    obtain out e w2 where g: "runGsutil os src flags [''-m'', ''cp'', ''-L'', m, src, dest] w1 = ((out, e), w2)"
      by (metis prod.collapse)
    have "w' = w2 \<or> (\<exists>rs. update_locations os flags rs w2 = (r, w'))"
      using assms t m g by (auto simp: UploadArtifacts_def split: option.splits sum.splits)
    then show ?thesis using R_update_locations R_runGsutil [OF g] i frame_trans by blast
  qed
qed

lemma R_upload_paths:
  "upload_paths os fs flags location srcs results s w = (r, s', w') \<Longrightarrow> R w w'"
proof (induction srcs arbitrary: results s w)
  case (Cons src srcs)
  obtain q w1 where u: "UploadArtifacts os fs flags src location w = (q, w1)" by fastforce
  have "w' = w1 \<or> (\<exists>rs s2. upload_paths os fs flags location srcs rs s2 w1 = (r, s', w'))"
    using Cons.prems u by (cases q) (auto simp: Let_def)
  then show ?case using Cons.IH R_UploadArtifacts [OF u] frame_trans by blast
qed (simp add: frame_refl)

lemma R_UploadArtifactsManifest:
  assumes "UploadArtifactsManifest os fs flags manifest bucket results w = (r, w')"
  shows "R w w'"
proof -
  let ?p = "path_join [Tmpdir flags, manifest]"
  obtain q w1 where c: "createArtifactsManifest fs ?p results w = (q, w1)" by fastforce
  have i: "R w w1" using frame_write c unfolding createArtifactsManifest_def by (metis snd_conv)
  show ?thesis
  proof (cases q)
    case (Some e)
    then show ?thesis using assms c i by (auto simp: UploadArtifactsManifest_def Let_def)
  next
    case None
    obtain out e w2 where g: "runGsutil os [] flags [''cp'', ?p, bucket] w1 = ((out, e), w2)" by (metis prod.collapse)
    then have "w' = RemoveFile fs ?p w2"
      using assms c None by (auto simp: UploadArtifactsManifest_def Let_def split: option.splits)
    then show ?thesis using R_runGsutil [OF g] i frame_remove frame_trans by blast
  qed
qed

lemma R_VerifyBucket: "VerifyBucket os bucket w = (r, w') \<Longrightarrow> R w w'"
  using rf.R_runD by (auto simp: VerifyBucket_def split: prod.splits)

lemma R_pushArtifacts:
  assumes "pushArtifacts os fs hostWs tmp b s w = (r, s', w')"
  shows "R w w'"
proof (cases "artifacts_objects b")
  case None
  then show ?thesis using assms frame_refl by (simp add: pushArtifacts_def)
next
  case (Some obj)
  obtain q w1 where v: "VerifyBucket os (extractGCSBucket (Location obj)) w = (q, w1)" by fastforce
  have "w' = w1 \<or> (\<exists>w2. R w1 w2 \<and> (w' = w2 \<or> R w2 w'))"
    using assms Some v
    by (auto simp: pushArtifacts_def Let_def split: option.splits prod.splits sum.splits
        dest!: R_upload_paths R_UploadArtifactsManifest)
  then show ?thesis using R_VerifyBucket [OF v] frame_trans by metis
qed

lemma R_pushAll:
  assumes "pushAll os fs hostWs tmp h b s w = (r, s', w')"
  shows "R w w'"
proof -
  have "w' = w \<or> (\<exists>s1 q s2 w2. pushImages os h b s1 w = (q, s2, w2) \<and>
      (w' = w2 \<or> (\<exists>r s3. pushArtifacts os fs hostWs tmp b s2 w2 = (r, s3, w'))))"
    using assms by (auto simp: pushAll_def Let_def split: if_splits prod.splits option.splits)
  then show ?thesis using R_pushImages R_pushArtifacts frame_refl frame_trans by blast
qed

lemma R_run_token_container:
  "run_token_container os prefix script msg auth s w = (r, s', w') \<Longrightarrow> R w w'"
  using rf.R_runD by (auto simp: run_token_container_def split: prod.splits option.splits)

lemma R_SetDockerAccessToken: "SetDockerAccessToken os tok s w = (r, s', w') \<Longrightarrow> R w w'"
  unfolding SetDockerAccessToken_def Let_def by (rule R_run_token_container)

lemma R_UpdateDockerAccessToken: "UpdateDockerAccessToken os tok s w = (r, s', w') \<Longrightarrow> R w w'"
  using R_run_token_container frame_refl
  by (auto simp: UpdateDockerAccessToken_def Let_def split: if_splits)

end

section \<open>Every operation only adds commands\<close>

definition extends :: "('w \<Rightarrow> string list list) \<Rightarrow> 'w \<Rightarrow> 'w \<Rightarrow> bool" where
  "extends issued w w' \<longleftrightarrow> (\<exists>cs. issued w' = issued w @ cs)"

sublocale command_runner \<subseteq> grow: run_frame run "extends issued"
  by unfold_locales (auto simp: extends_def run_issued)

sublocale gsutil_client \<subseteq> adds: world_frame os fs "extends issued"
  by unfold_locales (auto simp: extends_def os_issued temp_issued write_issued remove_issued)

section \<open>A dry run starts nothing\<close>

text \<open>In dry-run mode the runner stays in that mode and starts no process.\<close>

definition quiet :: "machine \<Rightarrow> machine \<Rightarrow> bool" where
  "quiet m m' \<longleftrightarrow> (DryRun m \<longrightarrow> DryRun m' \<and> started m' = started m)"

lemma quiet_refl: "quiet m m"
  and quiet_trans: "quiet a b \<Longrightarrow> quiet b c \<Longrightarrow> quiet a c"
  by (auto simp: quiet_def)

lemma quiet_run: "quiet m (snd (RealRunner_Run host c args m))"
  by (simp add: quiet_def RealRunner_Run_def)

lemma quiet_note: "quiet m (m\<lparr>slept := ds\<rparr>)" "quiet m (m\<lparr>printed := ps\<rparr>)"
  by (simp_all add: quiet_def)

interpretation rquiet: world_frame "real_os host clock uuids json random" "real_files temp rd wr enc" quiet
  for host clock uuids json random temp rd wr enc
  by unfold_locales
    (auto simp: real_os_def real_files_def quiet_run quiet_refl quiet_note intro: quiet_trans)

end
