(* ===== verification/Build_Run.thy ===== *)
theory Build_Run
  imports Frame
begin

text \<open>
  The frame of a build (\<open>build/build.go\<close>): \<open>Start\<close> with the home volume, the status and the
  push, and the sequential part of \<open>runBuildSteps\<close>, which creates the volumes of the steps
  before the goroutines start and removes the containers and the volumes after they are
  done. The goroutines themselves are the transition system of \<open>Build_Sched\<close>; here they are
  an argument, the \<open>core\<close>, any function on the state and the world. Deferred calls run in the
  opposite order of their \<open>defer\<close> statements, whatever the function returns.
\<close>

section \<open>The volumes of the steps\<close>

definition step_volumes :: "build \<Rightarrow> string list" where
  "step_volumes b = map v_Name (options_Volumes b @ concat (map s_Volumes (Steps b)))"

text \<open>The volumes that were created are returned last first, the order in which they are closed.\<close>

fun setup_volumes ::
  "'w run \<Rightarrow> string list \<Rightarrow> string list \<Rightarrow> volume list \<Rightarrow> 'w \<Rightarrow> err option \<times> volume list \<times> 'w"
where
  "setup_volumes run [] initialized vols w = (None, vols, w)"
| "setup_volumes run (n # ns) initialized vols w =
     (if n \<in> set initialized then setup_volumes run ns initialized vols w
      else case Setup run BuildCtx (New n) w of
             (Some e, w) \<Rightarrow> (Some e, vols, w)
           | (None, w) \<Rightarrow> setup_volumes run ns (n # initialized) (New n # vols) w)"

fun close_volumes :: "'w run \<Rightarrow> volume list \<Rightarrow> 'w \<Rightarrow> 'w" where
  "close_volumes run [] w = w"
| "close_volumes run (v # vs) w = close_volumes run vs (snd (Close run Background v w))"

type_synonym 'w core = "bld \<Rightarrow> 'w \<Rightarrow> err option \<times> bld \<times> 'w"

definition end_total :: "'w os \<Rightarrow> int \<Rightarrow> bld \<Rightarrow> 'w \<Rightarrow> bld" where
  "end_total os start s w =
     s\<lparr>Timing := (Timing s)\<lparr>BuildTotal := Some \<lparr>Start_time = start, End_time = Some (now_of os w)\<rparr>\<rparr>\<rparr>"

definition runBuildSteps :: "'w os \<Rightarrow> build \<Rightarrow> 'w core \<Rightarrow> 'w core" where
  "runBuildSteps os b core s w =
     (let start = now_of os w;
          s = s\<lparr>Timing := (Timing s)\<lparr>BuildTotal := Some \<lparr>Start_time = start, End_time = None\<rparr>\<rparr>\<rparr>
      in case setup_volumes (Run os) (step_volumes b) [] [] w of
           (Some e, vols, w) \<Rightarrow>
             (let w = close_volumes (Run os) vols w in (Some e, end_total os start s w, w))
         | (None, vols, w) \<Rightarrow>
             (let n = length (Steps b);
                  s = s\<lparr>Timing := (Timing s)\<lparr>BuildSteps := replicate n None, BuildStepPulls := replicate n None\<rparr>\<rparr>
              in case core s w of
                   (r, s, w) \<Rightarrow>
                     (let w = close_volumes (Run os) vols (cleanBuildSteps (Run os) b w)
                      in (r, end_total os start s w, w))))"

section \<open>Start\<close>

record build_options_of =
  local_build :: bool
  push_build :: bool

definition invalid_timeout :: "build \<Rightarrow> bool" where
  "invalid_timeout b =
     (case Timeout b of
        None \<Rightarrow> False
      | Some t \<Rightarrow> (case ptypes_Duration t of Inl e \<Rightarrow> True | Inr d \<Rightarrow> False))"

text \<open>What \<open>Start\<close> does between the two operations on the home volume.\<close>

definition build_and_push :: "build_options_of \<Rightarrow> 'w os \<Rightarrow> build \<Rightarrow> 'w core \<Rightarrow> 'w core \<Rightarrow> bld \<Rightarrow> 'w \<Rightarrow> bld \<times> 'w" where
  "build_and_push opts os b core push s w =
     (if invalid_timeout b then (FailBuild (now_of os w) (ErrText ''invalid timeout'') s, w)
      else
        (case runBuildSteps os b core (UpdateStatus (now_of os w) StatusBuild s) w of
           (Some e, s, w) \<Rightarrow> (FailBuild (now_of os w) e s, w)
         | (None, s, w) \<Rightarrow>
             if push_build opts then
               (case push (UpdateStatus (now_of os w) StatusPush s) w of
                  (Some e, s, w) \<Rightarrow> (FailBuild (now_of os w) e s, w)
                | (None, s, w) \<Rightarrow> (UpdateStatus (now_of os w) StatusDone s, w))
             else (UpdateStatus (now_of os w) StatusDone s, w)))"

definition Start :: "build_options_of \<Rightarrow> 'w os \<Rightarrow> build \<Rightarrow> 'w core \<Rightarrow> 'w core \<Rightarrow> bld \<Rightarrow> 'w \<Rightarrow> bld \<times> 'w" where
  "Start opts os b core push s w =
     (let homeVol = New homeVolume
      in case (case Setup (Run os) BuildCtx homeVol w of
                 (Some e, w) \<Rightarrow> (FailBuild (now_of os w) e s, w)
               | (None, w) \<Rightarrow>
                   (case build_and_push opts os b core push s w of
                      (s, w) \<Rightarrow> (s, snd (Close (Run os) Background homeVol w)))) of
           (s, w) \<Rightarrow> (if local_build opts then s\<lparr>DoneClosed := True\<rparr> else s, w))"

section \<open>The outcome of a build\<close>

text \<open>Operations that leave the status and the error of the build alone.\<close>

definition keeps_status :: "'w core \<Rightarrow> bool" where
  "keeps_status f \<longleftrightarrow>
     (\<forall>s w r s' w'. f s w = (r, s', w') \<longrightarrow> b_status s' = b_status s \<and> b_err s' = b_err s \<and> DoneClosed s' = DoneClosed s)"

lemma keeps_statusD:
  "keeps_status f \<Longrightarrow> f s w = (r, s', w') \<Longrightarrow>
     b_status s' = b_status s \<and> b_err s' = b_err s \<and> DoneClosed s' = DoneClosed s"
  unfolding keeps_status_def by blast

lemma end_total_simps [simp]:
  "b_status (end_total os t s w) = b_status s" "b_err (end_total os t s w) = b_err s"
  "DoneClosed (end_total os t s w) = DoneClosed s"
  by (simp_all add: end_total_def)

lemma runBuildSteps_keeps: "keeps_status core \<Longrightarrow> keeps_status (runBuildSteps os b core)"
  unfolding keeps_status_def
proof (intro allI impI)
  fix s w r s' w'
  assume core: "\<forall>s w r s' w'. core s w = (r, s', w') \<longrightarrow>
      b_status s' = b_status s \<and> b_err s' = b_err s \<and> DoneClosed s' = DoneClosed s"
    and run: "runBuildSteps os b core s w = (r, s', w')"
  obtain q vols w1 where v: "setup_volumes (Run os) (step_volumes b) [] [] w = (q, vols, w1)"
    using prod_cases3 by blast
  show "b_status s' = b_status s \<and> b_err s' = b_err s \<and> DoneClosed s' = DoneClosed s"
  proof (cases q)
    case None
    let ?s = "s\<lparr>Timing := (Timing s)\<lparr>BuildTotal := Some \<lparr>Start_time = now_of os w, End_time = None\<rparr>,
        BuildSteps := replicate (length (Steps b)) None, BuildStepPulls := replicate (length (Steps b)) None\<rparr>\<rparr>"
    obtain r2 s2 w2 where c: "core ?s w1 = (r2, s2, w2)" using prod_cases3 by blast
    have "b_status s2 = b_status s \<and> b_err s2 = b_err s \<and> DoneClosed s2 = DoneClosed s"
      using core [rule_format, OF c] by simp
    then show ?thesis using run v None c by (auto simp: runBuildSteps_def Let_def)
  qed (use run v in \<open>auto simp: runBuildSteps_def Let_def\<close>)
qed

text \<open>The push leaves the statuses of the steps alone, too.\<close>

definition keeps_outline :: "'w core \<Rightarrow> bool" where
  "keeps_outline f \<longleftrightarrow>
     (\<forall>s w r s' w'. f s w = (r, s', w') \<longrightarrow> b_status s' = b_status s \<and> b_err s' = b_err s \<and>
        DoneClosed s' = DoneClosed s \<and> stepStatus s' = stepStatus s)"

lemma keeps_outline_status: "keeps_outline f \<Longrightarrow> keeps_status f"
  unfolding keeps_outline_def keeps_status_def by blast

lemma record_all_keeps:
  "b_status (fold (record_digest t) ds s) = b_status s \<and> b_err (fold (record_digest t) ds s) = b_err s \<and>
     DoneClosed (fold (record_digest t) ds s) = DoneClosed s \<and> stepStatus (fold (record_digest t) ds s) = stepStatus s"
  by (induction ds arbitrary: s) (simp_all add: record_digest_def Let_def)

lemma push_loop_keeps: "keeps_outline (push_loop os imgs)"
proof -
  have "push_loop os imgs s w = (r, s', w') \<Longrightarrow>
      b_status s' = b_status s \<and> b_err s' = b_err s \<and> DoneClosed s' = DoneClosed s \<and> stepStatus s' = stepStatus s" for s w r s' w'
  proof (induction imgs arbitrary: s w)
    case (Cons img imgs)
    obtain r1 s1 w1 where p: "dockerPush os img s w = (r1, s1, w1)" using prod_cases3 by blast
    have "(\<exists>s2. push_loop os imgs s2 w1 = (r, s', w') \<and> b_status s2 = b_status s1 \<and> b_err s2 = b_err s1 \<and>
        DoneClosed s2 = DoneClosed s1 \<and> stepStatus s2 = stepStatus s1) \<or> s' = s1"
      using Cons.prems p record_all_keeps by (auto simp: Let_def split: sum.splits if_splits)
    then show ?case using dockerPush_frame [OF p] Cons.IH by metis
  qed simp
  then show ?thesis by (simp add: keeps_outline_def)
qed

lemma upload_paths_keeps:
  "upload_paths os fs flags location srcs results s w = (r, s', w') \<Longrightarrow>
     b_status s' = b_status s \<and> b_err s' = b_err s \<and> DoneClosed s' = DoneClosed s \<and> stepStatus s' = stepStatus s"
proof (induction srcs arbitrary: results s w)
  case (Cons src srcs)
  obtain q w1 where u: "UploadArtifacts os fs flags src location w = (q, w1)" by fastforce
  show ?case
  proof (cases q)
    case (Inl e)
    then show ?thesis using Cons.prems u by (auto simp: Let_def)
  next
    case (Inr rs)
    then have "upload_paths os fs flags location srcs (results @ rs) (WriteMainEntry (src @ '': '' @ show_nat (length rs) @
        '' matching files uploaded'') (WriteMainEntry (src @ '': Uploading path....'') s)) w1 = (r, s', w')"
      using Cons.prems u by (simp add: Let_def)
    from Cons.IH [OF this] show ?thesis by simp
  qed
qed simp

lemma pushArtifacts_keeps: "keeps_outline (pushArtifacts os fs hostWs tmp b)"
  unfolding keeps_outline_def
proof (intro allI impI)
  fix s w r s' w'
  assume run: "pushArtifacts os fs hostWs tmp b s w = (r, s', w')"
  show "b_status s' = b_status s \<and> b_err s' = b_err s \<and> DoneClosed s' = DoneClosed s \<and> stepStatus s' = stepStatus s"
    using run
    by (auto simp: pushArtifacts_def Let_def split: option.splits prod.splits sum.splits dest!: upload_paths_keeps)
qed

lemma pushAll_outline: "keeps_outline (pushAll os fs hostWs tmp h b)"
  unfolding keeps_outline_def
proof (intro allI impI)
  fix s w r s' w'
  assume run: "pushAll os fs hostWs tmp h b s w = (r, s', w')"
  let ?s = "s\<lparr>Timing := (Timing s)\<lparr>PushTotal := Some \<lparr>Start_time = now_of os w, End_time = None\<rparr>\<rparr>\<rparr>"
  obtain r1 s1 w1 where i: "pushImages os h b ?s w = (r1, s1, w1)" using prod_cases3 by blast
  have s1: "b_status s1 = b_status s \<and> b_err s1 = b_err s \<and> DoneClosed s1 = DoneClosed s \<and> stepStatus s1 = stepStatus s"
    using i push_loop_keeps [of os "deref h (Images b)"]
    by (fastforce simp: pushImages_def keeps_outline_def split: if_splits)
  obtain r2 s2 w2 where a: "pushArtifacts os fs hostWs tmp b s1 w1 = (r2, s2, w2)" using prod_cases3 by blast
  have s2: "b_status s2 = b_status s \<and> b_err s2 = b_err s \<and> DoneClosed s2 = DoneClosed s \<and> stepStatus s2 = stepStatus s"
    using pushArtifacts_keeps a s1 by (fastforce simp: keeps_outline_def)
  show "b_status s' = b_status s \<and> b_err s' = b_err s \<and> DoneClosed s' = DoneClosed s \<and> stepStatus s' = stepStatus s"
    using run i a s1 s2 by (cases r1) (auto simp: pushAll_def Let_def split: if_splits)
qed

lemma pushAll_keeps: "keeps_status (pushAll os fs hostWs tmp h b)"
  by (rule keeps_outline_status [OF pushAll_outline])

text \<open>One of four statuses, with an error unless the build is done.\<close>

definition finished :: "bld \<Rightarrow> bool" where
  "finished s \<longleftrightarrow>
     (case b_err s of
        None \<Rightarrow> b_status s = StatusDone
      | Some e \<Rightarrow> b_status s = (if e = DeadlineExceeded then StatusTimeout
                             else if e = Canceled then StatusCancelled else StatusError))"

lemma FailBuild_finished: "finished (FailBuild t e s)"
  by (simp add: finished_def FailBuild_status)

lemma Done_finished: "b_err s = None \<Longrightarrow> finished (UpdateStatus t StatusDone s)"
  by (simp add: finished_def)

lemma build_and_push_finished:
  assumes "keeps_status core" "keeps_status push" "b_err s = None"
    and run: "build_and_push opts os b core push s w = (s', w')"
  shows "finished s' \<and> DoneClosed s' = DoneClosed s"
proof -
  let ?s = "UpdateStatus (now_of os w) StatusBuild s"
  obtain r1 s1 w1 where b: "runBuildSteps os b core ?s w = (r1, s1, w1)" using prod_cases3 by blast
  have s1: "b_err s1 = None" "DoneClosed s1 = DoneClosed s"
    using keeps_statusD [OF runBuildSteps_keeps [OF assms(1)] b] assms(3) by simp_all
  let ?s1 = "UpdateStatus (now_of os w1) StatusPush s1"
  obtain r2 s2 w2 where p: "push ?s1 w1 = (r2, s2, w2)" using prod_cases3 by blast
  have s2: "b_err s2 = None" "DoneClosed s2 = DoneClosed s"
    using keeps_statusD [OF assms(2) p] s1 by simp_all
  show ?thesis
    using run b p s1 s2
    by (auto simp: build_and_push_def FailBuild_finished Done_finished FailBuild_status(3) split: if_splits option.splits)
qed

section \<open>The commands of a build\<close>

text \<open>The names in the order in which they come first.\<close>

definition first_names :: "string list \<Rightarrow> string list" where
  "first_names ns = rev (remdups (rev ns))"

definition create_volume :: "string \<Rightarrow> string list" where
  "create_volume n = create_cmd (New n)"

definition remove_volume :: "string \<Rightarrow> string list" where
  "remove_volume n = rm_volume_cmd (New n)"

context docker_client
begin

lemma close_new_issued: "issued (snd (Close (Run os) Background (New n) w)) = issued w @ [remove_volume n]"
  using os_issued [of Background "rm_volume_cmd (New n)" w]
  by (auto simp: Close_def New_def remove_volume_def split: prod.splits)

lemma close_volumes_issued: "issued (close_volumes (Run os) (map New ns) w) = issued w @ map remove_volume ns"
  by (induction ns arbitrary: w) (simp_all add: close_new_issued)

text \<open>
  The volumes that are set up: the first occurrences of the names not yet initialized, up
  to the first failure.
\<close>

lemma setup_volumes_issued:
  "setup_volumes (Run os) ns seen (map New vs) w = (r, vols, w') \<Longrightarrow> set seen = set vs \<Longrightarrow> distinct vs \<Longrightarrow>
     \<exists>new. vols = map New (rev new @ vs) \<and> distinct (rev new @ vs) \<and> set new \<subseteq> set ns \<and>
       (case r of
          None \<Rightarrow> set (rev new @ vs) = set ns \<union> set vs \<and> issued w' = issued w @ map create_volume new
        | Some e \<Rightarrow> \<exists>bad\<in>set ns - set (rev new @ vs). issued w' = issued w @ map create_volume (new @ [bad]))"
proof (induction ns arbitrary: seen vs w)
  case Nil
  then show ?case by (intro exI [of _ "[]"]) auto
next
  case (Cons n ns)
  show ?case
  proof (cases "n \<in> set seen")
    case True
    then have "setup_volumes (Run os) ns seen (map New vs) w = (r, vols, w')" using Cons.prems(1) by simp
    from Cons.IH [OF this Cons.prems(2,3)] show ?thesis
      using True Cons.prems(2) by (fastforce split: option.splits)
  next
    case False
    obtain a w1 where a: "Run os BuildCtx (create_volume n) w = (a, w1)" by fastforce
    have i: "issued w1 = issued w @ [create_volume n]" using os_issued a by (metis snd_conv)
    have s: "Setup (Run os) BuildCtx (New n) w = (run_err a, w1)"
      using a by (simp add: Setup_def create_volume_def)
    show ?thesis
    proof (cases "run_err a")
      case (Some e)
      then have "r = Some e" "vols = map New vs" "w' = w1" using Cons.prems(1) False s by auto
      then show ?thesis using Cons.prems(2,3) False i by (intro exI [of _ "[]"]) auto
    next
      case None
      then have "setup_volumes (Run os) ns (n # seen) (map New (n # vs)) w1 = (r, vols, w')"
        using Cons.prems(1) False s by simp
      from Cons.IH [OF this] Cons.prems(2,3) False obtain new where new: "vols = map New (rev new @ n # vs)"
          "distinct (rev new @ n # vs)" "set new \<subseteq> set ns" "case r of
            None \<Rightarrow> set (rev new @ n # vs) = set ns \<union> set (n # vs) \<and> issued w' = issued w1 @ map create_volume new
          | Some e \<Rightarrow> \<exists>bad\<in>set ns - set (rev new @ n # vs). issued w' = issued w1 @ map create_volume (new @ [bad])"
        by auto
      then show ?thesis using i by (intro exI [of _ "n # new"]) (auto split: option.splits)
    qed
  qed
qed

text \<open>What the core issues comes between the creation and the removal of the volumes.\<close>

lemma runBuildSteps_issued:
  assumes "runBuildSteps os b core s w = (r, s', w')"
    and core: "\<forall>s w r s' w'. core s w = (r, s', w') \<longrightarrow> (\<exists>cs. issued w' = issued w @ cs)"
  shows "\<exists>names. distinct names \<and> set names \<subseteq> set (step_volumes b) \<and>
     ((set names = set (step_volumes b) \<and>
       (\<exists>cs. issued w' = issued w @ map create_volume names @ cs @ [cleanBuildSteps_args b] @ map remove_volume (rev names))) \<or>
      (\<exists>bad. bad \<in> set (step_volumes b) - set names \<and> r \<noteq> None \<and>
         issued w' = issued w @ map create_volume (names @ [bad]) @ map remove_volume (rev names)))"
proof -
  obtain q vols w1 where v: "setup_volumes (Run os) (step_volumes b) [] [] w = (q, vols, w1)"
    using prod_cases3 by blast
  then have "setup_volumes (Run os) (step_volumes b) [] (map New []) w = (q, vols, w1)" by simp
  from setup_volumes_issued [OF this] obtain names where n: "vols = map New (rev names)" "distinct names"
      "set names \<subseteq> set (step_volumes b)" "case q of
          None \<Rightarrow> set names = set (step_volumes b) \<and> issued w1 = issued w @ map create_volume names
        | Some e \<Rightarrow> \<exists>bad\<in>set (step_volumes b) - set names. issued w1 = issued w @ map create_volume (names @ [bad])"
    by (simp only: append_Nil2 set_rev distinct_rev list.set Un_empty_right distinct.simps simp_thms) blast
  show ?thesis
  proof (cases q)
    case (Some e)
    then have "w' = close_volumes (Run os) vols w1" "r = Some e"
      using assms(1) v by (auto simp: runBuildSteps_def Let_def)
    then have "issued w' = issued w1 @ map remove_volume (rev names)" using n(1) close_volumes_issued by simp
    moreover obtain bad where "bad \<in> set (step_volumes b) - set names"
        "issued w1 = issued w @ map create_volume (names @ [bad])"
      using n(4) Some by auto
    ultimately have "bad \<in> set (step_volumes b) - set names \<and> r \<noteq> None \<and>
        issued w' = issued w @ map create_volume (names @ [bad]) @ map remove_volume (rev names)"
      using \<open>r = Some e\<close> by simp
    with n(2,3) show ?thesis by blast
  next
    case None
    obtain s1 r1 s2 w2 where c: "core s1 w1 = (r1, s2, w2)" and w': "w' = close_volumes (Run os) vols (cleanBuildSteps (Run os) b w2)"
      using assms(1) v None by (auto simp: runBuildSteps_def Let_def split: prod.splits)
    obtain cs where "issued w2 = issued w1 @ cs" using core c by blast
    moreover have "issued (cleanBuildSteps (Run os) b w2) = issued w2 @ [cleanBuildSteps_args b]"
      using os_issued by (simp add: cleanBuildSteps_def)
    ultimately have "issued w' = issued w1 @ cs @ [cleanBuildSteps_args b] @ map remove_volume (rev names)"
      using w' n(1) close_volumes_issued by simp
    moreover have "set names = set (step_volumes b)" "issued w1 = issued w @ map create_volume names"
      using n(4) None by simp_all
    ultimately have "set names = set (step_volumes b) \<and>
        issued w' = issued w @ map create_volume names @ cs @ [cleanBuildSteps_args b] @ map remove_volume (rev names)"
      by simp
    with n(2,3) show ?thesis by blast
  qed
qed

end

section \<open>The frame of a build\<close>

context world_frame
begin

lemma R_setup_volumes: "setup_volumes (Run os) ns seen vs w = (r, vols, w') \<Longrightarrow> R w w'"
proof (induction ns arbitrary: seen vs w)
  case (Cons n ns)
  obtain q w1 where q: "Setup (Run os) BuildCtx (New n) w = (q, w1)" by fastforce
  have "setup_volumes (Run os) ns seen vs w = (r, vols, w') \<or> w' = w1 \<or>
      (\<exists>seen vs. setup_volumes (Run os) ns seen vs w1 = (r, vols, w'))"
    using Cons.prems q by (cases q) (auto split: if_splits)
  then show ?case using Cons.IH rf.R_Setup [OF q] frame_trans by metis
qed (simp add: frame_refl)

lemma R_close_volumes: "R w (close_volumes (Run os) vs w)"
proof (induction vs arbitrary: w)
  case (Cons v vs)
  then show ?case using rf.R_Close frame_trans by (metis close_volumes.simps(2))
qed (simp add: frame_refl)

lemma R_runBuildSteps:
  assumes core: "\<forall>s w r s' w'. core s w = (r, s', w') \<longrightarrow> R w w'"
    and run: "runBuildSteps os b core s w = (r, s', w')"
  shows "R w w'"
proof -
  obtain q vols w1 where v: "setup_volumes (Run os) (step_volumes b) [] [] w = (q, vols, w1)"
    using prod_cases3 by blast
  have "w' = close_volumes (Run os) vols w1 \<or> (\<exists>s1 r1 s2 w2. core s1 w1 = (r1, s2, w2) \<and>
      w' = close_volumes (Run os) vols (cleanBuildSteps (Run os) b w2))"
    using run v by (auto simp: runBuildSteps_def Let_def split: option.splits prod.splits)
  then show ?thesis
    using core R_setup_volumes [OF v] R_close_volumes rf.R_cleanBuildSteps frame_trans by metis
qed

lemma R_Start:
  assumes core: "\<forall>s w r s' w'. core s w = (r, s', w') \<longrightarrow> R w w'"
    and run: "Start opts os b core (pushAll os fs hostWs tmp h b) s w = (s', w')"
  shows "R w w'"
proof -
  obtain q w1 where q: "Setup (Run os) BuildCtx (New homeVolume) w = (q, w1)" by fastforce
  obtain s2 w2 where b: "build_and_push opts os b core (pushAll os fs hostWs tmp h b) s w1 = (s2, w2)" by fastforce
  have "w2 = w1 \<or> (\<exists>s3 r s4 w4. runBuildSteps os b core s3 w1 = (r, s4, w4) \<and>
      (w2 = w4 \<or> (\<exists>s5 q s6. pushAll os fs hostWs tmp h b s5 w4 = (q, s6, w2))))"
    using b by (auto simp: build_and_push_def split: if_splits prod.splits option.splits)
  then have "R w1 w2" using R_runBuildSteps [OF core] R_pushAll frame_refl frame_trans by metis
  moreover have "w' = w1 \<or> w' = snd (Close (Run os) Background (New homeVolume) w2)"
    using run q b by (cases q) (auto simp: Start_def Let_def)
  ultimately show ?thesis using rf.R_Setup [OF q] rf.R_Close frame_trans by metis
qed

end

context gsutil_client
begin

lemma Start_issued:
  assumes run: "Start opts os b core (pushAll os fs hostWs tmp h b) s w = (s', w')"
    and core: "\<forall>s w r s' w'. core s w = (r, s', w') \<longrightarrow> (\<exists>cs. issued w' = issued w @ cs)"
  shows "issued w' = issued w @ [create_volume homeVolume] \<or>
     (\<exists>cs. issued w' = issued w @ [create_volume homeVolume] @ cs @ [remove_volume homeVolume])"
proof -
  obtain a w1 where a: "Run os BuildCtx (create_volume homeVolume) w = (a, w1)" by fastforce
  have i: "issued w1 = issued w @ [create_volume homeVolume]" using os_issued a by (metis snd_conv)
  have s: "Setup (Run os) BuildCtx (New homeVolume) w = (run_err a, w1)"
    using a by (simp add: Setup_def create_volume_def)
  show ?thesis
  proof (cases "run_err a")
    case (Some e)
    then show ?thesis using run s i by (auto simp: Start_def Let_def)
  next
    case None
    obtain s2 w2 where b: "build_and_push opts os b core (pushAll os fs hostWs tmp h b) s w1 = (s2, w2)" by fastforce
    have w': "w' = snd (Close (Run os) Background (New homeVolume) w2)"
      using run s None b by (auto simp: Start_def Let_def)
    have "w2 = w1 \<or> (\<exists>s3 r s4 w4. runBuildSteps os b core s3 w1 = (r, s4, w4) \<and>
        (w2 = w4 \<or> (\<exists>s5 q s6. pushAll os fs hostWs tmp h b s5 w4 = (q, s6, w2))))"
      using b by (auto simp: build_and_push_def split: if_splits prod.splits option.splits)
    moreover have "\<forall>s w r s' w'. core s w = (r, s', w') \<longrightarrow> extends issued w w'"
      using core by (simp add: extends_def)
    ultimately have "extends issued w1 w2"
      using adds.R_runBuildSteps adds.R_pushAll adds.frame_refl adds.frame_trans by metis
    then have "\<exists>cs. issued w2 = issued w1 @ cs" by (simp add: extends_def)
    then show ?thesis using w' close_new_issued i by auto
  qed
qed

end

lemma Start_finished:
  assumes "keeps_status core" "b_err s = None" "\<not> DoneClosed s"
    and "Start opts os b core (pushAll os fs hostWs tmp h b) s w = (s', w')"
  shows "finished s' \<and> DoneClosed s' = local_build opts"
proof -
  obtain r w1 where set: "Setup (Run os) BuildCtx (New homeVolume) w = (r, w1)" by fastforce
  obtain s2 w2 where b: "build_and_push opts os b core (pushAll os fs hostWs tmp h b) s w1 = (s2, w2)" by fastforce
  have f: "finished s2" "DoneClosed s2 = DoneClosed s"
    using build_and_push_finished [OF assms(1) pushAll_keeps assms(2) b] by simp_all
  have mark: "finished (t\<lparr>DoneClosed := True\<rparr>) = finished t" for t
    by (cases "b_err t") (simp_all add: finished_def)
  show ?thesis
    using assms(4) set b f assms(2,3)
    by (cases r) (auto simp: Start_def Let_def mark FailBuild_finished FailBuild_status(3) split: if_splits)
qed

section \<open>Properties\<close>

text \<open>
  The outcome of a build. When \<open>Start\<close> returns, the build is done and has no error, or
  it has an error and the status that the error stands for: timeout, cancelled or error.
  The channel \<open>Done\<close> of a local build is closed on every path.
\<close>

theorem Start_outcome:
  assumes "keeps_status core"
    and "Start opts os b core (pushAll os fs hostWs tmp h b) (New_build now b) w = (s', w')"
  shows "finished s' \<and> DoneClosed s' = local_build opts"
  by (rule Start_finished [OF assms(1) _ _ assms(2)]) (simp_all add: New_build_def)

text \<open>A build with volumes, and the core that runs nothing.\<close>

definition volume_build :: build where
  "volume_build = empty_build\<lparr>Steps :=
     [empty_step\<lparr>s_Volumes := [\<lparr>v_Name = ''a'', v_Path = ''/a''\<rparr>, \<lparr>v_Name = ''b'', v_Path = ''/b''\<rparr>]\<rparr>,
      empty_step\<lparr>s_Volumes := [\<lparr>v_Name = ''a'', v_Path = ''/a''\<rparr>]\<rparr>]\<rparr>"

definition no_core :: "machine core" where
  "no_core s m = (None, s, m)"

definition no_files :: "machine files" where
  "no_files = real_files (\<lambda>_ _ _. Inr ''m'') (\<lambda>_ _. Inr []) (\<lambda>_ _ _. None) (\<lambda>_. [])"

definition plain_os :: "machine os" where
  "plain_os = real_os good_host (\<lambda>_. 0) (\<lambda>_. ''u'') (\<lambda>_. None) (\<lambda>_. 0)"

theorem Start_outcome_witness:
  "\<exists>s' m'. Start \<lparr>local_build = True, push_build = True\<rparr> plain_os volume_build no_core
       (pushAll plain_os no_files ''ws'' ''/tmp'' (\<lambda>_. []) volume_build) (New_build 0 volume_build) idle_machine = (s', m') \<and>
     b_status s' = StatusDone \<and> DoneClosed s'"
proof -
  let ?r = "Start \<lparr>local_build = True, push_build = True\<rparr> plain_os volume_build no_core
       (pushAll plain_os no_files ''ws'' ''/tmp'' (\<lambda>_. []) volume_build) (New_build 0 volume_build) idle_machine"
  have err: "b_err (fst ?r) = None" by code_simp
  have run: "?r = (fst ?r, snd ?r)" by simp
  have "keeps_status no_core" by (simp add: keeps_status_def no_core_def)
  from Start_outcome [OF this run] err have "b_status (fst ?r) = StatusDone \<and> DoneClosed (fst ?r)"
    by (simp add: finished_def)
  with run show ?thesis by blast
qed

text \<open>
  C27: Cleaning up after the steps. Each volume of the request is created once, before any
  container; when the steps have ended, in whatever way, the containers of the steps are
  removed and then the volumes, the last created first. If a volume cannot be created, no
  step runs and the volumes created so far are removed.
\<close>

theorem runBuildSteps_cleanup:
  assumes "runBuildSteps (real_os host clock uuids json random) b core s m = (r, s', m')"
    and "\<forall>s m r s' m'. core s m = (r, s', m') \<longrightarrow> (\<exists>cs. logged m' = logged m @ cs)"
  shows "\<exists>names. distinct names \<and> set names \<subseteq> set (step_volumes b) \<and>
     ((set names = set (step_volumes b) \<and>
       (\<exists>cs. logged m' = logged m @ map create_volume names @ cs @ [cleanBuildSteps_args b] @ map remove_volume (rev names))) \<or>
      (\<exists>bad. bad \<in> set (step_volumes b) - set names \<and> r \<noteq> None \<and>
         logged m' = logged m @ map create_volume (names @ [bad]) @ map remove_volume (rev names)))"
  by (rule rdocker.runBuildSteps_issued [OF assms])

theorem runBuildSteps_cleanup_witness:
  "\<exists>m' :: machine. logged m' = map create_volume [''a'', ''b''] @ [cleanBuildSteps_args volume_build] @ map remove_volume [''b'', ''a''] \<and>
     (\<exists>names. distinct names \<and> set names \<subseteq> {''a'', ''b''} \<and>
        remove_volume ''a'' \<in> set (logged m'))"
proof -
  let ?r = "runBuildSteps (real_os good_host (\<lambda>_. 0) (\<lambda>_. ''u'') (\<lambda>_. None) (\<lambda>_. 0)) volume_build no_core
       (New_build 0 volume_build) idle_machine"
  have log: "logged (snd (snd ?r)) =
      map create_volume [''a'', ''b''] @ [cleanBuildSteps_args volume_build] @ map remove_volume [''b'', ''a'']"
    by code_simp
  have run: "?r = (fst ?r, fst (snd ?r), snd (snd ?r))" by (metis prod.collapse)
  have vols: "set (step_volumes volume_build) = {''a'', ''b''}"
    by (simp add: step_volumes_def volume_build_def options_Volumes_def empty_build_def empty_step_def insert_commute)
  have core: "\<forall>s m r s' m'. no_core s m = (r, s', m') \<longrightarrow> (\<exists>cs. logged m' = logged m @ cs)"
    by (simp add: no_core_def)
  from runBuildSteps_cleanup [OF run core] obtain names where "distinct names" "set names \<subseteq> {''a'', ''b''}"
    unfolding vols by blast
  moreover have "remove_volume ''a'' \<in> set (logged (snd (snd ?r)))" unfolding log by simp
  ultimately show ?thesis using log by blast
qed

text \<open>
  The home volume is created by the first command of a build and removed by the last
  one; if it cannot be created, nothing else runs.
\<close>

theorem Start_home_volume:
  assumes "Start opts (real_os host clock uuids json random) b core
       (pushAll (real_os host clock uuids json random) (real_files temp rd wr enc) hostWs tmp h b) s m = (s', m')"
    and "\<forall>s m r s' m'. core s m = (r, s', m') \<longrightarrow> (\<exists>cs. logged m' = logged m @ cs)"
  shows "logged m' = logged m @ [create_volume homeVolume] \<or>
     (\<exists>cs. logged m' = logged m @ [create_volume homeVolume] @ cs @ [remove_volume homeVolume])"
  by (rule rgsutil.Start_issued [OF assms])

theorem Start_home_volume_witness:
  "\<exists>(m' :: machine) cs. logged m' = [create_volume homeVolume] @ cs @ [remove_volume homeVolume] \<and> length cs = 5"
proof -
  let ?os = "real_os good_host (\<lambda>_. 0) (\<lambda>_. ''u'') (\<lambda>_. None) (\<lambda>_. 0)"
  let ?fs = "real_files (\<lambda>_ _ _. Inr ''m'') (\<lambda>_ _. Inr []) (\<lambda>_ _ _. None) (\<lambda>_. [])"
  let ?r = "Start \<lparr>local_build = True, push_build = True\<rparr> ?os volume_build no_core
       (pushAll ?os ?fs ''ws'' ''/tmp'' (\<lambda>_. []) volume_build) (New_build 0 volume_build) idle_machine"
  have run: "?r = (fst ?r, snd ?r)" by simp
  have core: "\<forall>s m r s' m'. no_core s m = (r, s', m') \<longrightarrow> (\<exists>cs. logged m' = logged m @ cs)"
    by (simp add: no_core_def)
  have len: "length (logged (snd ?r)) = 7" by code_simp
  from Start_home_volume [OF run core] len obtain cs where
      "logged (snd ?r) = [create_volume homeVolume] @ cs @ [remove_volume homeVolume]" "length cs = 5"
    by (auto simp: idle_machine_def)
  then show ?thesis by blast
qed

end
