(* ===== verification/Local_Main.thy ===== *)
theory Local_Main
  imports Common Config_File Gcloud Common_Tools Build_Run
begin

text \<open>
  The command \<open>localbuilder\<close> (\<open>localbuilder_main.go\<close>): the flags, \<open>run\<close> (\<open>localbuilder_run\<close>) with its deferred
  calls, one round of the goroutine that refreshes the credentials, and the writer that
  puts a prefix before each line of a step. The surroundings of the program are one record,
  the \<open>env\<close>; the steps of the build are the \<open>core\<close> of \<open>Build_Run\<close>, which may contain any
  number of rounds of the refreshing goroutine.
\<close>

section \<open>Flags\<close>

record flags =
  configFile :: string
  substitutions :: string
  dryRun :: bool
  push_flag :: bool
  noSource :: bool
  bindMountSource :: bool
  writeWorkspace :: string
  help_flag :: bool
  versionFlag :: bool

datatype start = ShowHelp | ShowVersion | ExitUsage string | RunOn string

definition main_start :: "flags \<Rightarrow> string list \<Rightarrow> start" where
  "main_start f args =
     (if help_flag f then ShowHelp
      else if versionFlag f then ShowVersion
      else if noSource f \<and> bindMountSource f then ExitUsage ''Cannot use --bind-mount-source with --no-source.''
      else let nbSource = (if noSource f then 0 else 1)
           in if length args < nbSource then ExitUsage ''Specify a source''
              else if length args > nbSource then
                ExitUsage (if nbSource = 1
                  then ''There should be only one positional argument. Pass all the flags before the source.''
                  else ''no-source flag can'' @ [CHR 0x27] @ ''t be used along with source.'')
              else if configFile f = [] then ExitUsage ''Specify a config file''
              else RunOn (if nbSource = 1 then args ! 0 else []))"

section \<open>The surroundings\<close>

record 'w env =
  e_os :: "'w os"
  e_fs :: "'w files"
  e_plain :: "'w run"
  e_http :: "'w http"
  ReadConfig :: "string \<Rightarrow> string + string"
  yaml_decoder :: "string \<Rightarrow> string + (string \<times> yaml) list"
  json_encoder :: "yaml \<Rightarrow> string + string"
  build_decoder :: "string \<Rightarrow> string + build"
  decoder_store :: store
  Stat :: "string \<Rightarrow> 'w \<Rightarrow> err + bool"
  Getwd :: "'w \<Rightarrow> err + string"
  OnGCE :: bool
  helper_decoder :: "string \<Rightarrow> err + helper_config"
  time_parser :: "string \<Rightarrow> err + int"
  project_encoder :: "project_info \<Rightarrow> string"
  token_encoder :: "token \<Rightarrow> string"
  token_form :: "string \<Rightarrow> string"
  scope_decoder :: "string \<Rightarrow> err + string"
  TempDir :: string

datatype run_error =
  CleanError err
| VersionError err
| ConfigError config_error
| FlagError string
| BuildError pipeline_error
| DirectoryError err
| AbsError err
| NotDirectory
| VolumeError err
| CopyError err
| TokenError err
| CredentialsError err
| NetworkError err
| ServerError err
| BuildFailed

text \<open>\<open>Blocks\<close>: the receive from \<open>b.Done\<close> never returns.\<close>

datatype run_result = Finishes | Fails run_error | Panics | Blocks

definition volumeNamePrefix :: string where "volumeNamePrefix = ''cloudbuild_vol_''"
definition metadataImageName :: string where "metadataImageName = ''gcr.io/cloud-builders/metadata''"

text \<open>\<open>validate.IsDirectory\<close>: what \<open>os.Stat\<close> says of the path.\<close>

definition IsDirectory :: "'w env \<Rightarrow> string \<Rightarrow> 'w \<Rightarrow> err + bool" where
  "IsDirectory env path w = (case Stat env path w of Inl e \<Rightarrow> Inl e | Inr isDir \<Rightarrow> Inr isDir)"

definition path_Abs :: "err + string \<Rightarrow> string \<Rightarrow> err + string" where
  "path_Abs wd p =
     (if is_abs p then Inr (path_clean p)
      else case wd of Inl e \<Rightarrow> Inl e | Inr d \<Rightarrow> Inr (path_join [d, p]))"

section \<open>The request\<close>

definition version_cmd :: "string \<Rightarrow> string list" where
  "version_cmd side = [''docker'', ''version'', ''--format'', ''{{.'' @ side @ ''.Version}}'']"

definition dockerVersions :: "'w run \<Rightarrow> ctx \<Rightarrow> 'w \<Rightarrow> (err + string \<times> string) \<times> 'w" where
  "dockerVersions run c w =
     (case run c (version_cmd ''Server'') w of
        (s, w) \<Rightarrow>
          (case run_err s of
             Some e \<Rightarrow> (Inl e, w)
           | None \<Rightarrow>
               (case run c (version_cmd ''Client'') w of
                  (k, w) \<Rightarrow>
                    (case run_err k of
                       Some e \<Rightarrow> (Inl e, w)
                     | None \<Rightarrow> (Inr (trim_space (stdout_of s), trim_space (stdout_of k)), w)))))"

definition check_versions :: "flags \<Rightarrow> 'w env \<Rightarrow> 'w \<Rightarrow> err option \<times> 'w" where
  "check_versions f env w =
     (if dryRun f then (None, w)
      else case dockerVersions (Run (e_os env)) Background w of
             (Inl e, w) \<Rightarrow> (Some e, w)
           | (Inr versions, w) \<Rightarrow> (None, w))"

text \<open>
  The build of the configuration with an identifier and the project, the flag merged in,
  substituted and validated. A project that cannot be found is only a warning.
\<close>

definition prepare ::
  "flags \<Rightarrow> 'w env \<Rightarrow> 'w \<Rightarrow> (run_result + store \<times> build \<times> project_info) \<times> 'w"
where
  "prepare f env w =
     (case Clean (Run (e_os env)) Background w of
        (Some e, w) \<Rightarrow> (Inl (Fails (CleanError e)), w)
      | (None, w) \<Rightarrow>
          (case check_versions f env w of
             (Some e, w) \<Rightarrow> (Inl (Fails (VersionError e)), w)
           | (None, w) \<Rightarrow>
               (case Load (ReadConfig env) (yaml_decoder env) (json_encoder env) (build_decoder env) (configFile f) of
                  Inl e \<Rightarrow> (Inl (Fails (ConfigError e)), w)
                | Inr b \<Rightarrow>
                    (let b = b\<lparr>Id := ''localbuild_'' @ newUUID (e_os env) w\<rparr>
                     in case gcloud_ProjectInfo (e_plain env) Background w of
                          (project, w) \<Rightarrow>
                            (let b = (case project of Inl e \<Rightarrow> b | Inr info \<Rightarrow> b\<lparr>ProjectId := ProjectID info\<rparr>);
                                 info = (case project of Inl e \<Rightarrow> \<lparr>ProjectID = [], ProjectNum = 0\<rparr> | Inr info \<Rightarrow> info);
                                 parsed = (if substitutions f \<noteq> [] then ParseSubstitutionsFlag (substitutions f)
                                           else ([], None))
                             in case parsed of
                                  (substMap, Some e) \<Rightarrow> (Inl (Fails (FlagError e)), w)
                                | (substMap, None) \<Rightarrow>
                                    (case SubstituteAndValidate (decoder_store env) b substMap of
                                       (hb, Some Panic) \<Rightarrow> (Inl Panics, w)
                                     | (hb, Some (Err e)) \<Rightarrow> (Inl (Fails (BuildError e)), w)
                                     | ((h, b), None) \<Rightarrow> (Inr (h, b, info), w)))))))"

section \<open>The workspace\<close>

text \<open>Deferred calls; the head of a list is the one that was deferred last.\<close>

datatype deferred = CloseVolume | ExportTo string | CleanNetwork | StopServer

fun run_deferred :: "'w run \<Rightarrow> deferred list \<Rightarrow> volume \<Rightarrow> 'w \<Rightarrow> 'w" where
  "run_deferred run [] v w = w"
| "run_deferred run (CloseVolume # ds) v w = run_deferred run ds v (snd (Close run Background v w))"
| "run_deferred run (ExportTo dir # ds) v w =
     (case Export run Background dir v w of (r, v, w) \<Rightarrow> run_deferred run ds v w)"
| "run_deferred run (CleanNetwork # ds) v w = run_deferred run ds v (snd (CleanCloudbuildNetwork run Background w))"
| "run_deferred run (StopServer # ds) v w = run_deferred run ds v (snd (Stop run Background w))"

definition bind_mount :: "flags \<Rightarrow> 'w env \<Rightarrow> string \<Rightarrow> 'w \<Rightarrow> run_error + string" where
  "bind_mount f env source w =
     (if bindMountSource f then
        (case IsDirectory env source w of
           Inl e \<Rightarrow> Inl (DirectoryError e)
         | Inr isDir \<Rightarrow>
             if isDir then
               (case path_Abs (Getwd env w) source of Inl e \<Rightarrow> Inl (AbsError e) | Inr p \<Rightarrow> Inr p)
             else Inl NotDirectory)
      else Inr [])"

text \<open>Only the content of a directory is copied.\<close>

definition copy_source :: "'w env \<Rightarrow> string \<Rightarrow> volume \<Rightarrow> 'w \<Rightarrow> run_error option \<times> volume \<times> 'w" where
  "copy_source env source v w =
     (if source = [] then (None, v, w)
      else case IsDirectory env source w of
             Inl e \<Rightarrow> (Some (DirectoryError e), v, w)
           | Inr isDir \<Rightarrow>
               (case Copy (Run (e_os env)) Background (if isDir then path_clean source @ ''/.'' else source) v w of
                  (r, v, w) \<Rightarrow> (map_option CopyError r, v, w)))"

definition workspace ::
  "flags \<Rightarrow> 'w env \<Rightarrow> string \<Rightarrow> 'w \<Rightarrow> (run_error + string \<times> volume \<times> deferred list) \<times> 'w"
where
  "workspace f env source w =
     (case bind_mount f env source w of
        Inl e \<Rightarrow> (Inl e, w)
      | Inr volumeName \<Rightarrow>
          if volumeName \<noteq> [] then (Inr (volumeName, New volumeName, []), w)
          else
            (let volumeName = volumeNamePrefix @ newUUID (e_os env) w; v = New volumeName
             in if dryRun f then (Inr (volumeName, v, []), w)
                else case Setup (Run (e_os env)) Background v w of
                       (Some e, w) \<Rightarrow> (Inl (VolumeError e), w)
                     | (None, w) \<Rightarrow>
                         (case copy_source env source v w of
                            (Some e, v, w) \<Rightarrow> (Inl e, w)
                          | (None, v, w) \<Rightarrow>
                              (Inr (volumeName, v,
                                 (if writeWorkspace f \<noteq> [] then [ExportTo (writeWorkspace f)] else []) @ [CloseVolume]), w))))"

section \<open>Credentials and the metadata server\<close>

definition get_token :: "'w env \<Rightarrow> 'w \<Rightarrow> (err + token) \<times> 'w" where
  "get_token env w =
     gcloud_AccessToken (Run (e_os env)) (helper_decoder env) (time_parser env) (now_of (e_os env)) Background w"

definition start_metadata :: "'w env \<Rightarrow> project_info \<Rightarrow> 'w \<Rightarrow> (run_error option \<times> deferred list) \<times> 'w" where
  "start_metadata env info w =
     (if OnGCE env then
        (case CreateCloudbuildNetwork (Run (e_os env)) Background ''172.22.0.0/16'' w of
           (Some e, w) \<Rightarrow> ((Some (NetworkError e), []), w)
         | (None, w) \<Rightarrow> ((None, [CleanNetwork]), w))
      else
        (case StartLocalServer (Run (e_os env)) Background metadataImageName w of
           (Some e, w) \<Rightarrow> ((Some (ServerError e), []), w)
         | (None, w) \<Rightarrow>
             (case SetProjectInfo True (e_http env) (project_encoder env) info w of
                (r, w) \<Rightarrow> ((None, [StopServer]), w))))"

definition start_services ::
  "flags \<Rightarrow> 'w env \<Rightarrow> project_info \<Rightarrow> bld \<Rightarrow> 'w \<Rightarrow> (run_error option \<times> deferred list) \<times> bld \<times> 'w"
where
  "start_services f env info s w =
     (if dryRun f then ((None, []), s, w)
      else
        (case get_token env w of
           (Inl e, w) \<Rightarrow> ((Some (TokenError e), []), s, w)
         | (Inr tok, w) \<Rightarrow>
             (case SetDockerAccessToken (e_os env) (AccessToken tok) s w of
                (Some e, s, w) \<Rightarrow> ((Some (CredentialsError e), []), s, w)
              | (None, s, w) \<Rightarrow>
                  (let s = s\<lparr>TokenSource := Some (Inr (AccessToken tok))\<rparr>
                   in case start_metadata env info w of (r, w) \<Rightarrow> (r, s, w)))))"

text \<open>
  One round of the goroutine that refreshes the credentials, with the delay after which the
  next one starts. The errors are only logged: the build gets the new token as its source
  even if docker could not be given it. On Compute Engine there is no spoofed server to set the
  token of.
\<close>

definition refresh_round :: "'w env \<Rightarrow> int \<Rightarrow> bld \<Rightarrow> 'w \<Rightarrow> int \<times> bld \<times> 'w" where
  "refresh_round env refresh s w =
     (case get_token env w of
        (Inl e, w) \<Rightarrow> (refresh, s, w)
      | (Inr tok, w) \<Rightarrow>
          (case (if OnGCE env then (None, tok, w)
                 else SetToken True (e_http env) (scope_decoder env) (token_form env) (token_encoder env) tok w) of
             (r, tok, w) \<Rightarrow>
               (case UpdateDockerAccessToken (e_os env) (AccessToken tok) s w of
                  (r, s, w) \<Rightarrow>
                    (RefreshDuration (now_of (e_os env) w) (Expiry tok),
                     s\<lparr>TokenSource := Some (Inr (AccessToken tok))\<rparr>, w))))"

section \<open>Running the build\<close>

definition localbuilder_run ::
  "flags \<Rightarrow> 'w env \<Rightarrow> (store \<Rightarrow> build \<Rightarrow> string \<Rightarrow> 'w core) \<Rightarrow> string \<Rightarrow> 'w \<Rightarrow> run_result \<times> bld option \<times> 'w"
where
  "localbuilder_run f env core source w =
     (case prepare f env w of
        (Inl r, w) \<Rightarrow> (r, None, w)
      | (Inr (h, b, info), w) \<Rightarrow>
          (case workspace f env source w of
             (Inl e, w) \<Rightarrow> (Fails e, None, w)
           | (Inr (vol, v, ds), w) \<Rightarrow>
               (case start_services f env info (New_build (now_of (e_os env) w) b) w of
                  ((Some e, ds'), s, w) \<Rightarrow> (Fails e, None, run_deferred (Run (e_os env)) (ds' @ ds) v w)
                | ((None, ds'), s, w) \<Rightarrow>
                    (case Start \<lparr>local_build = True, push_build = push_flag f\<rparr> (e_os env) b (core h b vol)
                            (pushAll (e_os env) (e_fs env) vol (TempDir env) h b) s w of
                       (s, w) \<Rightarrow>
                         (if \<not> DoneClosed s then (Blocks, Some s, w)
                          else (if b_status s = StatusError then Fails BuildFailed else Finishes, Some s,
                                run_deferred (Run (e_os env)) (ds' @ ds) v w))))))"

text \<open>\<open>log.Fatal\<close> exits with status 1; a panic exits with status 2.\<close>

definition main_exit ::
  "flags \<Rightarrow> 'w env \<Rightarrow> (store \<Rightarrow> build \<Rightarrow> string \<Rightarrow> 'w core) \<Rightarrow> string list \<Rightarrow> 'w \<Rightarrow> nat option \<times> 'w"
where
  "main_exit f env core args w =
     (case main_start f args of
        ShowHelp \<Rightarrow> (Some 0, w)
      | ShowVersion \<Rightarrow> (Some 0, w)
      | ExitUsage msg \<Rightarrow> (Some 1, w)
      | RunOn source \<Rightarrow>
          (case localbuilder_run f env core source w of
             (Finishes, s, w) \<Rightarrow> (Some 0, w)
           | (Fails e, s, w) \<Rightarrow> (Some 1, w)
           | (Panics, s, w) \<Rightarrow> (Some 2, w)
           | (Blocks, s, w) \<Rightarrow> (None, w)))"

section \<open>The log of a step\<close>

text \<open>
  \<open>bufio.Scanner\<close> with \<open>ScanLines\<close>: the lines without their line feed and one carriage
  return before it, an empty last line left out. A line of 65536 bytes or more fills the
  buffer and stops the scanner with an error.
\<close>

definition drop_last_cr :: "string \<Rightarrow> string" where
  "drop_last_cr l = (if l \<noteq> [] \<and> List.last l = CHR 0x0D then butlast l else l)"

definition MaxScanTokenSize :: nat where "MaxScanTokenSize = 65536"

fun scan_lines :: "string list \<Rightarrow> string list \<times> bool" where
  "scan_lines [] = ([], True)"
| "scan_lines (l # ls) =
     (if ls = [] \<and> l = [] then ([], True)
      else if \<not> length l < MaxScanTokenSize then ([], False)
      else case scan_lines ls of (rs, ok) \<Rightarrow> (drop_last_cr l # rs, ok))"

text \<open>What is written, and the result: the number of bytes, or -1 with an error.\<close>

definition prefix_Write :: "string \<Rightarrow> string \<Rightarrow> string list \<times> int \<times> bool" where
  "prefix_Write prefix b =
     (case scan_lines (split_on CHR 0x0A b) of
        (lines, ok) \<Rightarrow>
          (map (\<lambda>line. prefix @ '': '' @ line @ [CHR 0x0A]) lines, if ok then int (length b) else -1, ok))"

section \<open>What the operations do to the world\<close>

context run_frame
begin

lemma R_clean_loop: "clean_loop run c items w = (r, w') \<Longrightarrow> R w w'"
proof (induction items arbitrary: w)
  case (Cons item items)
  obtain a w1 where a: "run c (getCmd item) w = (a, w1)" by fastforce
  obtain b w2 where b: "run c (deleteCmd item @ split_on CHR 0x0A (trim_space (stdout_of a))) w1 = (b, w2)" by fastforce
  have "w' = w1 \<or> clean_loop run c items w1 = (r, w') \<or> w' = w2 \<or> clean_loop run c items w2 = (r, w')"
    using Cons.prems a b by (cases "run_err a"; cases "run_err b") (auto simp: Let_def split: if_splits)
  then show ?case using Cons.IH R_runD [OF a] R_runD [OF b] R_trans by metis
qed (simp add: R_refl)

lemma R_Clean: "Clean run c w = (r, w') \<Longrightarrow> R w w'"
  unfolding Clean_def by (rule R_clean_loop)

lemma R_dockerVersions:
  assumes "dockerVersions run c w = (r, w')"
  shows "R w w'"
proof -
  obtain a w1 where a: "run c (version_cmd ''Server'') w = (a, w1)" by fastforce
  obtain b w2 where b: "run c (version_cmd ''Client'') w1 = (b, w2)" by fastforce
  have "w' = w1 \<or> w' = w2"
    using assms a b by (cases "run_err a"; cases "run_err b") (auto simp: dockerVersions_def)
  then show ?thesis using R_runD [OF a] R_runD [OF b] R_trans by metis
qed

lemma R_AccessToken: "gcloud_AccessToken run decode parse_time now c w = (r, w') \<Longrightarrow> R w w'"
  using R_runD by (auto simp: gcloud_AccessToken_def split: prod.splits)

lemma R_ProjectInfo:
  assumes "gcloud_ProjectInfo run c w = (r, w')"
  shows "R w w'"
proof -
  obtain a w1 where a: "run c project_cmd w = (a, w1)" by fastforce
  obtain b w2 where b: "run c (describe_cmd (trim_space (stdout_of a))) w1 = (b, w2)" by fastforce
  have "w' = w1 \<or> w' = w2"
    using assms a b by (cases "run_err a") (auto simp: gcloud_ProjectInfo_def Let_def split: if_splits)
  then show ?thesis using R_runD [OF a] R_runD [OF b] R_trans by metis
qed

lemma R_network: "CreateCloudbuildNetwork run c subnet w = (r, w') \<Longrightarrow> R w w'"
  using R_runD by (auto simp: CreateCloudbuildNetwork_def split: prod.splits)

lemma R_startServer:
  assumes "startServer run c img iptables ip subnet w = (r, w')"
  shows "R w w'"
proof -
  let ?cmds = "[network_cmd subnet, server_cmd iptables img, connect_cmd ip] @ (if iptables then [iptables_cmd] else [])"
  obtain q w1 where q: "run_seq run c ?cmds w = (q, w1)" by fastforce
  then have "w' = w1" using startServer_run_seq [of run c img iptables ip subnet w] assms by auto
  then show ?thesis using R_run_seq [OF q] by simp
qed

lemma R_StartLocalServer:
  assumes "StartLocalServer run c img w = (r, w')"
  shows "R w w'"
proof -
  obtain a w1 where a: "run c [''docker'', ''pull'', img] w = (a, w1)" by fastforce
  then have "w' = w1 \<or> startServer run c img False fixedMetadataIP metadataLocalSubnet w1 = (r, w')"
    using assms by (cases "run_err a") (simp_all add: StartLocalServer_def)
  then show ?thesis using R_runD [OF a] R_startServer R_trans by metis
qed

lemma R_Copy: "Copy run c dir v w = (r, v', w') \<Longrightarrow> R w w'"
  unfolding Copy_def by (rule R_with_helper)

end

context world_frame
begin

lemma R_copy_source: "e_os env = os \<Longrightarrow> copy_source env source v w = (r, v', w') \<Longrightarrow> R w w'"
  using frame_refl rf.R_Copy by (auto simp: copy_source_def split: if_splits sum.splits prod.splits)

lemma R_workspace:
  assumes "e_os env = os" "workspace f env source w = (r, w')"
  shows "R w w'"
proof -
  let ?v = "New (volumeNamePrefix @ newUUID os w)"
  obtain q w1 where q: "Setup (Run os) Background ?v w = (q, w1)" by fastforce
  obtain e v w2 where c: "copy_source env source ?v w1 = (e, v, w2)" using prod_cases3 by blast
  have "w' = w \<or> w' = w1 \<or> w' = w2"
    using assms q c by (auto simp: workspace_def Let_def split: sum.splits if_splits option.splits)
  then show ?thesis using frame_refl rf.R_Setup [OF q] R_copy_source [OF assms(1) c] frame_trans by metis
qed

lemma R_start_metadata:
  assumes "e_os env = os" "start_metadata env info w = (r, w')"
    and http: "\<forall>verb url body w. R w (snd (e_http env verb url body w))"
  shows "R w w'"
proof -
  obtain q w1 where q: "CreateCloudbuildNetwork (Run os) Background ''172.22.0.0/16'' w = (q, w1)" by fastforce
  obtain e w2 where e: "StartLocalServer (Run os) Background metadataImageName w = (e, w2)" by fastforce
  obtain a w3 where a: "SetProjectInfo True (e_http env) (project_encoder env) info w2 = (a, w3)" by fastforce
  have "w3 = snd (e_http env ''POST'' (getAddress True @ ''/build'') (project_encoder env info) w2)"
    using a by (auto simp: SetProjectInfo_def doRequest_def split: prod.splits sum.splits if_splits)
  then have "R w2 w3" using http by simp
  moreover have "w' = w1 \<or> w' = w2 \<or> w' = w3"
    using assms(1,2) q e a by (auto simp: start_metadata_def split: if_splits option.splits)
  ultimately show ?thesis using rf.R_network [OF q] rf.R_StartLocalServer [OF e] frame_trans by metis
qed

lemma R_start_services:
  assumes "e_os env = os" "start_services f env info s w = (r, s', w')"
    and http: "\<forall>verb url body w. R w (snd (e_http env verb url body w))"
  shows "R w w'"
proof -
  obtain t w1 where t: "get_token env w = (t, w1)" by fastforce
  have i: "R w w1" using rf.R_AccessToken t assms(1) by (simp add: get_token_def)
  have "w' = w \<or> w' = w1 \<or> (\<exists>w2. R w1 w2 \<and> (w' = w2 \<or> R w2 w'))"
    using assms(1,2) t
    by (auto simp: start_services_def split: if_splits sum.splits prod.splits option.splits
        dest!: R_SetDockerAccessToken [folded assms(1)] R_start_metadata [OF assms(1) _ http])
  then show ?thesis using i frame_refl frame_trans by metis
qed

text \<open>All that \<open>prepare\<close> does, with the look-up of the project on the other runner.\<close>

lemma R_prepare:
  assumes "e_os env = os" "prepare f env w = (r, w')"
    and plain: "\<forall>w1. R w w1 \<longrightarrow> P w1 (snd (gcloud_ProjectInfo (e_plain env) Background w1))"
  shows "R w w' \<or> (\<exists>w1. R w w1 \<and> P w1 w')"
proof -
  obtain q w1 where q: "Clean (Run os) Background w = (q, w1)" by fastforce
  obtain e w2 where e: "check_versions f env w1 = (e, w2)" by fastforce
  obtain a w3 where a: "gcloud_ProjectInfo (e_plain env) Background w2 = (a, w3)" by fastforce
  have 1: "R w w1" by (rule rf.R_Clean [OF q])
  have "R w1 w2"
    using e frame_refl rf.R_dockerVersions assms(1)
    by (auto simp: check_versions_def split: if_splits prod.splits sum.splits)
  then have 2: "R w w2" using 1 frame_trans by blast
  then have 3: "P w2 w3" using plain a by (metis snd_conv)
  have "w' = w1 \<or> w' = w2 \<or> w' = w3"
    using assms(1,2) q e a
    by (auto simp: prepare_def Let_def split: option.splits sum.splits prod.splits failure.splits)
  then show ?thesis using 1 2 3 by blast
qed

end

section \<open>The deferred calls\<close>

definition closing_calls :: "string \<Rightarrow> deferred list" where
  "closing_calls dir = (if dir \<noteq> [] then [ExportTo dir] else []) @ [CloseVolume]"

text \<open>The commands that export the workspace and remove a volume.\<close>

definition closing_commands :: "string \<Rightarrow> volume \<Rightarrow> string list list \<Rightarrow> bool" where
  "closing_commands dir v cmds \<longleftrightarrow>
     (\<exists>exports closing. cmds = exports @ closing \<and>
        (exports = [] \<longleftrightarrow> dir = []) \<and> set exports \<subseteq> {helper_cmd v, export_cmd dir v} \<and>
        closing \<in> {[rm_volume_cmd v], [rm_helper_cmd v], [rm_helper_cmd v, rm_volume_cmd v]})"

lemma volume_cmds_cong:
  assumes "vname v' = vname v" "helper v' = helper v"
  shows "helper_cmd v' = helper_cmd v" "export_cmd dir v' = export_cmd dir v" "rm_helper_cmd v' = rm_helper_cmd v"
    "rm_volume_cmd v' = rm_volume_cmd v" "create_cmd v' = create_cmd v"
  using assms by (simp_all add: helper_cmd_def export_cmd_def rm_helper_cmd_def rm_volume_cmd_def create_cmd_def)

context command_runner
begin

lemma run_deferred_closing:
  "\<exists>cmds. issued (run_deferred run (closing_calls dir) v w) = issued w @ cmds \<and> closing_commands dir v cmds"
proof (cases "dir = []")
  case True
  obtain cs where "issued (snd (Close run Background v w)) = issued w @ cs"
      "cs \<in> {[rm_volume_cmd v], [rm_helper_cmd v], [rm_helper_cmd v, rm_volume_cmd v]}"
    using Close_issued [of Background v w] by (auto split: if_splits)
  then show ?thesis using True by (auto simp: closing_calls_def closing_commands_def)
next
  case False
  obtain r v1 w1 where e: "Export run Background dir v w = (r, v1, w1)" using prod_cases3 by blast
  then have h: "with_helper (export_cmd dir) run Background v w = (r, v1, w1)" by (simp add: Export_def)
  note same = volume_cmds_cong [of v1 v] with_helper_facts [OF h]
  obtain cs where cs: "issued (snd (Close run Background v1 w1)) = issued w1 @ cs"
      "cs \<in> {[rm_volume_cmd v1], [rm_helper_cmd v1], [rm_helper_cmd v1, rm_volume_cmd v1]}"
    using Close_issued [of Background v1 w1] by (auto split: if_splits)
  define ex where "ex = (if createdHelper v then [] else [helper_cmd v]) @ (if createdHelper v1 then [export_cmd dir v1] else [])"
  have w1: "issued w1 = issued w @ ex" using with_helper_issued [OF h] by (simp add: ex_def)
  have ex: "ex \<noteq> []" "set ex \<subseteq> {helper_cmd v, export_cmd dir v}" using same by (auto simp: ex_def)
  have "run_deferred run (closing_calls dir) v w = snd (Close run Background v1 w1)"
    using False e by (simp add: closing_calls_def)
  then have "issued (run_deferred run (closing_calls dir) v w) = issued w @ ex @ cs" using cs(1) w1 by simp
  moreover have "closing_commands dir v (ex @ cs)"
    unfolding closing_commands_def
    by (rule exI [of _ ex], rule exI [of _ cs]) (use False ex cs(2) same in simp)
  ultimately show ?thesis by blast
qed

lemma Stop_issued: "issued (snd (Stop run c w)) = issued w @ [server_rm_cmd, network_rm_cmd]"
proof -
  obtain a w1 where a: "run c server_rm_cmd w = (a, w1)" by fastforce
  obtain b w2 where b: "run c network_rm_cmd w1 = (b, w2)" by fastforce
  show ?thesis using a b run_issuedD [OF a] run_issuedD [OF b] by (simp add: Stop_def CleanCloudbuildNetwork_def)
qed

lemma CleanCloudbuildNetwork_issued: "issued (snd (CleanCloudbuildNetwork run c w)) = issued w @ [network_rm_cmd]"
  using run_issued [of c network_rm_cmd w] by (auto simp: CleanCloudbuildNetwork_def split: prod.splits)

lemma workspace_calls:
  assumes "Run (e_os env) = run" "workspace f env source w = (Inr (vol, v, ds), w')" "\<not> dryRun f"
  shows "(ds = [] \<and> bindMountSource f) \<or> (ds = closing_calls (writeWorkspace f) \<and> create_cmd v \<in> set (issued w'))"
proof (cases "\<exists>p. bind_mount f env source w = Inr p \<and> p \<noteq> []")
  case True
  then show ?thesis using assms by (auto simp: workspace_def bind_mount_def split: if_splits)
next
  case False
  let ?v = "New (volumeNamePrefix @ newUUID (e_os env) w)"
  have b: "bind_mount f env source w = Inr []"
    using assms(2) False by (cases "bind_mount f env source w") (auto simp: workspace_def)
  obtain w1 where s: "Setup run Background ?v w = (None, w1)"
    using assms b by (auto simp: workspace_def Let_def split: prod.splits option.splits)
  have i: "issued w1 = issued w @ [create_cmd ?v]" by (rule Setup_issued [OF s])
  obtain e v1 w2 where c: "copy_source env source ?v w1 = (e, v1, w2)" using prod_cases3 by blast
  have r: "e = None" "v = v1" "w' = w2" "ds = closing_calls (writeWorkspace f)"
    using assms b s c by (auto simp: workspace_def Let_def closing_calls_def split: option.splits)
  have "create_cmd v1 = create_cmd ?v \<and> (\<exists>cs. issued w2 = issued w1 @ cs)"
  proof (cases "source = []")
    case True
    then show ?thesis using c by (simp add: copy_source_def)
  next
    case False
    then obtain dir where d: "with_helper (copy_cmd dir) run Background ?v w1 = (None, v1, w2)"
      using c r(1) assms(1) by (auto simp: copy_source_def Copy_def split: sum.splits prod.splits)
    then show ?thesis
      using volume_cmds_cong(5) [of v1 ?v] with_helper_facts [OF d] with_helper_issued [OF d] by simp
  qed
  then show ?thesis using r i by auto
qed

end

section \<open>The two runners of the command\<close>

text \<open>\<open>&runner.RealRunner{}\<close>: the same machine, without dry-run mode.\<close>

definition plain_Run :: "host \<Rightarrow> machine run" where
  "plain_Run host c args m =
     (case RealRunner_Run host c args (m\<lparr>DryRun := False\<rparr>) of (a, m') \<Rightarrow> (a, m'\<lparr>DryRun := DryRun m\<rparr>))"

interpretation plain: command_runner "plain_Run host" logged for host
proof
  fix c :: ctx and args and m :: machine
  show "logged (snd (plain_Run host c args m)) = logged m @ [args]"
    using real.run_issued [of host c args "m\<lparr>DryRun := False\<rparr>"] by (auto simp: plain_Run_def split: prod.splits)
qed

lemma plain_Run_started:
  assumes "plain_Run host c args m = (a, m')"
  shows "DryRun m' = DryRun m \<and> (started m' = started m \<or> started m' = started m @ [args])"
proof -
  obtain b m1 where r: "RealRunner_Run host c args (m\<lparr>DryRun := False\<rparr>) = (b, m1)" by fastforce
  then have "m' = m1\<lparr>DryRun := DryRun m\<rparr>" using assms by (simp add: plain_Run_def)
  moreover have "started m1 = started m \<or> started m1 = started m @ [args]"
    using r by (auto simp: RealRunner_Run_def Let_def split: outcome.splits)
  ultimately show ?thesis by simp
qed

text \<open>What the look-up of the project may start.\<close>

definition lookup_only :: "machine \<Rightarrow> machine \<Rightarrow> bool" where
  "lookup_only m m' \<longleftrightarrow> DryRun m' = DryRun m \<and>
     (\<exists>cs p. started m' = started m @ cs \<and> set cs \<subseteq> {project_cmd, describe_cmd p} \<and> length cs \<le> 2)"

lemma ProjectInfo_lookup:
  assumes "gcloud_ProjectInfo (plain_Run host) c m = (r, m')"
  shows "lookup_only m m'"
proof -
  obtain a m1 where a: "plain_Run host c project_cmd m = (a, m1)" by fastforce
  let ?p = "trim_space (stdout_of a)"
  obtain b m2 where b: "plain_Run host c (describe_cmd ?p) m1 = (b, m2)" by fastforce
  have "m' = m1 \<or> m' = m2"
    using assms a b by (cases "run_err a") (auto simp: gcloud_ProjectInfo_def Let_def split: if_splits)
  then have "DryRun m' = DryRun m"
    "started m' \<in> {started m, started m @ [project_cmd], started m @ [describe_cmd ?p], started m @ [project_cmd, describe_cmd ?p]}"
    using plain_Run_started [OF a] plain_Run_started [OF b] by auto
  then show ?thesis unfolding lookup_only_def by (auto intro!: exI [of _ ?p])
qed

end
