(* ===== verification/Local_Correct.thy ===== *)
theory Local_Correct
  imports Local_Main
begin

text \<open>
  What \<open>run\<close> of \<open>localbuilder_main.go\<close> guarantees, whatever the steps of the build do: its
  outcome, what a dry run executes, and what it cleans up; and the lines of the log.
\<close>

section \<open>The shape of a run\<close>

text \<open>A run that reaches the build.\<close>

lemma run_reaches_build:
  assumes "localbuilder_run f env core source w = (r, Some s, w')"
  obtains h b info w1 vol v ds w2 ds' s1 w3 w4 where
    "prepare f env w = (Inr (h, b, info), w1)"
    "workspace f env source w1 = (Inr (vol, v, ds), w2)"
    "start_services f env info (New_build (now_of (e_os env) w2) b) w2 = ((None, ds'), s1, w3)"
    "Start \<lparr>local_build = True, push_build = push_flag f\<rparr> (e_os env) b (core h b vol)
       (pushAll (e_os env) (e_fs env) vol (TempDir env) h b) s1 w3 = (s, w4)"
    "\<not> DoneClosed s \<and> r = Blocks \<and> w' = w4 \<or>
     DoneClosed s \<and> r = (if b_status s = StatusError then Fails BuildFailed else Finishes) \<and>
       w' = run_deferred (Run (e_os env)) (ds' @ ds) v w4"
proof -
  obtain p w1 where p: "prepare f env w = (p, w1)" by fastforce
  then obtain h b info where p': "p = Inr (h, b, info)"
    using assms by (cases p) (auto simp: localbuilder_run_def)
  obtain q w2 where q: "workspace f env source w1 = (q, w2)" by fastforce
  then obtain vol v ds where q': "q = Inr (vol, v, ds)"
    using assms p p' by (cases q) (auto simp: localbuilder_run_def)
  obtain e ds' s1 w3 where st: "start_services f env info (New_build (now_of (e_os env) w2) b) w2 = ((e, ds'), s1, w3)"
    by (metis prod.collapse)
  then have e: "e = None" using assms p p' q q' by (cases e) (auto simp: localbuilder_run_def)
  obtain s2 w4 where "Start \<lparr>local_build = True, push_build = push_flag f\<rparr> (e_os env) b (core h b vol)
       (pushAll (e_os env) (e_fs env) vol (TempDir env) h b) s1 w3 = (s2, w4)" by fastforce
  then show thesis
    using that assms p p' q q' st e by (auto simp: localbuilder_run_def split: if_splits)
qed

lemma run_stops_early:
  assumes "localbuilder_run f env core source w = (r, None, w')"
  shows "r = Panics \<or> (\<exists>e. r = Fails e \<and> e \<noteq> BuildFailed)"
proof -
  have prep: "p = Panics \<or> (\<exists>e. p = Fails e \<and> e \<noteq> BuildFailed)" if "prepare f env w = (Inl p, w1)" for p w1
    using that by (auto simp: prepare_def Let_def split: prod.splits option.splits sum.splits failure.splits if_splits)
  have bind: "e \<noteq> BuildFailed" if "bind_mount f env source w1 = Inl e" for e w1
    using that by (auto simp: bind_mount_def split: if_splits sum.splits)
  have copy: "e \<noteq> BuildFailed" if "copy_source env source v1 w1 = (Some e, v2, w2)" for e v1 v2 w1 w2
    using that by (auto simp: copy_source_def split: if_splits sum.splits prod.splits)
  have work: "e \<noteq> BuildFailed" if "workspace f env source w1 = (Inl e, w2)" for e w1 w2
    using that by (auto simp: workspace_def Let_def split: sum.splits if_splits prod.splits option.splits dest: bind copy)
  have serv: "e \<noteq> BuildFailed" if "start_services f env info s w1 = ((Some e, ds), s1, w2)" for e info s w1 ds s1 w2
    using that
    by (auto simp: start_services_def start_metadata_def split: if_splits sum.splits prod.splits option.splits)
  obtain p w1 where p: "prepare f env w = (p, w1)" by fastforce
  show ?thesis
  proof (cases p)
    case (Inl x)
    then show ?thesis using assms p prep by (auto simp: localbuilder_run_def)
  next
    case (Inr y)
    then obtain h b info where y: "p = Inr (h, b, info)" by (cases y) auto
    obtain q w2 where q: "workspace f env source w1 = (q, w2)" by fastforce
    show ?thesis
    proof (cases q)
      case (Inl e)
      then show ?thesis using assms p y q work by (auto simp: localbuilder_run_def)
    next
      case (Inr z)
      then obtain vol v ds where z: "q = Inr (vol, v, ds)" by (cases z) auto
      obtain e ds' s1 w3 where st: "start_services f env info (New_build (now_of (e_os env) w2) b) w2 = ((e, ds'), s1, w3)"
        by (metis prod.collapse)
      then show ?thesis
        using assms p y q z serv by (cases e) (auto simp: localbuilder_run_def split: prod.splits if_splits)
    qed
  qed
qed

lemma start_services_fresh:
  "start_services f env info s w = (r, s', w') \<Longrightarrow>
     b_err s' = b_err s \<and> DoneClosed s' = DoneClosed s \<and> stepStatus s' = stepStatus s \<and> (dryRun f \<longrightarrow> w' = w \<and> r = (None, []))"
  by (auto simp: start_services_def SetDockerAccessToken_def run_token_container_def Let_def
      split: if_splits prod.splits sum.splits option.splits)

text \<open>The calls that stop the metadata server are deferred exactly when it was started.\<close>

lemma start_services_calls:
  "start_services f env info s w = ((None, ds), s', w') \<Longrightarrow> \<not> dryRun f \<Longrightarrow>
     ds = (if OnGCE env then [CleanNetwork] else [StopServer])"
  by (auto simp: start_services_def start_metadata_def split: if_splits prod.splits sum.splits option.splits)

section \<open>Runs with any steps\<close>

text \<open>The outcome of a run.\<close>

lemma run_outcome_any:
  assumes "localbuilder_run f env core source w = (r, so, w')"
    and "\<forall>h b v. keeps_status (core h b v)"
  shows "case so of
     None \<Rightarrow> r = Panics \<or> (\<exists>e. r = Fails e \<and> e \<noteq> BuildFailed)
   | Some s \<Rightarrow> finished s \<and> r = (if b_status s = StatusError then Fails BuildFailed else Finishes)"
proof (cases so)
  case None
  then show ?thesis using run_stops_early assms(1) by simp
next
  case (Some s)
  with assms(1) have "localbuilder_run f env core source w = (r, Some s, w')" by simp
  then show ?thesis
  proof (rule run_reaches_build)
    fix h b info w1 vol v ds w2 ds' s1 w3 w4
    assume st: "start_services f env info (New_build (now_of (e_os env) w2) b) w2 = ((None, ds'), s1, w3)"
      and run: "Start \<lparr>local_build = True, push_build = push_flag f\<rparr> (e_os env) b (core h b vol)
        (pushAll (e_os env) (e_fs env) vol (TempDir env) h b) s1 w3 = (s, w4)"
      and r: "\<not> DoneClosed s \<and> r = Blocks \<and> w' = w4 \<or>
        DoneClosed s \<and> r = (if b_status s = StatusError then Fails BuildFailed else Finishes) \<and>
          w' = run_deferred (Run (e_os env)) (ds' @ ds) v w4"
    have "b_err s1 = None" "\<not> DoneClosed s1" using start_services_fresh [OF st] by (simp_all add: New_build_def)
    with Start_finished [OF _ _ _ run] assms(2) have "finished s" "DoneClosed s" by auto
    then show ?thesis using r Some by simp
  qed
qed

text \<open>What a dry run starts.\<close>

lemma dry_run_any:
  assumes "localbuilder_run f env core source m = (r, so, m')"
    and "dryRun f" "DryRun m"
    and "e_os env = real_os host clock uuids json random" "e_fs env = real_files temp rd wr enc" "e_plain env = plain_Run host"
    and "\<forall>h b v s m r s' m'. core h b v s m = (r, s', m') \<longrightarrow> quiet m m'"
  shows "\<exists>cs p. started m' = started m @ cs \<and> set cs \<subseteq> {project_cmd, describe_cmd p} \<and> length cs \<le> 2"
proof -
  let ?Q = "\<lambda>m m'. DryRun m \<longrightarrow> lookup_only m m'"
  have look: "?Q m1 m2" if "quiet m m1 \<and> (m2 = m1 \<or> lookup_only m1 m2)" "DryRun m" for m1 m2
    using that by (auto simp: lookup_only_def)
  obtain p m1 where p: "prepare f env m = (p, m1)" by fastforce
  have "quiet m m1 \<or> (\<exists>m0. quiet m m0 \<and> lookup_only m0 m1)"
    by (rule rquiet.R_prepare [OF assms(4) p]) (metis assms(6) ProjectInfo_lookup prod.collapse)
  moreover have "lookup_only m m1" if "quiet m m1"
    using that assms(3) by (simp add: lookup_only_def quiet_def)
  moreover have "lookup_only m m1" if "quiet m m0" "lookup_only m0 m1" for m0
    using that assms(3) by (simp add: lookup_only_def quiet_def)
  ultimately have m1: "lookup_only m m1" by blast
  have dry: "DryRun m1" using m1 assms(3) by (simp add: lookup_only_def)
  have later: "quiet m1 m'"
  proof (cases p)
    case (Inl x)
    then show ?thesis using assms(1) p quiet_refl by (simp add: localbuilder_run_def)
  next
    case (Inr y)
    then obtain h b info where y: "p = Inr (h, b, info)" by (cases y) auto
    obtain q m2 where q: "workspace f env source m1 = (q, m2)" by fastforce
    have m2: "m2 = m1" "\<forall>vol v ds. q = Inr (vol, v, ds) \<longrightarrow> ds = []"
      using q assms(2) by (auto simp: workspace_def Let_def split: sum.splits if_splits)
    show ?thesis
    proof (cases q)
      case (Inl e)
      then show ?thesis using assms(1) p y q m2 quiet_refl by (simp add: localbuilder_run_def)
    next
      case (Inr z)
      then obtain vol v where z: "q = Inr (vol, v, [])" using m2(2) by (cases z) auto
      let ?s = "New_build (now_of (e_os env) m1) b"
      have st: "start_services f env info ?s m1 = ((None, []), ?s, m1)"
        using assms(2) by (simp add: start_services_def)
      obtain s m3 where S: "Start \<lparr>local_build = True, push_build = push_flag f\<rparr> (e_os env) b (core h b vol)
          (pushAll (e_os env) (e_fs env) vol (TempDir env) h b) ?s m1 = (s, m3)" by fastforce
      have "\<forall>s m r s' m'. core h b vol s m = (r, s', m') \<longrightarrow> quiet m m'" using assms(7) by blast
      from rquiet.R_Start [OF this S [unfolded assms(4,5)]] have "quiet m1 m3" .
      moreover have "m' = m3"
        using assms(1) p y q m2(1) z st S by (auto simp: localbuilder_run_def split: if_splits)
      ultimately show ?thesis by simp
    qed
  qed
  show ?thesis using m1 later dry by (auto simp: lookup_only_def quiet_def)
qed

text \<open>What is stopped at the end.\<close>

lemma run_cleans_up_any:
  assumes "localbuilder_run f env core source m = (r, Some s, m')" "\<not> dryRun f"
    and "e_os env = real_os host clock uuids json random" "e_fs env = real_files temp rd wr enc" "e_plain env = plain_Run host"
    and "\<forall>verb url body m. logged (snd (e_http env verb url body m)) = logged m"
    and "\<forall>h b v. keeps_status (core h b v)"
    and "\<forall>h b v s m r s' m'. core h b v s m = (r, s', m') \<longrightarrow> (\<exists>cs. logged m' = logged m @ cs)"
  shows "\<exists>cs rest. logged m' = logged m @ cs @
       (if OnGCE env then [network_rm_cmd] else [server_rm_cmd, network_rm_cmd]) @ rest \<and>
     (rest = [] \<and> bindMountSource f \<or>
      (\<exists>v. create_cmd v \<in> set (logged m @ cs) \<and> closing_commands (writeWorkspace f) v rest))"
  using assms(1)
proof (rule run_reaches_build)
  fix h b info w1 vol v ds w2 ds' s1 w3 w4
  assume p: "prepare f env m = (Inr (h, b, info), w1)"
    and q: "workspace f env source w1 = (Inr (vol, v, ds), w2)"
    and st: "start_services f env info (New_build (now_of (e_os env) w2) b) w2 = ((None, ds'), s1, w3)"
    and run: "Start \<lparr>local_build = True, push_build = push_flag f\<rparr> (e_os env) b (core h b vol)
      (pushAll (e_os env) (e_fs env) vol (TempDir env) h b) s1 w3 = (s, w4)"
    and r: "\<not> DoneClosed s \<and> r = Blocks \<and> m' = w4 \<or>
      DoneClosed s \<and> r = (if b_status s = StatusError then Fails BuildFailed else Finishes) \<and>
        m' = run_deferred (Run (e_os env)) (ds' @ ds) v w4"
  let ?E = "extends logged"
  have "b_err s1 = None" "\<not> DoneClosed s1" using start_services_fresh [OF st] by (simp_all add: New_build_def)
  with Start_finished [OF _ _ _ run] assms(7) have "DoneClosed s" by auto
  then have m': "m' = run_deferred (Run (e_os env)) (ds' @ ds) v w4" using r by simp
  have "?E m w1"
    using rgsutil.adds.R_prepare [OF assms(3) p, of ?E] rgsutil.adds.frame_trans
      plain.grow.R_ProjectInfo [of host Background] assms(5) by (metis prod.collapse)
  moreover have 12: "?E w1 w2" by (rule rgsutil.adds.R_workspace [OF assms(3) q])
  moreover have 23: "?E w2 w3"
    by (rule rgsutil.adds.R_start_services [OF assms(3) st]) (simp add: extends_def assms(6))
  moreover have 34: "?E w3 w4"
    using rgsutil.adds.R_Start run assms(3,4,8) unfolding extends_def by metis
  ultimately have "?E m w4" "?E w2 w4" using rgsutil.adds.frame_trans by metis+
  then obtain c c2 where c: "logged w4 = logged m @ c" "logged w4 = logged w2 @ c2" by (auto simp: extends_def)
  let ?stop = "if OnGCE env then [network_rm_cmd] else [server_rm_cmd, network_rm_cmd]"
  let ?w5 = "if OnGCE env then snd (CleanCloudbuildNetwork (Run (e_os env)) Background w4)
    else snd (Stop (Run (e_os env)) Background w4)"
  have ds': "ds' = (if OnGCE env then [CleanNetwork] else [StopServer])"
    by (rule start_services_calls [OF st assms(2)])
  have w5: "logged ?w5 = logged m @ c @ ?stop" "m' = run_deferred (Run (e_os env)) ds v ?w5"
    using m' ds' c(1) assms(3) rdocker.os.Stop_issued rdocker.os.CleanCloudbuildNetwork_issued by simp_all
  from rdocker.os.workspace_calls [OF _ q assms(2)] assms(3)
  have "ds = [] \<and> bindMountSource f \<or> ds = closing_calls (writeWorkspace f) \<and> create_cmd v \<in> set (logged w2)" by simp
  then show ?thesis
  proof
    assume "ds = [] \<and> bindMountSource f"
    then show ?thesis using w5 by (intro exI [of _ c] exI [of _ "[]"]) simp
  next
    assume a: "ds = closing_calls (writeWorkspace f) \<and> create_cmd v \<in> set (logged w2)"
    then obtain rest where "logged m' = logged ?w5 @ rest" "closing_commands (writeWorkspace f) v rest"
      using w5(2) rdocker.os.run_deferred_closing assms(3) by metis
    moreover have "create_cmd v \<in> set (logged m @ c)" using a c by (metis Un_iff set_append)
    ultimately show ?thesis using w5(1) by (intro exI [of _ c] exI [of _ rest]) auto
  qed
qed

section \<open>A run to try the properties on\<close>

definition sample_build :: build where
  "sample_build = empty_build\<lparr>Steps := [empty_step\<lparr>s_Name := ''gcr.io/p/a''\<rparr>]\<rparr>"

definition sample_env :: "host \<Rightarrow> machine env" where
  "sample_env host =
     \<lparr>e_os = real_os host (\<lambda>_. 0) (\<lambda>_. ''u'') (\<lambda>_. None) (\<lambda>_. 0),
      e_fs = real_files (\<lambda>_ _ _. Inr ''m'') (\<lambda>_ _. Inr []) (\<lambda>_ _ _. None) (\<lambda>_. []),
      e_plain = plain_Run host, e_http = (\<lambda>verb url body m. (Inr (200, []), m)),
      ReadConfig = (\<lambda>_. Inr []), yaml_decoder = (\<lambda>_. Inr []), json_encoder = (\<lambda>_. Inr []),
      build_decoder = (\<lambda>_. Inr sample_build), decoder_store = (\<lambda>_. []),
      Stat = (\<lambda>p m. Inr True), Getwd = (\<lambda>m. Inr ''/home''), OnGCE = False,
      helper_decoder = (\<lambda>_. Inr \<lparr>hc_AccessToken = ''t'', hc_TokenExpiry = [], hc_Account = ''a''\<rparr>),
      time_parser = (\<lambda>_. Inr 5), project_encoder = (\<lambda>_. []), token_encoder = (\<lambda>_. []),
      token_form = (\<lambda>t. t), scope_decoder = Inr, TempDir = ''/tmp''\<rparr>"

definition sample_flags :: flags where
  "sample_flags = \<lparr>configFile = ''cloudbuild.yaml'', substitutions = [], dryRun = False, push_flag = True,
     noSource = False, bindMountSource = False, writeWorkspace = ''out'', help_flag = False, versionFlag = False\<rparr>"

text \<open>Steps that run one command and end with the given error.\<close>

definition sample_core :: "host \<Rightarrow> err option \<Rightarrow> store \<Rightarrow> build \<Rightarrow> string \<Rightarrow> machine core" where
  "sample_core host e h b vol s m = (e, s, snd (RealRunner_Run host BuildCtx [''docker'', ''run'', vol] m))"

lemma sample_core_facts:
  "keeps_status (sample_core host e h b v)"
  "sample_core host e h b v s m = (r, s', m') \<Longrightarrow> quiet m m'"
  "sample_core host e h b v s m = (r, s', m') \<Longrightarrow> \<exists>cs. logged m' = logged m @ cs"
  using quiet_run real.run_issued by (auto simp: sample_core_def keeps_status_def)

lemma sample_env_facts:
  "e_os (sample_env host) = real_os host (\<lambda>_. 0) (\<lambda>_. ''u'') (\<lambda>_. None) (\<lambda>_. 0)"
  "e_fs (sample_env host) = real_files (\<lambda>_ _ _. Inr ''m'') (\<lambda>_ _. Inr []) (\<lambda>_ _ _. None) (\<lambda>_. [])"
  "e_plain (sample_env host) = plain_Run host"
  "logged (snd (e_http (sample_env host) verb url body m)) = logged m"
  by (simp_all add: sample_env_def)

text \<open>A volume whose source cannot be copied is left behind.\<close>

definition no_copy_host :: host where
  "no_copy_host h c args = Exits [] (if List.member args ''cp'' then Some (ErrText ''exit status 1'') else None)"

lemma volume_left_behind:
  "let r = localbuilder_run sample_flags (sample_env no_copy_host) (sample_core no_copy_host None) ''src'' idle
   in fst r = Fails (CopyError (ErrText ''exit status 1'')) \<and>
      List.member (logged (snd (snd r))) (create_cmd (New ''cloudbuild_vol_u'')) \<and>
      \<not> List.member (logged (snd (snd r))) (rm_volume_cmd (New ''cloudbuild_vol_u''))"
  by code_simp

lemma good_Run:
  "\<not> DryRun m \<Longrightarrow> RealRunner_Run good_host c args m =
     (\<lparr>writes = [], run_err = None\<rparr>, m\<lparr>logged := logged m @ [args], started := started m @ [args]\<rparr>)"
  by (simp add: RealRunner_Run_def good_host_def)

lemma sample_reaches_build:
  "\<exists>r s m'. localbuilder_run sample_flags (sample_env good_host) core ''src'' idle = (r, Some s, m')"
proof -
  let ?p = "prepare sample_flags (sample_env good_host) idle"
  have "case ?p of (Inl r, m) \<Rightarrow> False | (Inr x, m) \<Rightarrow> \<not> DryRun m" by code_simp
  then obtain h b info m1 where p: "?p = (Inr (h, b, info), m1)" "\<not> DryRun m1"
    by (auto split: prod.splits sum.splits)
  obtain vol v ds m2 where w: "workspace sample_flags (sample_env good_host) ''src'' m1 = (Inr (vol, v, ds), m2)" "\<not> DryRun m2"
    using p(2)
    by (simp add: workspace_def bind_mount_def sample_flags_def sample_env_def real_os_def Setup_def good_Run Let_def
        copy_source_def IsDirectory_def Copy_def with_helper_def getHelperContainer_def New_def)
  obtain ds' s m3 where "start_services sample_flags (sample_env good_host) info (New_build 0 b) m2 = ((None, ds'), s, m3)"
    using w(2)
    by (simp add: start_services_def get_token_def gcloud_AccessToken_def sample_flags_def sample_env_def real_os_def
        good_Run stdout_of_def SetDockerAccessToken_def run_token_container_def Let_def start_metadata_def
        StartLocalServer_def startServer_def CreateCloudbuildNetwork_def SetProjectInfo_def doRequest_def)
  then show ?thesis
    using p w by (simp add: localbuilder_run_def sample_env_def real_os_def split: prod.split)
qed

section \<open>Properties\<close>

text \<open>
  The log of a step keeps its lines. A text of lines that fit the buffer, the last of them
  with or without a line feed, is written line by line, each behind the prefix, and the
  writer accepts all of it.
\<close>

theorem prefix_Write_lines:
  assumes "\<forall>l\<in>set (lines @ [rest]). CHR 0x0A \<notin> set l \<and> length l < MaxScanTokenSize \<and> drop_last_cr l = l"
  shows "prefix_Write prefix (concat (map (\<lambda>l. l @ [CHR 0x0A]) lines) @ rest) =
    (map (\<lambda>l. prefix @ '': '' @ l @ [CHR 0x0A]) (lines @ (if rest = [] then [] else [rest])),
     int (length (concat (map (\<lambda>l. l @ [CHR 0x0A]) lines) @ rest)), True)"
proof -
  have split: "split_on CHR 0x0A (concat (map (\<lambda>l. l @ [CHR 0x0A]) ls) @ rest) = ls @ [rest]"
    if "\<forall>l\<in>set (ls @ [rest]). CHR 0x0A \<notin> set l" for ls
    using that by (induction ls) (auto simp: split_on_id split_on_append)
  have scan: "scan_lines (ls @ [rest]) = (ls @ (if rest = [] then [] else [rest]), True)"
    if "\<forall>l\<in>set (ls @ [rest]). length l < MaxScanTokenSize \<and> drop_last_cr l = l" for ls
    using that by (induction ls) auto
  show ?thesis using assms split scan unfolding prefix_Write_def by simp
qed

theorem prefix_Write_lines_witness:
  "prefix_Write ''Step #0'' (''a'' @ [CHR 0x0A, CHR 0x0A] @ ''b'') =
     ([''Step #0: a'' @ [CHR 0x0A], ''Step #0: '' @ [CHR 0x0A], ''Step #0: b'' @ [CHR 0x0A]], 4, True)"
proof -
  have "\<forall>l\<in>set ([''a'', []] @ [''b'']). CHR 0x0A \<notin> set l \<and> length l < MaxScanTokenSize \<and> drop_last_cr l = l"
    by (simp add: MaxScanTokenSize_def drop_last_cr_def)
  from prefix_Write_lines [OF this, of "''Step #0''"] show ?thesis by simp
qed

end
