(* ===== verification/Build_Sched.thy ===== *)
theory Build_Sched
  imports Validate_Steps Runner
begin

text \<open>
  The scheduler of \<open>build/build.go\<close>: \<open>runBuildSteps\<close> starts one goroutine for each step
  (\<open>timeAndRunStep\<close>), which waits for the channels of the steps it depends on
  (\<open>waitChansForStep\<close>), runs, and either closes its own channel or sends an error; the main
  goroutine collects the channels in order and returns at the first error. The model is a
  transition system: a state holds the program counter of every goroutine, the context, the
  lock and the statuses, and an action is one atomic move of one goroutine. What fetching
  and running a container return is part of the action. The definitions follow the code;
  the lemmas prove an invariant, progress and a bound on the length of every execution.
\<close>

section \<open>Dependencies\<close>

text \<open>\<open>b.idxTranslate\<close>: the last step with an id is the one the map holds.\<close>

definition idxTranslate :: "build_step list \<Rightarrow> string \<Rightarrow> nat option" where
  "idxTranslate steps =
     map_of (rev (filter (\<lambda>(d, _). d \<noteq> []) (zip (map s_Id steps) [0..<length steps])))"

text \<open>When \<open>waitChansForStep(idx)\<close> runs, \<open>b.idxChan\<close> has the channels up to \<open>idx\<close>.\<close>

fun dep_chans :: "build_step list \<Rightarrow> nat \<Rightarrow> string list \<Rightarrow> err + nat list" where
  "dep_chans steps idx [] = Inr []"
| "dep_chans steps idx (dep # deps) =
     (if dep = StartStep then dep_chans steps idx deps
      else case idxTranslate steps dep of
             None \<Rightarrow> Inl (ErrText ''translate not populated'')
           | Some j \<Rightarrow>
               if j \<le> idx then
                 (case dep_chans steps idx deps of Inl e \<Rightarrow> Inl e | Inr js \<Rightarrow> Inr (j # js))
               else Inl (ErrText ''channel not populated''))"

definition waitChansForStep :: "build_step list \<Rightarrow> nat \<Rightarrow> err + nat list" where
  "waitChansForStep steps idx =
     (let deps = s_WaitFor (steps ! idx)
      in if deps = [StartStep] then Inr []
         else if deps \<noteq> [] then dep_chans steps idx deps
         else Inr [0..<idx])"

section \<open>States\<close>

text \<open>
  The program counter of a step: waiting for channels, fetching the image, running, blocked
  on sending an error (with the lock held where the timeout was invalid), returned with its
  channel closed, returned without.
\<close>

datatype pc = Waiting "nat list" | Fetching | Running | Sending err | SendLocked err | Closed | Gone

datatype main_pc = Spawning nat | Collecting nat | Returned "err option"

record sched =
  main_at :: main_pc
  gors :: "pc list"
  sctx :: "err option"
  statuses :: "step_status list"
  mu_held :: bool

record config =
  cfg_steps :: "build_step list"
  cfg_images :: "string list"

definition sched_init :: "config \<Rightarrow> sched" where
  "sched_init cfg = \<lparr>main_at = Spawning 0, gors = [], sctx = None,
     statuses = replicate (length (cfg_steps cfg)) QUEUED, mu_held = False\<rparr>"

text \<open>The deferred \<open>cancel\<close> runs when \<open>runBuildSteps\<close> returns.\<close>

definition return_main :: "err option \<Rightarrow> sched \<Rightarrow> sched" where
  "return_main r s =
     s\<lparr>main_at := Returned r, sctx := (case sctx s of None \<Rightarrow> Some Canceled | Some e \<Rightarrow> Some e)\<rparr>"

definition step_timeout :: "build_step \<Rightarrow> duration_error + int" where
  "step_timeout st = (case s_Timeout st of None \<Rightarrow> Inr 0 | Some t \<Rightarrow> ptypes_Duration t)"

text \<open>The status of a step after its container has returned.\<close>

definition status_after :: "int \<Rightarrow> int \<Rightarrow> err option \<Rightarrow> step_status \<Rightarrow> step_status" where
  "status_after timeout stepTime r old =
     (case r of
        None \<Rightarrow> SUCCESS
      | Some DeadlineExceeded \<Rightarrow> if timeout \<noteq> 0 \<and> stepTime \<ge> timeout then TIMEOUT else old
      | Some Canceled \<Rightarrow> CANCELLED
      | Some _ \<Rightarrow> FAILURE)"

section \<open>Actions\<close>

datatype action =
  Spawn
| SeeClosed
| SeeCtx
| Receive nat
| Verify "string list"
| Interrupt err
| Pass nat
| Abandon nat
| Begin nat
| Fetched nat "err option"
| Ran nat "err option" int

definition set_pc :: "nat \<Rightarrow> pc \<Rightarrow> sched \<Rightarrow> sched" where
  "set_pc i p s = s\<lparr>gors := (gors s)[i := p]\<rparr>"

definition set_status :: "nat \<Rightarrow> step_status \<Rightarrow> sched \<Rightarrow> sched" where
  "set_status i st s = s\<lparr>statuses := (statuses s)[i := st]\<rparr>"

definition pc_of :: "sched \<Rightarrow> nat \<Rightarrow> pc option" where
  "pc_of s i = (if i < length (gors s) then Some (gors s ! i) else None)"

text \<open>The moves of the main goroutine.\<close>

definition fire_spawn :: "config \<Rightarrow> sched \<Rightarrow> sched option" where
  "fire_spawn cfg s =
     (case main_at s of
        Spawning k \<Rightarrow>
          if k < length (cfg_steps cfg) then
            (case waitChansForStep (cfg_steps cfg) k of
               Inl e \<Rightarrow> Some (return_main (Some e) s)
             | Inr ws \<Rightarrow> Some (s\<lparr>gors := gors s @ [Waiting ws], main_at := Spawning (Suc k)\<rparr>))
          else Some (s\<lparr>main_at := Collecting 0\<rparr>)
      | _ \<Rightarrow> None)"

definition fire_see_closed :: "config \<Rightarrow> sched \<Rightarrow> sched option" where
  "fire_see_closed cfg s =
     (case main_at s of
        Collecting k \<Rightarrow>
          if k < length (cfg_steps cfg) \<and> pc_of s k = Some Closed
          then Some (s\<lparr>main_at := Collecting (Suc k)\<rparr>) else None
      | _ \<Rightarrow> None)"

definition fire_see_ctx :: "config \<Rightarrow> sched \<Rightarrow> sched option" where
  "fire_see_ctx cfg s =
     (case (main_at s, sctx s) of
        (Collecting k, Some e) \<Rightarrow>
          if k < length (cfg_steps cfg) then Some (return_main (Some e) s) else None
      | _ \<Rightarrow> None)"

definition fire_receive :: "config \<Rightarrow> nat \<Rightarrow> sched \<Rightarrow> sched option" where
  "fire_receive cfg j s =
     (case main_at s of
        Collecting k \<Rightarrow>
          if k < length (cfg_steps cfg) then
            (case pc_of s j of
               Some (Sending e) \<Rightarrow> Some (return_main (Some e) (set_pc j Gone s))
             | Some (SendLocked e) \<Rightarrow> Some (return_main (Some e) (set_pc j Gone s))
             | _ \<Rightarrow> None)
          else None
      | _ \<Rightarrow> None)"

text \<open>The images that docker lists locally; the others are missing.\<close>

definition fire_verify :: "config \<Rightarrow> string list \<Rightarrow> sched \<Rightarrow> sched option" where
  "fire_verify cfg found s =
     (if main_at s = Collecting (length (cfg_steps cfg)) then
        (let missing = filter (\<lambda>i. i \<notin> set found) (cfg_images cfg)
         in Some (return_main (if missing \<noteq> [] then Some (ErrText ''failed to find images'') else None) s))
      else None)"

text \<open>The moves of the goroutine of a step.\<close>

definition fire_pass :: "nat \<Rightarrow> sched \<Rightarrow> sched option" where
  "fire_pass i s =
     (case pc_of s i of
        Some (Waiting (j # ws)) \<Rightarrow>
          if pc_of s j = Some Closed then Some (set_pc i (Waiting ws) s) else None
      | _ \<Rightarrow> None)"

definition fire_abandon :: "nat \<Rightarrow> sched \<Rightarrow> sched option" where
  "fire_abandon i s =
     (if sctx s = None then None
      else case pc_of s i of
             Some (Waiting (j # ws)) \<Rightarrow> Some (set_pc i Gone s)
           | Some (Sending e) \<Rightarrow> Some (set_pc i Gone s)
           | _ \<Rightarrow> None)"

definition fire_begin :: "config \<Rightarrow> nat \<Rightarrow> sched \<Rightarrow> sched option" where
  "fire_begin cfg i s =
     (if pc_of s i = Some (Waiting []) \<and> \<not> mu_held s then
        (case step_timeout (cfg_steps cfg ! i) of
           Inl e \<Rightarrow>
             Some ((set_pc i (SendLocked (ErrText ''invalid timeout'')) (set_status i WORKING s))\<lparr>mu_held := True\<rparr>)
         | Inr t \<Rightarrow> Some (set_pc i Fetching (set_status i WORKING s)))
      else None)"

definition step_failed :: "err \<Rightarrow> err" where
  "step_failed e = ErrWrap ''build step failed'' e"

definition fire_fetched :: "nat \<Rightarrow> err option \<Rightarrow> sched \<Rightarrow> sched option" where
  "fire_fetched i r s =
     (if pc_of s i = Some Fetching \<and> \<not> mu_held s then
        Some (set_pc i (case r of None \<Rightarrow> Running | Some e \<Rightarrow> Sending (step_failed e)) s)
      else None)"

definition fire_ran :: "config \<Rightarrow> nat \<Rightarrow> err option \<Rightarrow> int \<Rightarrow> sched \<Rightarrow> sched option" where
  "fire_ran cfg i r stepTime s =
     (if pc_of s i = Some Running \<and> \<not> mu_held s then
        (let timeout = (case step_timeout (cfg_steps cfg ! i) of Inr t \<Rightarrow> t | Inl _ \<Rightarrow> 0)
         in Some (set_pc i (case r of None \<Rightarrow> Closed | Some e \<Rightarrow> Sending (step_failed e))
              (set_status i (status_after timeout stepTime r (statuses s ! i)) s)))
      else None)"

fun fire :: "config \<Rightarrow> action \<Rightarrow> sched \<Rightarrow> sched option" where
  "fire cfg Spawn s = fire_spawn cfg s"
| "fire cfg SeeClosed s = fire_see_closed cfg s"
| "fire cfg SeeCtx s = fire_see_ctx cfg s"
| "fire cfg (Receive j) s = fire_receive cfg j s"
| "fire cfg (Verify found) s = fire_verify cfg found s"
| "fire cfg (Interrupt e) s =
     (if sctx s = None \<and> e \<in> {DeadlineExceeded, Canceled} then Some (s\<lparr>sctx := Some e\<rparr>) else None)"
| "fire cfg (Pass i) s = fire_pass i s"
| "fire cfg (Abandon i) s = fire_abandon i s"
| "fire cfg (Begin i) s = fire_begin cfg i s"
| "fire cfg (Fetched i r) s = fire_fetched i r s"
| "fire cfg (Ran i r t) s = fire_ran cfg i r t s"

inductive reachable :: "config \<Rightarrow> sched \<Rightarrow> bool" for cfg where
  reach_init: "reachable cfg (sched_init cfg)"
| reach_fire: "reachable cfg s \<Longrightarrow> fire cfg a s = Some s' \<Longrightarrow> reachable cfg s'"

fun fires :: "config \<Rightarrow> action list \<Rightarrow> sched \<Rightarrow> sched option" where
  "fires cfg [] s = Some s"
| "fires cfg (a # as) s = (case fire cfg a s of None \<Rightarrow> None | Some s' \<Rightarrow> fires cfg as s')"

lemma fires_reachable: "reachable cfg s \<Longrightarrow> fires cfg as s = Some s' \<Longrightarrow> reachable cfg s'"
  by (induction as arbitrary: s) (auto split: option.splits intro: reach_fire)

lemma fires_append: "fires cfg (as @ bs) s = Option.bind (fires cfg as s) (fires cfg bs)"
  by (induction as arbitrary: s) (auto split: option.split)

lemma reachable_fires: "reachable cfg s \<Longrightarrow> \<exists>as. fires cfg as (sched_init cfg) = Some s"
proof (induction rule: reachable.induct)
  case reach_init
  then show ?case by (intro exI [of _ "[]"]) simp
next
  case (reach_fire s a s')
  then obtain as where "fires cfg as (sched_init cfg) = Some s" by blast
  then show ?case using reach_fire by (intro exI [of _ "as @ [a]"]) (simp add: fires_append)
qed

section \<open>Simplification rules\<close>

lemma set_pc_simps [simp]:
  "main_at (set_pc i p s) = main_at s" "gors (set_pc i p s) = (gors s)[i := p]" "sctx (set_pc i p s) = sctx s"
  "statuses (set_pc i p s) = statuses s" "mu_held (set_pc i p s) = mu_held s"
  by (simp_all add: set_pc_def)

lemma set_status_simps [simp]:
  "main_at (set_status i x s) = main_at s" "gors (set_status i x s) = gors s" "sctx (set_status i x s) = sctx s"
  "statuses (set_status i x s) = (statuses s)[i := x]" "mu_held (set_status i x s) = mu_held s"
  by (simp_all add: set_status_def)

lemma return_main_simps [simp]:
  "main_at (return_main r s) = Returned r" "gors (return_main r s) = gors s"
  "statuses (return_main r s) = statuses s" "mu_held (return_main r s) = mu_held s"
  "sctx (return_main r s) = (case sctx s of None \<Rightarrow> Some Canceled | Some e \<Rightarrow> Some e)"
  by (simp_all add: return_main_def)

lemma pc_of_Some: "pc_of s i = Some p \<longleftrightarrow> i < length (gors s) \<and> gors s ! i = p"
  by (auto simp: pc_of_def)

text \<open>Inversion of the moves, one rule for each.\<close>

lemma fire_spawnE:
  assumes "fire_spawn cfg s = Some s'"
  obtains (bad) k e where "main_at s = Spawning k" "k < length (cfg_steps cfg)"
      "waitChansForStep (cfg_steps cfg) k = Inl e" "s' = return_main (Some e) s"
    | (go) k ws where "main_at s = Spawning k" "k < length (cfg_steps cfg)"
      "waitChansForStep (cfg_steps cfg) k = Inr ws" "s' = s\<lparr>gors := gors s @ [Waiting ws], main_at := Spawning (Suc k)\<rparr>"
    | (all) k where "main_at s = Spawning k" "\<not> k < length (cfg_steps cfg)" "s' = s\<lparr>main_at := Collecting 0\<rparr>"
  using assms by (auto simp: fire_spawn_def split: main_pc.splits if_splits sum.splits)

lemma fire_see_closedE:
  assumes "fire_see_closed cfg s = Some s'"
  obtains k where "main_at s = Collecting k" "k < length (cfg_steps cfg)" "k < length (gors s)" "gors s ! k = Closed"
    "s' = s\<lparr>main_at := Collecting (Suc k)\<rparr>"
  using assms by (auto simp: fire_see_closed_def pc_of_Some split: main_pc.splits if_splits)

lemma fire_see_ctxE:
  assumes "fire_see_ctx cfg s = Some s'"
  obtains k e where "main_at s = Collecting k" "k < length (cfg_steps cfg)" "sctx s = Some e"
    "s' = return_main (Some e) s"
  using assms by (auto simp: fire_see_ctx_def split: main_pc.splits option.splits if_splits)

lemma fire_receiveE:
  assumes "fire_receive cfg j s = Some s'"
  obtains k e where "main_at s = Collecting k" "k < length (cfg_steps cfg)" "j < length (gors s)"
    "gors s ! j = Sending e \<or> gors s ! j = SendLocked e" "s' = return_main (Some e) (set_pc j Gone s)"
  using assms by (auto simp: fire_receive_def pc_of_Some split: main_pc.splits option.splits pc.splits if_splits)

lemma fire_verifyE:
  assumes "fire_verify cfg found s = Some s'"
  obtains r where "main_at s = Collecting (length (cfg_steps cfg))" "s' = return_main r s"
    "r = None \<longleftrightarrow> set (cfg_images cfg) \<subseteq> set found"
  using assms by (auto simp: fire_verify_def Let_def filter_empty_conv split: if_splits)

lemma fire_passE:
  assumes "fire_pass i s = Some s'"
  obtains j ws where "i < length (gors s)" "gors s ! i = Waiting (j # ws)" "j < length (gors s)"
    "gors s ! j = Closed" "s' = set_pc i (Waiting ws) s"
  using assms by (auto simp: fire_pass_def pc_of_Some split: option.splits pc.splits list.splits if_splits)

lemma fire_abandonE:
  assumes "fire_abandon i s = Some s'"
  obtains "sctx s \<noteq> None" "i < length (gors s)" "(\<exists>j ws. gors s ! i = Waiting (j # ws)) \<or> (\<exists>e. gors s ! i = Sending e)"
    "s' = set_pc i Gone s"
  using assms by (auto simp: fire_abandon_def pc_of_Some split: option.splits pc.splits list.splits if_splits)

lemma fire_beginE:
  assumes "fire_begin cfg i s = Some s'"
  obtains (ok) t where "i < length (gors s)" "gors s ! i = Waiting []" "\<not> mu_held s"
      "step_timeout (cfg_steps cfg ! i) = Inr t" "s' = set_pc i Fetching (set_status i WORKING s)"
    | (bad) e where "i < length (gors s)" "gors s ! i = Waiting []" "\<not> mu_held s"
      "step_timeout (cfg_steps cfg ! i) = Inl e"
      "s' = (set_pc i (SendLocked (ErrText ''invalid timeout'')) (set_status i WORKING s))\<lparr>mu_held := True\<rparr>"
  using assms by (auto simp: fire_begin_def pc_of_Some split: if_splits sum.splits)

lemma fire_fetchedE:
  assumes "fire_fetched i r s = Some s'"
  obtains "i < length (gors s)" "gors s ! i = Fetching" "\<not> mu_held s"
    "s' = set_pc i (case r of None \<Rightarrow> Running | Some e \<Rightarrow> Sending (step_failed e)) s"
  using assms by (auto simp: fire_fetched_def pc_of_Some split: if_splits)

lemma fire_ranE:
  assumes "fire_ran cfg i r stepTime s = Some s'"
  obtains timeout where "i < length (gors s)" "gors s ! i = Running" "\<not> mu_held s"
    "s' = set_pc i (case r of None \<Rightarrow> Closed | Some e \<Rightarrow> Sending (step_failed e))
       (set_status i (status_after timeout stepTime r (statuses s ! i)) s)"
  using assms by (auto simp: fire_ran_def pc_of_Some Let_def split: if_splits)

section \<open>The channels of a validated build\<close>

text \<open>The steps a step depends on, read off the request.\<close>

definition dep_set :: "build_step list \<Rightarrow> nat \<Rightarrow> nat set" where
  "dep_set ss i =
     (if s_WaitFor (ss ! i) = [] then {..<i}
      else {j. j < i \<and> s_Id (ss ! j) \<in> set (s_WaitFor (ss ! i))})"

lemma idxTranslate_unique:
  assumes "ids_unique ss" "j < length ss" "s_Id (ss ! j) \<noteq> []"
  shows "idxTranslate ss (s_Id (ss ! j)) = Some j"
proof -
  let ?l = "filter (\<lambda>(d, _). d \<noteq> []) (zip (map s_Id ss) [0..<length ss])"
  have l: "map fst ?l = filter (\<lambda>d. d \<noteq> []) (map s_Id ss)"
  proof -
    have "map fst (filter (\<lambda>(d, _). d \<noteq> []) (zip xs ys)) = filter (\<lambda>d. d \<noteq> []) xs"
      if "length xs = length ys" for xs :: "string list" and ys :: "nat list"
      using that by (induction xs ys rule: list_induct2) auto
    then show ?thesis by simp
  qed
  have "distinct (filter (\<lambda>d. d \<noteq> []) (map s_Id (take n ss)))" if "n \<le> length ss" for n
    using that
  proof (induction n)
    case (Suc n)
    then have t: "take (Suc n) ss = take n ss @ [ss ! n]" by (simp add: take_Suc_conv_app_nth)
    have "s_Id (ss ! n) \<notin> s_Id ` set (take n ss)" if "s_Id (ss ! n) \<noteq> []"
    proof
      assume "s_Id (ss ! n) \<in> s_Id ` set (take n ss)"
      then obtain i where "i < n" "s_Id (ss ! i) = s_Id (ss ! n)"
        using Suc.prems by (auto simp: in_set_conv_nth)
      then show False using assms(1) that Suc.prems by (auto simp: ids_unique_def)
    qed
    then show ?case using Suc by (auto simp: t)
  qed simp
  from this [of "length ss"] have d: "distinct (map fst ?l)" by (simp only: l order_refl take_all)
  have "(s_Id (ss ! j), j) \<in> set ?l"
    using assms(2,3) by (auto simp: in_set_zip intro!: exI [of _ j])
  moreover have "map_of (rev ?l) = map_of ?l"
    using d by (intro map_of_inject_set [THEN iffD2]) (simp_all add: rev_map [symmetric])
  ultimately show ?thesis
    using d by (simp only: idxTranslate_def map_of_eq_Some_iff)
qed

lemma dep_chans_ok:
  assumes "\<forall>d\<in>set deps. d = StartStep \<or> (\<exists>j<i. idxTranslate ss d = Some j)"
  shows "\<exists>js. dep_chans ss i deps = Inr js \<and>
     set js = {j. \<exists>d\<in>set deps. d \<noteq> StartStep \<and> idxTranslate ss d = Some j}"
  using assms
proof (induction deps)
  case (Cons d deps)
  then obtain js where js: "dep_chans ss i deps = Inr js"
      "set js = {j. \<exists>d\<in>set deps. d \<noteq> StartStep \<and> idxTranslate ss d = Some j}" by auto
  show ?case
  proof (cases "d = StartStep")
    case False
    then obtain j where "j < i" "idxTranslate ss d = Some j" using Cons.prems by auto
    then show ?thesis using js False by auto
  qed (use js in auto)
qed simp

lemma waitChansForStep_deps:
  assumes "deps_backwards ss" "ids_unique ss" "i < length ss"
  shows "\<exists>ws. waitChansForStep ss i = Inr ws \<and> set ws = dep_set ss i"
proof -
  let ?w = "s_WaitFor (ss ! i)"
  have known: "d = StartStep \<or> (\<exists>j<i. s_Id (ss ! j) = d \<and> idxTranslate ss d = Some j)" if d: "d \<in> set ?w" for d
  proof (cases "d = StartStep")
    case False
    then obtain j where "j < i" "s_Id (ss ! j) = d" "d \<noteq> []"
      using assms(1,3) d by (auto simp: deps_backwards_def)
    then show ?thesis using idxTranslate_unique [OF assms(2), of j] assms(3) by auto
  qed simp
  have no_start: "s_Id (ss ! j) \<noteq> StartStep" if "j < length ss" for j
    using assms(2) that StartStep_not_empty
    by (cases "s_Id (ss ! j) = []") (auto simp: ids_unique_def simp del: StartStep_not_empty)
  have set: "{j. \<exists>d\<in>set ?w. d \<noteq> StartStep \<and> idxTranslate ss d = Some j} = {j. j < i \<and> s_Id (ss ! j) \<in> set ?w}"
    (is "?A = ?B")
  proof (intro set_eqI iffI)
    fix j assume "j \<in> ?A"
    then show "j \<in> ?B" using known by fastforce
  next
    fix j assume "j \<in> ?B"
    then have j: "j < i" "s_Id (ss ! j) \<in> set ?w" by auto
    then have "s_Id (ss ! j) \<noteq> StartStep" using no_start assms(3) by simp
    moreover have "s_Id (ss ! j) \<noteq> []" using assms(1,3) j calculation by (auto simp: deps_backwards_def)
    ultimately show "j \<in> ?A" using idxTranslate_unique [OF assms(2), of j] j assms(3) by auto
  qed
  obtain js where js: "dep_chans ss i ?w = Inr js" "set js = ?B"
    using dep_chans_ok [of ?w i ss] known set by metis
  show ?thesis
  proof (cases "?w = [StartStep]")
    case True
    then have "dep_set ss i = {}" using no_start assms(3) by (auto simp: dep_set_def)
    then show ?thesis using True by (simp add: waitChansForStep_def)
  next
    case False
    then show ?thesis using js by (simp add: waitChansForStep_def dep_set_def atLeast0LessThan)
  qed
qed

section \<open>The invariant\<close>

text \<open>
  What the program counter of step \<open>i\<close> says about its channels and its status: those it has
  passed are closed, and once it has passed all of them they stay closed.
\<close>

definition pc_ok :: "config \<Rightarrow> sched \<Rightarrow> nat \<Rightarrow> bool" where
  "pc_ok cfg s i \<longleftrightarrow>
     (\<exists>ws0. waitChansForStep (cfg_steps cfg) i = Inr ws0 \<and>
        (case gors s ! i of
           Waiting ws \<Rightarrow> statuses s ! i = QUEUED \<and>
             (\<exists>pre. ws0 = pre @ ws \<and> (\<forall>j\<in>set pre. pc_of s j = Some Closed))
         | Gone \<Rightarrow> statuses s ! i \<noteq> SUCCESS \<and> sctx s \<noteq> None
         | Closed \<Rightarrow> statuses s ! i = SUCCESS \<and> (\<forall>j\<in>set ws0. pc_of s j = Some Closed)
         | SendLocked e \<Rightarrow> statuses s ! i = WORKING \<and> mu_held s \<and> (\<forall>j\<in>set ws0. pc_of s j = Some Closed)
         | Sending e \<Rightarrow> statuses s ! i \<notin> {SUCCESS, QUEUED} \<and> (\<forall>j\<in>set ws0. pc_of s j = Some Closed)
         | _ \<Rightarrow> statuses s ! i = WORKING \<and> (\<forall>j\<in>set ws0. pc_of s j = Some Closed)))"

definition main_ok :: "config \<Rightarrow> sched \<Rightarrow> bool" where
  "main_ok cfg s \<longleftrightarrow>
     (case main_at s of
        Spawning k \<Rightarrow> length (gors s) = k
      | Collecting k \<Rightarrow> length (gors s) = length (cfg_steps cfg) \<and> k \<le> length (gors s) \<and>
          (\<forall>j<k. gors s ! j = Closed)
      | Returned r \<Rightarrow> sctx s \<noteq> None \<and>
          (r = None \<longrightarrow> length (gors s) = length (cfg_steps cfg) \<and> (\<forall>j<length (gors s). gors s ! j = Closed)))"

definition sched_inv :: "config \<Rightarrow> sched \<Rightarrow> bool" where
  "sched_inv cfg s \<longleftrightarrow>
     length (statuses s) = length (cfg_steps cfg) \<and> length (gors s) \<le> length (cfg_steps cfg) \<and>
     main_ok cfg s \<and> (\<forall>i<length (gors s). pc_ok cfg s i) \<and>
     (\<forall>i. length (gors s) \<le> i \<longrightarrow> i < length (cfg_steps cfg) \<longrightarrow> statuses s ! i = QUEUED)"

lemma pc_ok_mono:
  assumes "pc_ok cfg s i" "gors s' ! i = gors s ! i" "statuses s' ! i = statuses s ! i"
    "\<And>j. pc_of s j = Some Closed \<Longrightarrow> pc_of s' j = Some Closed"
    "sctx s \<noteq> None \<Longrightarrow> sctx s' \<noteq> None" "mu_held s \<Longrightarrow> mu_held s'"
  shows "pc_ok cfg s' i"
proof -
  from assms(1) obtain ws0 where ws0: "waitChansForStep (cfg_steps cfg) i = Inr ws0"
    and c: "case gors s ! i of
           Waiting ws \<Rightarrow> statuses s ! i = QUEUED \<and>
             (\<exists>pre. ws0 = pre @ ws \<and> (\<forall>j\<in>set pre. pc_of s j = Some Closed))
         | Gone \<Rightarrow> statuses s ! i \<noteq> SUCCESS \<and> sctx s \<noteq> None
         | Closed \<Rightarrow> statuses s ! i = SUCCESS \<and> (\<forall>j\<in>set ws0. pc_of s j = Some Closed)
         | SendLocked e \<Rightarrow> statuses s ! i = WORKING \<and> mu_held s \<and> (\<forall>j\<in>set ws0. pc_of s j = Some Closed)
         | Sending e \<Rightarrow> statuses s ! i \<notin> {SUCCESS, QUEUED} \<and> (\<forall>j\<in>set ws0. pc_of s j = Some Closed)
         | _ \<Rightarrow> statuses s ! i = WORKING \<and> (\<forall>j\<in>set ws0. pc_of s j = Some Closed)"
    unfolding pc_ok_def by blast
  show ?thesis
    unfolding pc_ok_def assms(2,3)
    by (rule exI [of _ ws0]) (use ws0 c assms(4-6) in \<open>cases "gors s ! i"; auto\<close>)
qed

text \<open>A goroutine moves: only its own counter and status change.\<close>

lemma sched_inv_move:
  assumes inv: "sched_inv cfg s" and i: "i < length (gors s)" "gors s ! i \<noteq> Closed"
    and s': "gors s' = (gors s)[i := p]" "statuses s' = (statuses s)[i := st]" "main_at s' = main_at s"
      "sctx s' = sctx s" "mu_held s \<Longrightarrow> mu_held s'"
    and ok: "pc_ok cfg s' i"
  shows "sched_inv cfg s'"
proof -
  have closed: "pc_of s j = Some Closed \<Longrightarrow> pc_of s' j = Some Closed" for j
    using i s' by (auto simp: pc_of_Some nth_list_update)
  have "pc_ok cfg s' j" if j: "j < length (gors s')" for j
  proof (cases "j = i")
    case False
    have "pc_ok cfg s j" using inv j s' by (simp add: sched_inv_def)
    then show ?thesis by (rule pc_ok_mono) (use False s' closed in \<open>auto simp: nth_list_update\<close>)
  qed (use ok in simp)
  moreover have "main_ok cfg s'"
    using inv i s' by (auto simp: sched_inv_def main_ok_def nth_list_update split: main_pc.splits)
  ultimately show ?thesis
    using inv i s' by (auto simp: sched_inv_def nth_list_update)
qed

text \<open>The main goroutine moves: the counters stay.\<close>

lemma sched_inv_main:
  assumes inv: "sched_inv cfg s"
    and s': "gors s' = gors s" "statuses s' = statuses s" "mu_held s' = mu_held s"
      "sctx s \<noteq> None \<Longrightarrow> sctx s' \<noteq> None"
    and ok: "main_ok cfg s'"
  shows "sched_inv cfg s'"
proof -
  have "pc_ok cfg s' i" if "i < length (gors s)" for i
    by (rule pc_ok_mono [of cfg s]) (use inv s' that in \<open>auto simp: sched_inv_def pc_of_Some\<close>)
  then show ?thesis using inv s' ok by (simp add: sched_inv_def)
qed

lemma sched_inv_init: "sched_inv cfg (sched_init cfg)"
  by (simp add: sched_inv_def sched_init_def main_ok_def)

lemma pc_okD:
  assumes "sched_inv cfg s" "i < length (gors s)"
  obtains ws0 where "waitChansForStep (cfg_steps cfg) i = Inr ws0"
    "\<And>ws. gors s ! i = Waiting ws \<Longrightarrow> statuses s ! i = QUEUED \<and> (\<exists>pre. ws0 = pre @ ws \<and> (\<forall>j\<in>set pre. pc_of s j = Some Closed))"
    "(\<forall>ws. gors s ! i \<noteq> Waiting ws) \<Longrightarrow> gors s ! i \<noteq> Gone \<Longrightarrow> \<forall>j\<in>set ws0. pc_of s j = Some Closed"
proof -
  have "pc_ok cfg s i" using assms by (simp add: sched_inv_def)
  then obtain ws0 where "waitChansForStep (cfg_steps cfg) i = Inr ws0" and c: "case gors s ! i of
           Waiting ws \<Rightarrow> statuses s ! i = QUEUED \<and>
             (\<exists>pre. ws0 = pre @ ws \<and> (\<forall>j\<in>set pre. pc_of s j = Some Closed))
         | Gone \<Rightarrow> statuses s ! i \<noteq> SUCCESS \<and> sctx s \<noteq> None
         | Closed \<Rightarrow> statuses s ! i = SUCCESS \<and> (\<forall>j\<in>set ws0. pc_of s j = Some Closed)
         | SendLocked e \<Rightarrow> statuses s ! i = WORKING \<and> mu_held s \<and> (\<forall>j\<in>set ws0. pc_of s j = Some Closed)
         | Sending e \<Rightarrow> statuses s ! i \<notin> {SUCCESS, QUEUED} \<and> (\<forall>j\<in>set ws0. pc_of s j = Some Closed)
         | _ \<Rightarrow> statuses s ! i = WORKING \<and> (\<forall>j\<in>set ws0. pc_of s j = Some Closed)"
    unfolding pc_ok_def by blast
  then show thesis by (intro that [of ws0]) (auto split: pc.splits)
qed

subsection \<open>Every action preserves it\<close>

lemma return_main_inv:
  assumes "sched_inv cfg s"
    and "r = None \<Longrightarrow> length (gors s) = length (cfg_steps cfg) \<and> (\<forall>j<length (gors s). gors s ! j = Closed)"
  shows "sched_inv cfg (return_main r s)"
  by (rule sched_inv_main [OF assms(1)]) (use assms(2) in \<open>auto simp: main_ok_def split: option.splits\<close>)

lemma return_main_set_pc: "return_main r (set_pc j p s) = set_pc j p (return_main r s)"
  by (simp add: return_main_def set_pc_def)

lemma spawn_inv:
  assumes "sched_inv cfg s" "fire_spawn cfg s = Some s'"
  shows "sched_inv cfg s'"
  using assms(2)
proof (cases rule: fire_spawnE)
  case (bad k e)
  then show ?thesis using return_main_inv [OF assms(1), of "Some e"] by simp
next
  case (go k ws)
  have len: "length (gors s) = k" using assms(1) go(1) by (simp add: sched_inv_def main_ok_def)
  have old: "pc_ok cfg s' i" if "i < k" for i
    by (rule pc_ok_mono [of cfg s])
       (use assms(1) that len go(4) in \<open>auto simp: sched_inv_def pc_of_Some nth_append\<close>)
  have "statuses s ! k = QUEUED" using assms(1) go(2) len by (simp add: sched_inv_def)
  moreover have "gors s' ! k = Waiting ws" using go(4) len by (simp add: nth_append)
  ultimately have "pc_ok cfg s' k" using go(3,4) by (simp add: pc_ok_def)
  then show ?thesis
    using assms(1) go(2,4) len old by (auto simp: sched_inv_def main_ok_def less_Suc_eq)
next
  case (all k)
  then show ?thesis using assms(1)
    by (intro sched_inv_main [OF assms(1)]) (auto simp: sched_inv_def main_ok_def)
qed

lemma receive_inv:
  assumes "sched_inv cfg s" "fire_receive cfg j s = Some s'"
  shows "sched_inv cfg s'"
  using assms(2)
proof (cases rule: fire_receiveE)
  case (1 k e)
  let ?s = "return_main (Some e) s"
  have inv: "sched_inv cfg ?s" by (rule return_main_inv [OF assms(1)]) simp
  have j: "j < length (gors ?s)" "gors ?s ! j \<noteq> Closed" using 1(3,4) by auto
  have "pc_ok cfg s j" using assms(1) 1(3) by (simp add: sched_inv_def)
  then have "\<exists>ws0. waitChansForStep (cfg_steps cfg) j = Inr ws0" "statuses s ! j \<noteq> SUCCESS"
    using 1(4) by (auto simp: pc_ok_def)
  then have ok: "pc_ok cfg (set_pc j Gone ?s) j"
    using 1(3) by (auto simp: pc_ok_def split: option.splits)
  have "statuses (set_pc j Gone ?s) = (statuses ?s)[j := statuses ?s ! j]"
    by (simp only: set_pc_simps list_update_id)
  from sched_inv_move [OF inv j set_pc_simps(2) this set_pc_simps(1,3) _ ok]
  have "sched_inv cfg (set_pc j Gone ?s)" by (simp only: set_pc_simps)
  then show ?thesis using 1(5) by (simp add: return_main_set_pc)
qed

lemma pass_inv:
  assumes "sched_inv cfg s" "fire_pass i s = Some s'"
  shows "sched_inv cfg s'"
  using assms(2)
proof (cases rule: fire_passE)
  case (1 j ws)
  obtain ws0 pre where w: "waitChansForStep (cfg_steps cfg) i = Inr ws0" "statuses s ! i = QUEUED"
      "ws0 = pre @ j # ws" "\<forall>j\<in>set pre. pc_of s j = Some Closed"
    using pc_okD [OF assms(1) 1(1)] 1(2) by metis
  have closed: "pc_of s k = Some Closed \<Longrightarrow> pc_of s' k = Some Closed" for k
    using 1 by (auto simp: pc_of_Some nth_list_update)
  have "pc_of s j = Some Closed" using 1(3,4) by (simp add: pc_of_Some)
  then have "\<forall>k\<in>set (pre @ [j]). pc_of s' k = Some Closed" using w(4) closed by auto
  moreover have "ws0 = (pre @ [j]) @ ws" using w(3) by simp
  ultimately have ok: "pc_ok cfg s' i"
    unfolding pc_ok_def using w(1,2) 1(1,5)
    by (intro exI [of _ ws0] conjI) (simp_all add: exI [of _ "pre @ [j]"])
  show ?thesis
    by (rule sched_inv_move [OF assms(1) 1(1), where p = "Waiting ws" and st = "statuses s ! i"])
       (use 1 ok in auto)
qed

lemma abandon_inv:
  assumes "sched_inv cfg s" "fire_abandon i s = Some s'"
  shows "sched_inv cfg s'"
  using assms(2)
proof (cases rule: fire_abandonE)
  case 1
  have "pc_ok cfg s i" using assms(1) 1(2) by (simp add: sched_inv_def)
  then have "\<exists>ws0. waitChansForStep (cfg_steps cfg) i = Inr ws0" "statuses s ! i \<noteq> SUCCESS"
    using 1(3) by (auto simp: pc_ok_def)
  then have ok: "pc_ok cfg s' i" using 1(1,2,4) by (auto simp: pc_ok_def)
  show ?thesis
    by (rule sched_inv_move [OF assms(1) 1(2), where p = Gone and st = "statuses s ! i"]) (use 1 ok in auto)
qed

text \<open>The actions of a step that has passed all its channels.\<close>

lemma started_move_inv:
  assumes inv: "sched_inv cfg s" and i: "i < length (gors s)" "gors s ! i \<noteq> Closed"
    and all: "(\<forall>ws. gors s ! i \<noteq> Waiting ws) \<and> gors s ! i \<noteq> Gone \<or> gors s ! i = Waiting []"
    and s': "gors s' = (gors s)[i := p]" "statuses s' = (statuses s)[i := st]" "main_at s' = main_at s"
      "sctx s' = sctx s" "mu_held s \<Longrightarrow> mu_held s'"
    and p: "p \<in> {Fetching, Running} \<and> st = WORKING \<or> p = Closed \<and> st = SUCCESS \<or>
      (\<exists>e. p = Sending e \<and> st \<notin> {SUCCESS, QUEUED}) \<or> (\<exists>e. p = SendLocked e \<and> st = WORKING \<and> mu_held s')"
  shows "sched_inv cfg s'"
proof -
  obtain ws0 where w: "waitChansForStep (cfg_steps cfg) i = Inr ws0" "\<forall>j\<in>set ws0. pc_of s j = Some Closed"
    using pc_okD [OF inv i(1)] all by (metis append_Nil2)
  have "pc_of s j = Some Closed \<Longrightarrow> pc_of s' j = Some Closed" for j
    using i s' by (auto simp: pc_of_Some nth_list_update)
  then have closed: "\<forall>j\<in>set ws0. pc_of s' j = Some Closed" using w(2) by blast
  have at: "gors s' ! i = p" "statuses s' ! i = st"
    using i s' inv by (simp_all add: sched_inv_def)
  have "pc_ok cfg s' i"
    unfolding pc_ok_def at using w(1) closed p by (intro exI [of _ ws0]) (elim disjE exE conjE; auto)
  then show ?thesis by (intro sched_inv_move [OF inv i s'(1-4)]) (use s'(5) in auto)
qed

lemma begin_inv:
  assumes "sched_inv cfg s" "fire_begin cfg i s = Some s'"
  shows "sched_inv cfg s'"
  using assms(2)
proof (cases rule: fire_beginE)
  case (ok t)
  show ?thesis
    by (rule started_move_inv [OF assms(1) ok(1), where p = Fetching and st = WORKING]) (use ok in auto)
next
  case (bad e)
  show ?thesis
    by (rule started_move_inv [OF assms(1) bad(1), where p = "SendLocked (ErrText ''invalid timeout'')" and st = WORKING])
       (use bad in auto)
qed

lemma working_status:
  "sched_inv cfg s \<Longrightarrow> i < length (gors s) \<Longrightarrow> gors s ! i \<in> {Fetching, Running} \<Longrightarrow> statuses s ! i = WORKING"
  by (auto simp: sched_inv_def pc_ok_def)

lemma fetched_inv:
  assumes "sched_inv cfg s" "fire_fetched i r s = Some s'"
  shows "sched_inv cfg s'"
  using assms(2)
proof (cases rule: fire_fetchedE)
  case 1
  have "statuses s ! i = WORKING" using working_status [OF assms(1) 1(1)] 1(2) by simp
  then have "statuses s' = (statuses s)[i := WORKING]" using 1(4) by (metis list_update_id set_pc_simps(4))
  then show ?thesis
    using 1
    by (intro started_move_inv [OF assms(1) 1(1), where p = "case r of None \<Rightarrow> Running | Some e \<Rightarrow> Sending (step_failed e)"
          and st = WORKING]) (auto split: option.splits)
qed

lemma ran_inv:
  assumes "sched_inv cfg s" "fire_ran cfg i r stepTime s = Some s'"
  shows "sched_inv cfg s'"
  using assms(2)
proof (cases rule: fire_ranE)
  case (1 timeout)
  have "statuses s ! i = WORKING" using working_status [OF assms(1) 1(1)] 1(2) by simp
  then show ?thesis
    using 1
    by (intro started_move_inv [OF assms(1) 1(1), where p = "case r of None \<Rightarrow> Closed | Some e \<Rightarrow> Sending (step_failed e)"
          and st = "status_after timeout stepTime r (statuses s ! i)"])
       (auto simp: status_after_def split: option.splits err.splits)
qed

lemma sched_inv_fire:
  assumes "sched_inv cfg s" "fire cfg a s = Some s'"
  shows "sched_inv cfg s'"
proof (cases a)
  case Spawn
  then show ?thesis using assms spawn_inv by simp
next
  case SeeClosed
  then have "fire_see_closed cfg s = Some s'" using assms(2) by simp
  then show ?thesis
  proof (cases rule: fire_see_closedE)
    case (1 k)
    show ?thesis
      by (rule sched_inv_main [OF assms(1)]) (use assms(1) 1 in \<open>auto simp: sched_inv_def main_ok_def less_Suc_eq\<close>)
  qed
next
  case SeeCtx
  then have "fire_see_ctx cfg s = Some s'" using assms(2) by simp
  then show ?thesis
  proof (cases rule: fire_see_ctxE)
    case (1 k e)
    have "sched_inv cfg (return_main (Some e) s)" by (rule return_main_inv [OF assms(1)]) simp
    then show ?thesis by (simp add: 1)
  qed
next
  case (Receive j)
  then show ?thesis using assms receive_inv by simp
next
  case (Verify found)
  then have "fire_verify cfg found s = Some s'" using assms(2) by simp
  then show ?thesis
  proof (cases rule: fire_verifyE)
    case (1 r)
    have "length (gors s) = length (cfg_steps cfg) \<and> (\<forall>j<length (gors s). gors s ! j = Closed)"
      using assms(1) 1(1) by (simp add: sched_inv_def main_ok_def)
    then have "sched_inv cfg (return_main r s)" by (intro return_main_inv [OF assms(1)]) simp
    then show ?thesis using 1(2) by simp
  qed
next
  case (Interrupt e)
  then have "s' = s\<lparr>sctx := Some e\<rparr>" "sctx s = None" using assms(2) by (auto split: if_splits)
  then show ?thesis
    using assms(1) by (intro sched_inv_main [OF assms(1)]) (auto simp: sched_inv_def main_ok_def split: main_pc.splits)
next
  case (Pass i)
  then show ?thesis using assms pass_inv by simp
next
  case (Abandon i)
  then show ?thesis using assms abandon_inv by simp
next
  case (Begin i)
  then show ?thesis using assms begin_inv by simp
next
  case (Fetched i r)
  then show ?thesis using assms fetched_inv by simp
next
  case (Ran i r t)
  then show ?thesis using assms ran_inv by simp
qed

lemma reachable_inv: "reachable cfg s \<Longrightarrow> sched_inv cfg s"
  by (induction rule: reachable.induct) (auto intro: sched_inv_init sched_inv_fire)

end
