(* ===== verification/Sched_Correct.thy ===== *)
theory Sched_Correct
  imports Build_Sched
begin

text \<open>
  What the scheduler guarantees for a validated build: the order of the steps, what a
  successful return means, absence of deadlock, a bound on the length of every execution,
  and success of every execution in which nothing fails. The proofs rest on the invariant
  of \<open>Build_Sched\<close>.
\<close>

lemma all_less_two: "(\<forall>i<Suc (Suc 0). P i) \<longleftrightarrow> P 0 \<and> P 1"
  by (auto simp: less_Suc_eq)

section \<open>Validated configurations\<close>

definition schedulable :: "config \<Rightarrow> bool" where
  "schedulable cfg \<longleftrightarrow>
     deps_backwards (cfg_steps cfg) \<and> ids_unique (cfg_steps cfg) \<and>
     (\<forall>st\<in>set (cfg_steps cfg). \<exists>t. step_timeout st = Inr t)"

lemma schedulable_deps:
  assumes "schedulable cfg" "i < length (cfg_steps cfg)"
  obtains ws where "waitChansForStep (cfg_steps cfg) i = Inr ws" "set ws = dep_set (cfg_steps cfg) i"
  using assms waitChansForStep_deps unfolding schedulable_def by blast

lemma dep_set_less: "j \<in> dep_set ss i \<Longrightarrow> j < i"
  by (auto simp: dep_set_def split: if_splits)

text \<open>With validated timeouts the lock is free whenever a goroutine is between two moves.\<close>

lemma lock_free:
  assumes "schedulable cfg" "reachable cfg s"
  shows "\<not> mu_held s"
  using assms(2)
proof (induction rule: reachable.induct)
  case reach_init
  show ?case by (simp add: sched_init_def)
next
  case (reach_fire s a s')
  have len: "length (gors s) \<le> length (cfg_steps cfg)"
    using reachable_inv [OF reach_fire.hyps(1)] by (simp add: sched_inv_def)
  show ?case
  proof (cases a)
    case (Begin i)
    then have "fire_begin cfg i s = Some s'" using reach_fire.hyps(2) by simp
    then show ?thesis
    proof (cases rule: fire_beginE)
      case (bad e)
      then have "cfg_steps cfg ! i \<in> set (cfg_steps cfg)" using len by simp
      then show ?thesis using assms(1) bad by (auto simp: schedulable_def)
    qed (use reach_fire.IH in simp)
  qed (use reach_fire in \<open>auto elim!: fire_spawnE fire_see_closedE fire_see_ctxE fire_receiveE fire_verifyE
        fire_passE fire_abandonE fire_fetchedE fire_ranE split: if_splits\<close>)
qed

section \<open>The order of the steps\<close>

lemma closed_stays:
  assumes "fire cfg a s = Some s'" "pc_of s j = Some Closed"
  shows "pc_of s' j = Some Closed"
  using assms
  by (cases a)
     (auto simp: pc_of_Some nth_append nth_list_update elim!: fire_spawnE fire_see_closedE fire_see_ctxE fire_receiveE
        fire_verifyE fire_passE fire_abandonE fire_beginE fire_fetchedE fire_ranE split: if_splits)

text \<open>A status leaves \<open>QUEUED\<close> only by the action \<open>Begin\<close>.\<close>

lemma leaves_queue:
  assumes "sched_inv cfg s" "fire cfg a s = Some s'" "statuses s ! i = QUEUED" "statuses s' ! i \<noteq> QUEUED"
  shows "a = Begin i \<and> i < length (gors s) \<and> gors s ! i = Waiting []"
proof (cases a)
  case (Begin j)
  then have "fire_begin cfg j s = Some s'" using assms(2) by simp
  then show ?thesis
  proof (cases rule: fire_beginE)
    case (ok t)
    then show ?thesis using assms(3,4) Begin by (cases "i = j") simp_all
  next
    case (bad e)
    then show ?thesis using assms(3,4) Begin by (cases "i = j") simp_all
  qed
next
  case (Ran j r t)
  then have "fire_ran cfg j r t s = Some s'" using assms(2) by simp
  then show ?thesis
  proof (cases rule: fire_ranE)
    case (1 timeout)
    have "statuses s ! j = WORKING" using working_status [OF assms(1) 1(1)] 1(2) by simp
    then show ?thesis using assms(3,4) 1(4) by (cases "i = j") auto
  qed
qed (use assms in \<open>auto elim!: fire_spawnE fire_see_closedE fire_see_ctxE fire_receiveE
        fire_verifyE fire_passE fire_abandonE fire_fetchedE split: if_splits\<close>)

lemma started_deps_closed:
  assumes "schedulable cfg" "reachable cfg s" "i < length (cfg_steps cfg)" "statuses s ! i \<noteq> QUEUED"
  shows "\<forall>j\<in>dep_set (cfg_steps cfg) i. pc_of s j = Some Closed"
  using assms(2,4)
proof (induction rule: reachable.induct)
  case reach_init
  then show ?case using assms(3) by (simp add: sched_init_def)
next
  case (reach_fire s a s')
  note inv = reachable_inv [OF reach_fire.hyps(1)]
  have "\<forall>j\<in>dep_set (cfg_steps cfg) i. pc_of s j = Some Closed"
  proof (cases "statuses s ! i = QUEUED")
    case True
    then have b: "i < length (gors s)" "gors s ! i = Waiting []"
      using leaves_queue [OF inv reach_fire.hyps(2)] reach_fire.prems by auto
    obtain ws where ws: "waitChansForStep (cfg_steps cfg) i = Inr ws" "set ws = dep_set (cfg_steps cfg) i"
      using schedulable_deps [OF assms(1,3)] .
    show ?thesis using pc_okD [OF inv b(1)] b(2) ws by (metis Inr_inject append_Nil2)
  qed (use reach_fire.IH in simp)
  then show ?case using closed_stays [OF reach_fire.hyps(2)] by blast
qed

lemma closed_success:
  assumes "sched_inv cfg s" "pc_of s j = Some Closed"
  shows "statuses s ! j = SUCCESS"
  using assms by (auto simp: sched_inv_def pc_ok_def pc_of_Some)

section \<open>Termination\<close>

definition pc_weight :: "pc \<Rightarrow> nat" where
  "pc_weight p =
     (case p of
        Waiting ws \<Rightarrow> 5 + length ws
      | Fetching \<Rightarrow> 4
      | Running \<Rightarrow> 3
      | Sending e \<Rightarrow> 2
      | SendLocked e \<Rightarrow> 2
      | Closed \<Rightarrow> 1
      | Gone \<Rightarrow> 1)"

definition spawn_weight :: "config \<Rightarrow> nat \<Rightarrow> nat" where
  "spawn_weight cfg k = (case waitChansForStep (cfg_steps cfg) k of Inl e \<Rightarrow> 0 | Inr ws \<Rightarrow> 6 + length ws)"

definition main_weight :: "config \<Rightarrow> main_pc \<Rightarrow> nat" where
  "main_weight cfg p =
     (case p of
        Spawning k \<Rightarrow> length (cfg_steps cfg) + 2 + sum_list (map (spawn_weight cfg) [k..<length (cfg_steps cfg)])
      | Collecting k \<Rightarrow> length (cfg_steps cfg) - k + 1
      | Returned r \<Rightarrow> 0)"

definition sched_weight :: "config \<Rightarrow> sched \<Rightarrow> nat" where
  "sched_weight cfg s =
     main_weight cfg (main_at s) + sum_list (map pc_weight (gors s)) + (if sctx s = None then 1 else 0)"

lemma weight_set_pc:
  assumes "i < length (gors s)" "pc_weight p < pc_weight (gors s ! i)"
  shows "sum_list (map pc_weight ((gors s)[i := p])) < sum_list (map pc_weight (gors s))"
proof -
  have "sum_list (map pc_weight (gors s)) \<ge> pc_weight (gors s ! i)"
    using assms(1) by (intro member_le_sum_list) simp_all
  then show ?thesis
    using assms by (simp add: map_update sum_list_update)
qed

lemma fire_decreases:
  assumes "fire cfg a s = Some s'"
  shows "sched_weight cfg s' < sched_weight cfg s"
proof (cases a)
  case Spawn
  then have "fire_spawn cfg s = Some s'" using assms by simp
  then show ?thesis
    by (cases rule: fire_spawnE)
       (auto simp: sched_weight_def main_weight_def spawn_weight_def pc_weight_def upt_conv_Cons split: option.splits)
next
  case (Receive j)
  then have "fire_receive cfg j s = Some s'" using assms by simp
  then show ?thesis
  proof (cases rule: fire_receiveE)
    case (1 k e)
    have "sum_list (map pc_weight ((gors s)[j := Gone])) < sum_list (map pc_weight (gors s))"
      using 1(3,4) by (intro weight_set_pc) (auto simp: pc_weight_def)
    then show ?thesis using 1 by (auto simp: sched_weight_def main_weight_def split: option.splits)
  qed
next
  case (Pass i)
  then have "fire_pass i s = Some s'" using assms by simp
  then show ?thesis
    by (cases rule: fire_passE) (use weight_set_pc [of i s] in \<open>simp add: sched_weight_def pc_weight_def\<close>)
next
  case (Abandon i)
  then have "fire_abandon i s = Some s'" using assms by simp
  then show ?thesis
    by (cases rule: fire_abandonE) (use weight_set_pc [of i s Gone] in \<open>auto simp: sched_weight_def pc_weight_def\<close>)
next
  case (Begin i)
  then have "fire_begin cfg i s = Some s'" using assms by simp
  then show ?thesis
    by (cases rule: fire_beginE) (use weight_set_pc [of i s] in \<open>simp_all add: sched_weight_def pc_weight_def\<close>)
next
  case (Fetched i r)
  then have "fire_fetched i r s = Some s'" using assms by simp
  then show ?thesis
    by (cases rule: fire_fetchedE)
       (use weight_set_pc [of i s "case r of None \<Rightarrow> Running | Some e \<Rightarrow> Sending (step_failed e)"]
          in \<open>auto simp: sched_weight_def pc_weight_def split: option.splits\<close>)
next
  case (Ran i r t)
  then have "fire_ran cfg i r t s = Some s'" using assms by simp
  then show ?thesis
    by (cases rule: fire_ranE)
       (use weight_set_pc [of i s "case r of None \<Rightarrow> Closed | Some e \<Rightarrow> Sending (step_failed e)"]
          in \<open>auto simp: sched_weight_def pc_weight_def split: option.splits\<close>)
next
  case SeeClosed
  then show ?thesis using assms by (auto simp: sched_weight_def main_weight_def elim!: fire_see_closedE)
next
  case SeeCtx
  then show ?thesis using assms by (auto simp: sched_weight_def main_weight_def elim!: fire_see_ctxE split: option.splits)
next
  case (Verify found)
  then show ?thesis using assms by (auto simp: sched_weight_def main_weight_def elim!: fire_verifyE split: option.splits)
next
  case (Interrupt e)
  then show ?thesis using assms by (auto simp: sched_weight_def split: if_splits)
qed

lemma fires_decreases: "fires cfg as s = Some s' \<Longrightarrow> length as + sched_weight cfg s' \<le> sched_weight cfg s"
proof (induction as arbitrary: s)
  case (Cons a as)
  then obtain t where t: "fire cfg a s = Some t" "fires cfg as t = Some s'" by (auto split: option.splits)
  show ?case using Cons.IH [OF t(2)] fire_decreases [OF t(1)] by simp
qed simp

section \<open>Progress\<close>

text \<open>
  Final states: the main goroutine has returned and so has every other. A benign action is
  one in which nothing fails from outside: no interrupt, every image fetched, every
  container successful, every image found.
\<close>

definition final :: "sched \<Rightarrow> bool" where
  "final s \<longleftrightarrow> (\<exists>r. main_at s = Returned r) \<and> set (gors s) \<subseteq> {Closed, Gone}"

fun benign :: "config \<Rightarrow> action \<Rightarrow> bool" where
  "benign cfg (Interrupt e) = False"
| "benign cfg (Fetched i r) = (r = None)"
| "benign cfg (Ran i r t) = (r = None)"
| "benign cfg (Verify found) = (set (cfg_images cfg) \<subseteq> set found)"
| "benign cfg _ = True"

definition can_move :: "config \<Rightarrow> sched \<Rightarrow> bool" where
  "can_move cfg s \<longleftrightarrow> (\<exists>a s'. benign cfg a \<and> fire cfg a s = Some s')"

lemma can_moveI: "benign cfg a \<Longrightarrow> fire cfg a s \<noteq> None \<Longrightarrow> can_move cfg s"
  by (auto simp: can_move_def)

text \<open>A goroutine that is not waiting for another one can move by itself.\<close>

lemma busy_moves:
  assumes "schedulable cfg" "sched_inv cfg s" "\<not> mu_held s" "i < length (gors s)"
    "gors s ! i \<in> {Waiting [], Fetching, Running}"
  shows "can_move cfg s"
proof -
  have "cfg_steps cfg ! i \<in> set (cfg_steps cfg)"
    using assms(2,4) by (simp add: sched_inv_def)
  then obtain t where t: "step_timeout (cfg_steps cfg ! i) = Inr t"
    using assms(1) by (auto simp: schedulable_def)
  consider (w) "gors s ! i = Waiting []" | (f) "gors s ! i = Fetching" | (r) "gors s ! i = Running"
    using assms(5) by blast
  then show ?thesis
  proof cases
    case w
    then show ?thesis using assms(3,4) t by (intro can_moveI [of _ "Begin i"]) (simp_all add: fire_begin_def pc_of_def)
  next
    case f
    then show ?thesis using assms(3,4) by (intro can_moveI [of _ "Fetched i None"]) (simp_all add: fire_fetched_def pc_of_def)
  next
    case r
    then show ?thesis using assms(3,4) by (intro can_moveI [of _ "Ran i None 0"]) (simp_all add: fire_ran_def pc_of_def)
  qed
qed

text \<open>The first step that is not done waits only for steps before it.\<close>

lemma first_open_moves:
  assumes "schedulable cfg" "sched_inv cfg s" "\<not> mu_held s"
    and i: "i < length (gors s)" "\<forall>j<i. gors s ! j = Closed" "\<exists>ws. gors s ! i = Waiting ws"
  shows "can_move cfg s"
proof -
  obtain ws where ws: "gors s ! i = Waiting ws" using i(3) by blast
  show ?thesis
  proof (cases ws)
    case Nil
    then show ?thesis using busy_moves [OF assms(1-3) i(1)] ws by simp
  next
    case (Cons j rest)
    have n: "i < length (cfg_steps cfg)" using assms(2) i(1) by (simp add: sched_inv_def)
    obtain ws0 pre where w: "waitChansForStep (cfg_steps cfg) i = Inr ws0" "ws0 = pre @ ws"
      using pc_okD [OF assms(2) i(1)] ws by metis
    then have "set ws0 = dep_set (cfg_steps cfg) i"
      using schedulable_deps [OF assms(1) n] by (metis Inr_inject)
    then have "j < i" using w(2) Cons dep_set_less by fastforce
    then have "gors s ! j = Closed" "j < length (gors s)" using i(1,2) by auto
    then show ?thesis using ws Cons i(1)
      by (intro can_moveI [of _ "Pass i"]) (simp_all add: fire_pass_def pc_of_def)
  qed
qed

lemma collecting_moves:
  assumes "schedulable cfg" "sched_inv cfg s" "\<not> mu_held s" "main_at s = Collecting k"
  shows "can_move cfg s"
proof (cases "k < length (cfg_steps cfg)")
  case False
  then have "k = length (cfg_steps cfg)" using assms(2,4) by (simp add: sched_inv_def main_ok_def)
  then show ?thesis using assms(4)
    by (intro can_moveI [of _ "Verify (cfg_images cfg)"]) (simp_all add: fire_verify_def Let_def)
next
  case k: True
  have all: "length (gors s) = length (cfg_steps cfg)" "\<forall>j<k. gors s ! j = Closed"
    using assms(2,4) by (simp_all add: sched_inv_def main_ok_def)
  show ?thesis
  proof (cases "gors s ! k")
    case (Waiting ws)
    then show ?thesis using first_open_moves [OF assms(1-3), of k] all k by simp
  next
    case (Sending e)
    then show ?thesis using assms(4) all k
      by (intro can_moveI [of _ "Receive k"]) (simp_all add: fire_receive_def pc_of_def)
  next
    case (SendLocked e)
    then show ?thesis using assms(4) all k
      by (intro can_moveI [of _ "Receive k"]) (simp_all add: fire_receive_def pc_of_def)
  next
    case Closed
    then show ?thesis using assms(4) all k
      by (intro can_moveI [of _ SeeClosed]) (simp_all add: fire_see_closed_def pc_of_def)
  next
    case Gone
    have "pc_ok cfg s k" using assms(2) all k by (simp add: sched_inv_def)
    then obtain e where "sctx s = Some e" using Gone by (auto simp: pc_ok_def)
    then show ?thesis using assms(4) k by (intro can_moveI [of _ SeeCtx]) (simp_all add: fire_see_ctx_def)
  qed (use busy_moves [OF assms(1-3), of k] all k in simp_all)
qed

lemma returned_moves:
  assumes "schedulable cfg" "sched_inv cfg s" "\<not> mu_held s" "main_at s = Returned r" "\<not> final s"
  shows "can_move cfg s"
proof -
  obtain i where i: "i < length (gors s)" "gors s ! i \<noteq> Closed" "gors s ! i \<noteq> Gone"
    using assms(4,5) unfolding final_def subset_iff in_set_conv_nth by fastforce
  have ctx: "sctx s \<noteq> None" using assms(2,4) by (simp add: sched_inv_def main_ok_def)
  have "pc_ok cfg s i" using assms(2) i(1) by (simp add: sched_inv_def)
  then have no_lock: "gors s ! i \<noteq> SendLocked e" for e using assms(3) by (auto simp: pc_ok_def)
  show ?thesis
  proof (cases "gors s ! i \<in> {Waiting [], Fetching, Running}")
    case True
    then show ?thesis using busy_moves [OF assms(1-3) i(1)] by simp
  next
    case False
    then have "(\<exists>j ws. gors s ! i = Waiting (j # ws)) \<or> (\<exists>e. gors s ! i = Sending e)"
      using i no_lock by (cases "gors s ! i") (auto simp: neq_Nil_conv)
    then show ?thesis using ctx i(1)
      by (intro can_moveI [of _ "Abandon i"]) (auto simp: fire_abandon_def pc_of_def)
  qed
qed

lemma progress:
  assumes "schedulable cfg" "reachable cfg s" "\<not> final s"
  shows "can_move cfg s"
proof -
  note inv = reachable_inv [OF assms(2)] and free = lock_free [OF assms(1,2)]
  show ?thesis
  proof (cases "main_at s")
    case (Spawning k)
    then show ?thesis
      by (intro can_moveI [of _ Spawn]) (auto simp: fire_spawn_def split: sum.splits)
  next
    case (Collecting k)
    then show ?thesis using collecting_moves [OF assms(1) inv free] by simp
  next
    case (Returned r)
    then show ?thesis using returned_moves [OF assms(1) inv free _ assms(3)] by simp
  qed
qed

lemma final_stuck:
  assumes "sched_inv cfg s" "final s"
  shows "fire cfg a s = None"
proof -
  obtain r where r: "main_at s = Returned r" using assms(2) by (auto simp: final_def)
  have ctx: "sctx s \<noteq> None" using assms(1) r by (simp add: sched_inv_def main_ok_def)
  have pc: "p = Closed \<or> p = Gone" if "pc_of s i = Some p" for i p
    using assms(2) that nth_mem [of i "gors s"] by (auto simp: pc_of_Some final_def)
  show ?thesis
    by (cases a) (use r ctx pc in \<open>auto simp: fire_spawn_def fire_see_closed_def fire_see_ctx_def fire_receive_def
        fire_verify_def fire_pass_def fire_abandon_def fire_begin_def fire_fetched_def fire_ran_def
        split: option.splits pc.splits list.splits\<close>)
qed

text \<open>From every reachable state the scheduler can come to rest, whatever happened before.\<close>

lemma comes_to_rest:
  assumes "schedulable cfg" "reachable cfg s"
  shows "\<exists>as s'. (\<forall>a\<in>set as. benign cfg a) \<and> fires cfg as s = Some s' \<and> final s'"
  using assms(2)
proof (induction "sched_weight cfg s" arbitrary: s rule: less_induct)
  case less
  show ?case
  proof (cases "final s")
    case True
    then show ?thesis by (intro exI [of _ "[]"] exI [of _ s]) simp
  next
    case False
    then obtain a t where a: "benign cfg a" "fire cfg a s = Some t"
      using progress [OF assms(1) less.prems] by (auto simp: can_move_def)
    obtain as s' where as: "\<forall>a\<in>set as. benign cfg a" "fires cfg as t = Some s'" "final s'"
      using less.hyps [OF fire_decreases [OF a(2)] reach_fire [OF less.prems a(2)]] by blast
    have "(\<forall>x\<in>set (a # as). benign cfg x) \<and> fires cfg (a # as) s = Some s'" using a as by simp
    then show ?thesis using as(3) by blast
  qed
qed

section \<open>Executions in which nothing fails\<close>

definition calm :: "sched \<Rightarrow> bool" where
  "calm s \<longleftrightarrow>
     (\<forall>i<length (gors s). gors s ! i \<in> {Fetching, Running, Closed} \<or> (\<exists>ws. gors s ! i = Waiting ws)) \<and>
     (sctx s \<noteq> None \<longrightarrow> main_at s = Returned None) \<and> (\<forall>e. main_at s \<noteq> Returned (Some e))"

lemma calm_set_pc:
  assumes "calm s" "i < length (gors s)" "p \<in> {Fetching, Running, Closed} \<or> (\<exists>ws. p = Waiting ws)"
  shows "calm (set_pc i p s)" "calm (set_pc i p (set_status i st s))"
  using assms by (auto simp: calm_def nth_list_update)

lemma benign_calm:
  assumes "schedulable cfg" "reachable cfg s" "calm s" "benign cfg a" "fire cfg a s = Some s'"
  shows "calm s'"
proof (cases a)
  case Spawn
  then have f: "fire_spawn cfg s = Some s'" using assms(5) by simp
  then show ?thesis
  proof (cases rule: fire_spawnE)
    case (bad k e)
    then show ?thesis using schedulable_deps [OF assms(1) bad(2)] by auto
  qed (use assms(3) in \<open>auto simp: calm_def nth_append\<close>)
next
  case (Receive j)
  then have f: "fire_receive cfg j s = Some s'" using assms(5) by simp
  then show ?thesis by (cases rule: fire_receiveE) (use assms(3) in \<open>auto simp: calm_def\<close>)
next
  case (Pass i)
  then have f: "fire_pass i s = Some s'" using assms(5) by simp
  then show ?thesis by (cases rule: fire_passE) (use assms(3) calm_set_pc in auto)
next
  case (Abandon i)
  then have f: "fire_abandon i s = Some s'" using assms(5) by simp
  then show ?thesis
  proof (cases rule: fire_abandonE)
    case 1
    then have "main_at s = Returned None" using assms(3) by (simp add: calm_def)
    then have "gors s ! i = Closed"
      using reachable_inv [OF assms(2)] 1(2) by (simp add: sched_inv_def main_ok_def)
    then show ?thesis using 1(3) by auto
  qed
next
  case (Begin i)
  then have f: "fire_begin cfg i s = Some s'" using assms(5) by simp
  then show ?thesis
  proof (cases rule: fire_beginE)
    case (bad e)
    then have "cfg_steps cfg ! i \<in> set (cfg_steps cfg)"
      using reachable_inv [OF assms(2)] by (simp add: sched_inv_def)
    then show ?thesis using assms(1) bad by (auto simp: schedulable_def)
  qed (use assms(3) calm_set_pc in auto)
next
  case (Fetched i r)
  then have f: "fire_fetched i None s = Some s'" using assms(4,5) by simp
  then show ?thesis by (cases rule: fire_fetchedE) (use assms(3) calm_set_pc in auto)
next
  case (Ran i r t)
  then have f: "fire_ran cfg i None t s = Some s'" using assms(4,5) by simp
  then show ?thesis by (cases rule: fire_ranE) (use assms(3) calm_set_pc in auto)
next
  case (Verify found)
  then have f: "fire_verify cfg found s = Some s'" using assms(5) by simp
  then show ?thesis
    by (cases rule: fire_verifyE) (use assms(3,4) Verify in \<open>auto simp: calm_def split: option.splits\<close>)
qed (use assms in \<open>auto simp: calm_def elim!: fire_see_closedE fire_see_ctxE\<close>)

lemma benign_run_calm:
  assumes "schedulable cfg"
  shows "reachable cfg s \<Longrightarrow> calm s \<Longrightarrow> \<forall>a\<in>set as. benign cfg a \<Longrightarrow> fires cfg as s = Some s' \<Longrightarrow>
     calm s' \<and> reachable cfg s'"
proof (induction as arbitrary: s)
  case (Cons a as)
  then obtain t where t: "fire cfg a s = Some t" "fires cfg as t = Some s'" by (auto split: option.splits)
  have "calm t" using benign_calm [OF assms Cons.prems(1,2) _ t(1)] Cons.prems(3) by simp
  then show ?case using Cons.IH [OF reach_fire [OF Cons.prems(1) t(1)]] t(2) Cons.prems(3) by simp
qed simp

lemma calm_init: "calm (sched_init cfg)"
  by (simp add: calm_def sched_init_def)

lemma scheduler_bounded:
  assumes "schedulable cfg" "fires cfg as (sched_init cfg) = Some s"
  shows "length as \<le> 3 + length (cfg_steps cfg) + sum_list (map (spawn_weight cfg) [0..<length (cfg_steps cfg)]) \<and>
    ((\<forall>a. fire cfg a s = None) \<longleftrightarrow> final s)"
proof
  have "sched_weight cfg (sched_init cfg) =
      3 + length (cfg_steps cfg) + sum_list (map (spawn_weight cfg) [0..<length (cfg_steps cfg)])"
    by (simp add: sched_weight_def sched_init_def main_weight_def)
  then show "length as \<le> 3 + length (cfg_steps cfg) + sum_list (map (spawn_weight cfg) [0..<length (cfg_steps cfg)])"
    using fires_decreases [OF assms(2)] by simp
  have reach: "reachable cfg s" by (rule fires_reachable [OF reach_init assms(2)])
  have "\<not> final s \<Longrightarrow> \<exists>a. fire cfg a s \<noteq> None"
    using progress [OF assms(1) reach] by (auto simp: can_move_def)
  then show "(\<forall>a. fire cfg a s = None) \<longleftrightarrow> final s"
    using final_stuck [OF reachable_inv [OF reach]] by metis
qed

section \<open>Properties\<close>

text \<open>A build of two steps, the second of which waits for the first.\<close>

definition two_steps :: config where
  "two_steps = \<lparr>cfg_steps = [empty_step\<lparr>s_Id := ''a''\<rparr>, empty_step\<lparr>s_WaitFor := [''a'']\<rparr>], cfg_images = []\<rparr>"

definition good_run :: "action list" where
  "good_run = [Spawn, Spawn, Spawn, Begin 0, Fetched 0 None, Ran 0 None 7, Pass 1, SeeClosed,
     Begin 1, Fetched 1 None, Ran 1 None 9, SeeClosed, Verify []]"

lemma two_steps_schedulable: "schedulable two_steps"
  by (simp add: schedulable_def two_steps_def deps_backwards_def ids_unique_def step_timeout_def empty_step_def
      StartStep_def all_less_two)

text \<open>
  The order of the steps. In every reachable state of a validated build, a step that
  has left the queue depends only on steps that have finished with success; in particular
  no container of a step is fetched or run before those of its dependencies have succeeded,
  whatever the interleaving of the goroutines.
\<close>

theorem step_order:
  assumes "schedulable cfg" "reachable cfg s"
    and "i < length (cfg_steps cfg)" "statuses s ! i \<noteq> QUEUED" "j \<in> dep_set (cfg_steps cfg) i"
  shows "statuses s ! j = SUCCESS"
  using started_deps_closed [OF assms(1-4)] assms(5) closed_success [OF reachable_inv [OF assms(2)]] by blast

theorem step_order_witness:
  "\<exists>s. fires two_steps (take 9 good_run) (sched_init two_steps) = Some s \<and>
     statuses s ! 1 = WORKING \<and> statuses s ! 0 = SUCCESS"
proof -
  have "map_option (\<lambda>s. statuses s ! 1) (fires two_steps (take 9 good_run) (sched_init two_steps)) = Some WORKING"
    by code_simp
  then obtain s where s: "fires two_steps (take 9 good_run) (sched_init two_steps) = Some s" "statuses s ! 1 = WORKING"
    by auto
  have "reachable two_steps s" by (rule fires_reachable [OF reach_init s(1)])
  then have "statuses s ! 0 = SUCCESS"
    by (rule step_order [OF two_steps_schedulable, where i = 1])
       (use s in \<open>simp_all add: two_steps_def dep_set_def empty_step_def\<close>)
  with s show ?thesis by blast
qed

text \<open>
  C35: A build in which no step names a dependency runs its steps one after another: no two
  steps are at work at the same time.
\<close>

theorem sequential_without_waits:
  assumes "schedulable cfg" "reachable cfg s" "\<forall>st\<in>set (cfg_steps cfg). s_WaitFor st = []"
    and "i < length (cfg_steps cfg)" "j < length (cfg_steps cfg)" "statuses s ! i = WORKING" "statuses s ! j = WORKING"
  shows "i = j"
proof (rule ccontr)
  have dep: "dep_set (cfg_steps cfg) k = {..<k}" if "k < length (cfg_steps cfg)" for k
    using assms(3) that by (simp add: dep_set_def)
  have before: "statuses s ! l = SUCCESS" if "l < k" "k < length (cfg_steps cfg)" "statuses s ! k = WORKING" for l k
    using started_deps_closed [OF assms(1,2) that(2)] that dep closed_success [OF reachable_inv [OF assms(2)]] by simp
  assume "i \<noteq> j"
  then show False using before [of i j] before [of j i] assms(4-7) by (cases i j rule: linorder_cases) simp_all
qed

theorem sequential_without_waits_witness:
  "\<exists>s. fires \<lparr>cfg_steps = [empty_step, empty_step], cfg_images = []\<rparr> [Spawn, Spawn, Begin 0]
       (sched_init \<lparr>cfg_steps = [empty_step, empty_step], cfg_images = []\<rparr>) = Some s \<and>
     statuses s ! 0 = WORKING \<and> statuses s ! 1 \<noteq> WORKING"
proof -
  let ?cfg = "\<lparr>cfg_steps = [empty_step, empty_step], cfg_images = []\<rparr>"
  have "map_option (\<lambda>s. statuses s ! 0) (fires ?cfg [Spawn, Spawn, Begin 0] (sched_init ?cfg)) = Some WORKING"
    by code_simp
  then obtain s where s: "fires ?cfg [Spawn, Spawn, Begin 0] (sched_init ?cfg) = Some s" "statuses s ! 0 = WORKING"
    by auto
  have ok: "schedulable ?cfg"
    by (simp add: schedulable_def deps_backwards_def ids_unique_def step_timeout_def empty_step_def all_less_two)
  have "reachable ?cfg s" by (rule fires_reachable [OF reach_init s(1)])
  then have "statuses s ! 1 = WORKING \<Longrightarrow> (0::nat) = 1"
    by (intro sequential_without_waits [OF ok]) (use s in \<open>simp_all add: empty_step_def\<close>)
  with s show ?thesis by auto
qed



text \<open>
  C3: Termination without deadlock. Every execution of the scheduler on a validated build
  is finite, with a bound computed from the steps and their dependencies, and an execution
  that cannot be continued has come to rest: \<open>runBuildSteps\<close> has returned and no goroutine
  is left blocked on a channel or on the lock, even after a failure or a cancellation.
\<close>

theorem scheduler_terminates:
  assumes "schedulable cfg" "fires cfg as (sched_init cfg) = Some s"
  shows "length as \<le> 3 + length (cfg_steps cfg) + sum_list (map (spawn_weight cfg) [0..<length (cfg_steps cfg)]) \<and>
    ((\<forall>a. fire cfg a s = None) \<longleftrightarrow> final s)"
  by (rule scheduler_bounded [OF assms])

theorem scheduler_terminates_witness:
  "\<exists>s. fires two_steps good_run (sched_init two_steps) = Some s \<and> length good_run \<le> 18 \<and>
     fire two_steps (Begin 1) s = None"
proof -
  have "map_option (\<lambda>s. (main_at s, gors s)) (fires two_steps good_run (sched_init two_steps)) =
      Some (Returned None, [Closed, Closed])" by code_simp
  then obtain s where s: "fires two_steps good_run (sched_init two_steps) = Some s" and f: "final s"
    by (auto simp: final_def)
  note t = scheduler_terminates [OF two_steps_schedulable s]
  have bound: "3 + length (cfg_steps two_steps) + sum_list (map (spawn_weight two_steps) [0..<length (cfg_steps two_steps)]) = 18"
    by code_simp
  have "length good_run \<le> 18" using t unfolding bound by (rule conjunct1)
  moreover have "fire two_steps (Begin 1) s = None" using t f by metis
  ultimately show ?thesis using s by blast
qed

text \<open>
  C12: Success. If no step fails, nothing interrupts the build and every image is found,
  then some execution of a validated build comes to rest, and every execution that cannot
  be continued has returned without an error and has run every step with success.
\<close>

theorem benign_build_succeeds:
  assumes "schedulable cfg"
  shows "(\<exists>as s. (\<forall>a\<in>set as. benign cfg a) \<and> fires cfg as (sched_init cfg) = Some s \<and> final s) \<and>
    (\<forall>as s. (\<forall>a\<in>set as. benign cfg a) \<and> fires cfg as (sched_init cfg) = Some s \<and> \<not> can_move cfg s \<longrightarrow>
       main_at s = Returned None \<and> (\<forall>i<length (cfg_steps cfg). statuses s ! i = SUCCESS))"
proof (intro conjI allI impI)
  show "\<exists>as s. (\<forall>a\<in>set as. benign cfg a) \<and> fires cfg as (sched_init cfg) = Some s \<and> final s"
    by (rule comes_to_rest [OF assms reach_init])
  fix as s
  assume run: "(\<forall>a\<in>set as. benign cfg a) \<and> fires cfg as (sched_init cfg) = Some s \<and> \<not> can_move cfg s"
  then have c: "calm s" "reachable cfg s"
    using benign_run_calm [OF assms reach_init calm_init] by blast+
  have "final s" using progress [OF assms c(2)] run by blast
  then show main: "main_at s = Returned None"
    using c(1) by (auto simp: final_def calm_def)
  fix i assume "i < length (cfg_steps cfg)"
  then show "statuses s ! i = SUCCESS"
    using closed_success [OF reachable_inv [OF c(2)], of i] reachable_inv [OF c(2)] main
    by (simp add: sched_inv_def main_ok_def pc_of_def)
qed

theorem benign_build_succeeds_witness:
  "\<exists>s. fires two_steps good_run (sched_init two_steps) = Some s \<and>
     main_at s = Returned None \<and> statuses s ! 1 = SUCCESS"
proof -
  have "map_option (\<lambda>s. (main_at s, gors s)) (fires two_steps good_run (sched_init two_steps)) =
      Some (Returned None, [Closed, Closed])" by code_simp
  then obtain s where s: "fires two_steps good_run (sched_init two_steps) = Some s" and f: "final s"
    by (auto simp: final_def)
  have "\<not> can_move two_steps s"
    using final_stuck [OF reachable_inv [OF fires_reachable [OF reach_init s]] f] by (simp add: can_move_def)
  moreover have "\<forall>a\<in>set good_run. benign two_steps a" by (simp add: good_run_def two_steps_def)
  ultimately have "main_at s = Returned None \<and> (\<forall>i<length (cfg_steps two_steps). statuses s ! i = SUCCESS)"
    using benign_build_succeeds [OF two_steps_schedulable] s by blast
  with s show ?thesis by (auto simp: two_steps_def)
qed

end
