(* ===== verification/Build_Exec.thy ===== *)
theory Build_Exec
  imports Sched_Correct Build_Run
begin

text \<open>
  The steps of a build with what they do (\<open>build/build.go\<close>): the moves of \<open>Build_Sched\<close>
  composed with the operations they stand for. A goroutine that begins a step writes its
  status and times, one that fetches runs \<open>fetchBuilder\<close> and records the digest, one that
  runs calls \<open>runStep\<close> and writes the status, and the main goroutine asks docker for the
  images. An execution is driven by a list of choices, the decisions of the Go scheduler;
  a choice that is not possible is passed over. The state is the one of the scheduler, the
  one of the \<open>Build\<close> and the world.
\<close>

section \<open>The moves\<close>

datatype choice =
  CSpawn
| CSeeClosed
| CSeeCtx
| CReceive nat
| CVerify
| CInterrupt err
| CPass nat
| CAbandon nat
| CBegin nat
| CFetch nat
| CRun nat

record 'w executor =
  x_os :: "'w os"
  x_env :: exec_env
  x_images :: "string list"

definition cfg_of :: "'w executor \<Rightarrow> config" where
  "cfg_of x = \<lparr>cfg_steps = Steps (Request (x_env x)), cfg_images = x_images x\<rparr>"

text \<open>The images of the request that docker does not list.\<close>

fun missing_images :: "'w os \<Rightarrow> string list \<Rightarrow> 'w \<Rightarrow> string list \<times> 'w" where
  "missing_images os [] w = ([], w)"
| "missing_images os (img # imgs) w =
     (case imageIsLocal os img w of
        (here, w) \<Rightarrow>
          (case missing_images os imgs w of
             (missing, w) \<Rightarrow> (if \<not> here then img # missing else missing, w)))"

definition end_span :: "int \<Rightarrow> time_span option \<Rightarrow> time_span option" where
  "end_span t = map_option (\<lambda>sp. sp\<lparr>End_time := Some t\<rparr>)"

definition end_step :: "nat \<Rightarrow> int \<Rightarrow> bld \<Rightarrow> bld" where
  "end_step i t s =
     s\<lparr>Timing := (Timing s)\<lparr>BuildSteps := (BuildSteps (Timing s))[i := end_span t (BuildSteps (Timing s) ! i)]\<rparr>\<rparr>"

definition end_pull :: "nat \<Rightarrow> int \<Rightarrow> bld \<Rightarrow> bld" where
  "end_pull i t s =
     s\<lparr>Timing := (Timing s)\<lparr>BuildStepPulls :=
         (BuildStepPulls (Timing s))[i := end_span t (BuildStepPulls (Timing s) ! i)]\<rparr>\<rparr>"

definition set_step_status :: "nat \<Rightarrow> step_status \<Rightarrow> bld \<Rightarrow> bld" where
  "set_step_status i st s = s\<lparr>stepStatus := (stepStatus s)[i := st]\<rparr>"

text \<open>With an invalid timeout the goroutine gets no further than the status.\<close>

definition begin_step :: "'w executor \<Rightarrow> nat \<Rightarrow> bld \<Rightarrow> 'w \<Rightarrow> bld" where
  "begin_step x i s w =
     (let b = Request (x_env x); s = set_step_status i WORKING s; start = Some \<lparr>Start_time = now_of (x_os x) w, End_time = None\<rparr>
      in case step_timeout (Steps b ! i) of
           Inl e \<Rightarrow> s
         | Inr t \<Rightarrow>
             write_if (HasMultipleSteps b) (''Starting '' @ stepIdentifier b i)
               (s\<lparr>Timing := (Timing s)\<lparr>BuildSteps := (BuildSteps (Timing s))[i := start],
                    BuildStepPulls := (BuildStepPulls (Timing s))[i := start]\<rparr>\<rparr>))"

definition fetch_step :: "'w executor \<Rightarrow> nat \<Rightarrow> bld \<Rightarrow> 'w \<Rightarrow> err option \<times> bld \<times> 'w" where
  "fetch_step x i s w =
     (case fetchBuilder (x_os x) (Request (x_env x)) i s w of
        (r, s, w) \<Rightarrow>
          (let t = now_of (x_os x) w; s = end_pull i t s
           in case r of
                Inl e \<Rightarrow> (Some e, end_step i t (recordStepDigest i [] s), w)
              | Inr d \<Rightarrow> (None, recordStepDigest i d s, w)))"

text \<open>The start of the step is the one that was written when it began.\<close>

definition step_start :: "nat \<Rightarrow> bld \<Rightarrow> int" where
  "step_start i s = (case BuildSteps (Timing s) ! i of Some sp \<Rightarrow> Start_time sp | None \<Rightarrow> 0)"

definition step_limit :: "build \<Rightarrow> nat \<Rightarrow> int" where
  "step_limit b i = (case step_timeout (Steps b ! i) of Inr t \<Rightarrow> t | Inl _ \<Rightarrow> 0)"

definition run_step :: "'w executor \<Rightarrow> nat \<Rightarrow> bld \<Rightarrow> 'w \<Rightarrow> (err option \<times> int) \<times> bld \<times> 'w" where
  "run_step x i s w =
     (let timeout = step_limit (Request (x_env x)) i
      in case runStep (x_os x) (x_env x) timeout i (stepDigests s ! i) s w of
           (r, s, w) \<Rightarrow>
             (let t = now_of (x_os x) w; stepTime = t - step_start i s
              in ((r, stepTime),
                  set_step_status i (status_after timeout stepTime r (stepStatus s ! i)) (end_step i t s), w)))"

section \<open>Executions\<close>

type_synonym 'w exec = "sched \<times> bld \<times> 'w"

text \<open>A move of the scheduler with what has become of the build and the world.\<close>

definition move :: "'w executor \<Rightarrow> action \<Rightarrow> bld \<Rightarrow> 'w \<Rightarrow> 'w exec \<Rightarrow> 'w exec" where
  "move x a s' w' st = (case fire (cfg_of x) a (fst st) of None \<Rightarrow> st | Some sc \<Rightarrow> (sc, s', w'))"

fun exec_choice :: "'w executor \<Rightarrow> choice \<Rightarrow> 'w exec \<Rightarrow> 'w exec" where
  "exec_choice x CSpawn (sc, s, w) = move x Spawn s w (sc, s, w)"
| "exec_choice x CSeeClosed (sc, s, w) = move x SeeClosed s w (sc, s, w)"
| "exec_choice x CSeeCtx (sc, s, w) = move x SeeCtx s w (sc, s, w)"
| "exec_choice x (CReceive j) (sc, s, w) = move x (Receive j) s w (sc, s, w)"
| "exec_choice x (CInterrupt e) (sc, s, w) = move x (Interrupt e) s w (sc, s, w)"
| "exec_choice x (CPass i) (sc, s, w) = move x (Pass i) s w (sc, s, w)"
| "exec_choice x (CAbandon i) (sc, s, w) = move x (Abandon i) s w (sc, s, w)"
| "exec_choice x (CBegin i) (sc, s, w) = move x (Begin i) (begin_step x i s w) w (sc, s, w)"
| "exec_choice x CVerify (sc, s, w) =
     (case missing_images (x_os x) (x_images x) w of
        (missing, w') \<Rightarrow> move x (Verify (filter (\<lambda>i. i \<notin> set missing) (x_images x))) s w' (sc, s, w))"
| "exec_choice x (CFetch i) (sc, s, w) =
     (case fetch_step x i s w of (r, s', w') \<Rightarrow> move x (Fetched i r) s' w' (sc, s, w))"
| "exec_choice x (CRun i) (sc, s, w) =
     (case run_step x i s w of ((r, t), s', w') \<Rightarrow> move x (Ran i r t) s' w' (sc, s, w))"

definition exec_all :: "'w executor \<Rightarrow> choice list \<Rightarrow> 'w exec \<Rightarrow> 'w exec" where
  "exec_all x cs st = fold (exec_choice x) cs st"

text \<open>
  The core of \<open>runBuildSteps\<close>: the choices, and after them the interruption of the build if
  it has not returned by then.
\<close>

definition give_up :: "nat \<Rightarrow> choice list" where
  "give_up n = replicate (Suc n) CSpawn @ [CInterrupt Canceled, CSeeCtx, CVerify]"

definition close_core :: "'w executor \<Rightarrow> 'w exec \<Rightarrow> err option \<times> bld \<times> 'w" where
  "close_core x st =
     (case exec_all x (give_up (length (Steps (Request (x_env x))))) st of
        (sc, s, w) \<Rightarrow> (case main_at sc of Returned r \<Rightarrow> (r, s, w) | _ \<Rightarrow> (Some Canceled, s, w)))"

definition step_core :: "'w executor \<Rightarrow> choice list \<Rightarrow> 'w core" where
  "step_core x cs s w = close_core x (exec_all x cs (sched_init (cfg_of x), s, w))"

section \<open>The scheduler below\<close>

lemma move_cases:
  "move x a s' w' (sc, s, w) = (sc, s, w) \<or>
     (\<exists>sc'. fire (cfg_of x) a sc = Some sc' \<and> move x a s' w' (sc, s, w) = (sc', s', w'))"
  by (auto simp: move_def split: option.split)

text \<open>Every choice is a move of the scheduler or nothing.\<close>

lemma exec_choice_move:
  "\<exists>a s' w'. exec_choice x c (sc, s, w) = move x a s' w' (sc, s, w)"
  by (cases c) (auto split: prod.splits)

lemma exec_choice_fires:
  assumes "exec_choice x c (sc, s, w) = (sc', s', w')"
  shows "(sc', s', w') = (sc, s, w) \<or> (\<exists>a. fire (cfg_of x) a sc = Some sc')"
  using exec_choice_move [of x c sc s w] move_cases assms by (metis prod.inject)

lemma exec_all_simps [simp]:
  "exec_all x [] st = st" "exec_all x (c # cs) st = exec_all x cs (exec_choice x c st)"
  "exec_all x (cs @ ds) st = exec_all x ds (exec_all x cs st)"
  by (simp_all add: exec_all_def)

lemma exec_all_fires:
  "exec_all x cs (sc, s, w) = (sc', s', w') \<Longrightarrow> \<exists>as. fires (cfg_of x) as sc = Some sc'"
proof (induction cs arbitrary: sc s w)
  case Nil
  then show ?case by (intro exI [of _ "[]"]) simp
next
  case (Cons c cs)
  obtain sc1 s1 w1 where c: "exec_choice x c (sc, s, w) = (sc1, s1, w1)" using prod_cases3 by blast
  then obtain as where as: "fires (cfg_of x) as sc1 = Some sc'" using Cons by fastforce
  from exec_choice_fires [OF c] show ?case
  proof
    assume "\<exists>a. fire (cfg_of x) a sc = Some sc1"
    then obtain a where "fire (cfg_of x) a sc = Some sc1" by blast
    then show ?thesis using as by (intro exI [of _ "a # as"]) simp
  qed (use as in auto)
qed

text \<open>What a move writes.\<close>

lemma fetch_step_writes:
  assumes "fetch_step x i s w = (r, s', w')"
  shows "\<exists>d t l. s' = (case r of None \<Rightarrow> recordStepDigest i d (end_pull i t (s\<lparr>main_log := l\<rparr>))
     | Some e \<Rightarrow> end_step i t (recordStepDigest i [] (end_pull i t (s\<lparr>main_log := l\<rparr>))))"
proof -
  obtain q s1 w1 where f: "fetchBuilder (x_os x) (Request (x_env x)) i s w = (q, s1, w1)" using prod_cases3 by blast
  obtain l where "s1 = s\<lparr>main_log := l\<rparr>" using fetchBuilder_writes [OF f] by blast
  then have "s' = (case r of None \<Rightarrow> recordStepDigest i (projr q) (end_pull i (now_of (x_os x) w1) (s\<lparr>main_log := l\<rparr>))
     | Some e \<Rightarrow> end_step i (now_of (x_os x) w1) (recordStepDigest i [] (end_pull i (now_of (x_os x) w1) (s\<lparr>main_log := l\<rparr>))))"
    using assms f by (cases q) (auto simp: fetch_step_def Let_def)
  then show ?thesis by blast
qed

lemma run_step_writes:
  assumes "run_step x i s w = ((r, d), s', w')"
  shows "\<exists>t k outs l. s' = set_step_status i (status_after (step_limit (Request (x_env x)) i) d r (stepStatus s ! i))
       (end_step i t (s\<lparr>Kms := k, stepOutputs := outs, main_log := l\<rparr>)) \<and>
     kms_step (x_env x) s k \<and> step_outputs (x_env x) i (stepOutputs s) outs"
proof -
  obtain q s1 w1 where f: "runStep (x_os x) (x_env x) (step_limit (Request (x_env x)) i) i (stepDigests s ! i) s w =
      (q, s1, w1)" using prod_cases3 by blast
  obtain k outs l where s1: "s1 = s\<lparr>Kms := k, stepOutputs := outs, main_log := l\<rparr>" "kms_step (x_env x) s k"
      "step_outputs (x_env x) i (stepOutputs s) outs"
    using runStep_writes [OF f] by blast
  have "stepStatus s1 = stepStatus s" using s1(1) by simp
  then have "s' = set_step_status i (status_after (step_limit (Request (x_env x)) i) d r (stepStatus s ! i))
      (end_step i (now_of (x_os x) w1) s1)"
    using assms f by (auto simp: run_step_def Let_def)
  then show ?thesis using s1 by blast
qed

text \<open>A choice writes what its move writes, or nothing.\<close>

lemma exec_choice_writes:
  assumes "exec_choice x c (sc, s, w) = (sc', s', w')"
  obtains (same) "s' = s"
    | (begins) i where "s' = begin_step x i s w"
    | (fetches) i r w1 where "fetch_step x i s w = (r, s', w1)"
    | (runs) i r t w1 where "run_step x i s w = ((r, t), s', w1)"
proof -
  have moved: "s2 = s \<or> s2 = s1" if "move x a s1 w1 (sc, s, w) = (sc2, s2, w2)" for a s1 w1 sc2 s2 w2
    using that by (auto simp: move_def split: option.splits)
  show thesis
  proof (cases c)
    case (CBegin i)
    then have "move x (Begin i) (begin_step x i s w) w (sc, s, w) = (sc', s', w')" using assms by simp
    from moved [OF this] show thesis using same begins by blast
  next
    case (CFetch i)
    obtain r s1 w1 where f: "fetch_step x i s w = (r, s1, w1)" using prod_cases3 by blast
    then have "move x (Fetched i r) s1 w1 (sc, s, w) = (sc', s', w')" using assms CFetch by simp
    from moved [OF this] have "s' = s \<or> s' = s1" .
    then show thesis using f same fetches by blast
  next
    case (CRun i)
    obtain r t s1 w1 where f: "run_step x i s w = ((r, t), s1, w1)" by (metis prod.collapse)
    then have "move x (Ran i r t) s1 w1 (sc, s, w) = (sc', s', w')" using assms CRun by simp
    from moved [OF this] have "s' = s \<or> s' = s1" .
    then show thesis using f same runs by blast
  next
    case CVerify
    obtain m w1 where "missing_images (x_os x) (x_images x) w = (m, w1)" by fastforce
    then have "move x (Verify (filter (\<lambda>i. i \<notin> set m) (x_images x))) s w1 (sc, s, w) = (sc', s', w')"
      using assms CVerify by simp
    from moved [OF this] show thesis using same by blast
  qed (use assms same in \<open>auto dest!: moved\<close>)
qed

text \<open>The statuses of the build are those of the scheduler.\<close>

lemma status_of_moves [simp]:
  "stepStatus (write_if c m s) = stepStatus s" "stepStatus (end_step i t s) = stepStatus s"
  "stepStatus (end_pull i t s) = stepStatus s" "stepStatus (set_step_status i st s) = (stepStatus s)[i := st]"
  "stepStatus (recordStepDigest i d s) = stepStatus s"
  by (simp_all add: write_if_def end_step_def end_pull_def set_step_status_def recordStepDigest_def)

lemma stepStatus_begin: "stepStatus (begin_step x i s w) = (stepStatus s)[i := WORKING]"
  by (simp add: begin_step_def Let_def split: sum.split)

lemma fetch_step_status: "fetch_step x i s w = (r, s', w') \<Longrightarrow> stepStatus s' = stepStatus s"
  using fetch_step_writes [of x i s w r s' w'] by (auto split: option.splits)

lemma run_step_status:
  assumes "run_step x i s w = ((r, t), s', w')"
  shows "stepStatus s' = (stepStatus s)[i := status_after (step_limit (Request (x_env x)) i) t r (stepStatus s ! i)]"
  using run_step_writes [OF assms] by auto

lemma exec_choice_synced:
  assumes "stepStatus s = statuses sc" "exec_choice x c (sc, s, w) = (sc', s', w')"
  shows "stepStatus s' = statuses sc'"
proof (cases c)
  case (CBegin i)
  then show ?thesis
    using assms by (auto simp: move_def stepStatus_begin split: option.splits elim!: fire_beginE)
next
  case (CFetch i)
  obtain r s1 w1 where f: "fetch_step x i s w = (r, s1, w1)" using prod_cases3 by blast
  then show ?thesis
    using assms CFetch fetch_step_status [OF f] by (auto simp: move_def split: option.splits elim!: fire_fetchedE)
next
  case (CRun i)
  obtain r t s1 w1 where f: "run_step x i s w = ((r, t), s1, w1)" by (metis prod.collapse)
  then show ?thesis
    using assms CRun run_step_status [OF f]
    by (auto simp: move_def fire_ran_def cfg_of_def step_limit_def Let_def split: option.splits if_splits)
next
  case CSpawn
  then show ?thesis using assms by (auto simp: move_def split: option.splits elim!: fire_spawnE)
next
  case CSeeClosed
  then show ?thesis using assms by (auto simp: move_def split: option.splits elim!: fire_see_closedE)
next
  case CSeeCtx
  then show ?thesis using assms by (auto simp: move_def split: option.splits elim!: fire_see_ctxE)
next
  case (CReceive j)
  then show ?thesis using assms by (auto simp: move_def split: option.splits elim!: fire_receiveE)
next
  case CVerify
  then show ?thesis using assms by (auto simp: move_def split: option.splits prod.splits elim!: fire_verifyE)
next
  case (CInterrupt e)
  then show ?thesis using assms by (auto simp: move_def split: option.splits if_splits)
next
  case (CPass i)
  then show ?thesis using assms by (auto simp: move_def split: option.splits elim!: fire_passE)
next
  case (CAbandon i)
  then show ?thesis using assms by (auto simp: move_def split: option.splits elim!: fire_abandonE)
qed

lemma exec_all_synced:
  "exec_all x cs (sc, s, w) = (sc', s', w') \<Longrightarrow> stepStatus s = statuses sc \<Longrightarrow> stepStatus s' = statuses sc'"
proof (induction cs arbitrary: sc s w)
  case (Cons c cs)
  obtain sc1 s1 w1 where c: "exec_choice x c (sc, s, w) = (sc1, s1, w1)" using prod_cases3 by blast
  then show ?case using Cons exec_choice_synced [OF Cons.prems(2) c] by simp
qed simp

section \<open>What the steps leave alone\<close>

definition outcome_of :: "bld \<Rightarrow> build_status \<times> err option \<times> bool" where
  "outcome_of s = (b_status s, b_err s, DoneClosed s)"

lemma outcome_of_moves [simp]:
  "outcome_of (write_if c m s) = outcome_of s" "outcome_of (end_step i t s) = outcome_of s"
  "outcome_of (end_pull i t s) = outcome_of s" "outcome_of (set_step_status i st s) = outcome_of s"
  "outcome_of (recordStepDigest i d s) = outcome_of s" "outcome_of (s\<lparr>stepOutputs := os\<rparr>) = outcome_of s"
  "outcome_of (s\<lparr>Kms := k\<rparr>) = outcome_of s" "outcome_of (s\<lparr>main_log := l\<rparr>) = outcome_of s"
  "outcome_of (s\<lparr>Timing := tm\<rparr>) = outcome_of s"
  by (simp_all add: outcome_of_def write_if_def end_step_def end_pull_def set_step_status_def recordStepDigest_def)

lemma outcome_of_steps:
  "outcome_of (begin_step x i s w) = outcome_of s"
  "fetch_step x i s w = (r, s', w') \<Longrightarrow> outcome_of s' = outcome_of s"
  "run_step x i s w = (rt, s', w') \<Longrightarrow> outcome_of s' = outcome_of s"
proof -
  show "outcome_of (begin_step x i s w) = outcome_of s"
    by (simp add: begin_step_def Let_def split: sum.split)
  show "fetch_step x i s w = (r, s', w') \<Longrightarrow> outcome_of s' = outcome_of s"
    using fetch_step_writes [of x i s w r s' w'] by (auto split: option.splits)
  show "run_step x i s w = (rt, s', w') \<Longrightarrow> outcome_of s' = outcome_of s"
    by (cases rt) (auto dest!: run_step_writes)
qed

lemma exec_choice_outcome: "exec_choice x c (sc, s, w) = (sc', s', w') \<Longrightarrow> outcome_of s' = outcome_of s"
  by (cases rule: exec_choice_writes) (auto simp: outcome_of_steps(1) dest: outcome_of_steps(2,3))

lemma exec_all_outcome: "exec_all x cs (sc, s, w) = (sc', s', w') \<Longrightarrow> outcome_of s' = outcome_of s"
proof (induction cs arbitrary: sc s w)
  case (Cons c cs)
  obtain sc1 s1 w1 where c: "exec_choice x c (sc, s, w) = (sc1, s1, w1)" using prod_cases3 by blast
  then show ?case using Cons exec_choice_outcome [OF c] by simp
qed simp

lemma close_core_outcome:
  assumes "close_core x (sc, s, w) = (r, s', w')"
  shows "outcome_of s' = outcome_of s"
proof -
  obtain sc1 s1 w1 where e: "exec_all x (give_up (length (Steps (Request (x_env x))))) (sc, s, w) = (sc1, s1, w1)"
    using prod_cases3 by blast
  then have "s' = s1" using assms unfolding close_core_def by (simp split: main_pc.splits)
  then show ?thesis using exec_all_outcome [OF e] by simp
qed

lemma step_core_keeps: "keeps_status (step_core x cs)"
  unfolding keeps_status_def
proof (intro allI impI)
  fix s w r s' w'
  assume run: "step_core x cs s w = (r, s', w')"
  obtain sc1 s1 w1 where e: "exec_all x cs (sched_init (cfg_of x), s, w) = (sc1, s1, w1)" using prod_cases3 by blast
  have "outcome_of s' = outcome_of s1" using run unfolding step_core_def e by (rule close_core_outcome)
  then show "b_status s' = b_status s \<and> b_err s' = b_err s \<and> DoneClosed s' = DoneClosed s"
    using exec_all_outcome [OF e] by (simp add: outcome_of_def)
qed

section \<open>What the steps do to the world\<close>

context world_frame
begin

lemma R_output: "dockerCmdOutput os cmd args w = (r, w') \<Longrightarrow> R w w'"
  using rf.R_runD by (auto simp: dockerCmdOutput_def runAndScrape_def split: prod.splits)

lemma R_imageIsLocal: "imageIsLocal os img w = (r, w') \<Longrightarrow> R w w'"
  using R_output by (auto simp: imageIsLocal_def split: prod.splits option.splits)

lemma R_dockerInspect: "dockerInspect os img w = (r, w') \<Longrightarrow> R w w'"
  using R_output by (auto simp: dockerInspect_def split: prod.splits option.splits)

lemma R_dockerPull: "dockerPull os ident img w = (r, w') \<Longrightarrow> R w w'"
  using rf.R_runD R_log_answer frame_trans by (fastforce simp: dockerPull_def split: prod.splits)

lemma R_dockerPullWithRetries:
  assumes "dockerPullWithRetries os ident img 0 s w = (r, s', w')"
  shows "R w w'"
proof -
  obtain q w1 where q: "first_success maxPushRetries (dockerPull os ident img) (sleep_backoff os) 0 w = (q, w1)"
    by fastforce
  then have "w' = w1"
    using assms dockerPullWithRetries_first_success [of 0 os ident img s w]
    by (cases q) (simp_all add: out_of_retries_def)
  then show ?thesis using rf.R_first_success [OF R_dockerPull R_sleep_backoff q] by simp
qed

lemma R_fetchBuilder:
  assumes "fetchBuilder os b i s w = (r, s', w')"
  shows "R w w'"
proof -
  let ?name = "s_Name (Steps b ! i)"
  obtain q w1 where q: "dockerInspect os ?name w = (q, w1)" by fastforce
  have i: "R w w1" by (rule R_dockerInspect [OF q])
  have said: "R w (LogWrite os ident out msg w1)" for ident out msg using i frame_log frame_trans by blast
  obtain p s2 w2 where p: "dockerPullWithRetries os (stepIdentifier b i) ?name 0 s
      (LogWrite os (stepIdentifier b i) True (''Pulling image: '' @ ?name @ [CHR 0x0A]) w1) = (p, s2, w2)"
    using prod_cases3 by blast
  have "w' = w1 \<or> w' = w2 \<or> (\<exists>msg. w' = LogWrite os (stepIdentifier b i) True msg w1)"
    using assms q p by (auto simp: fetchBuilder_def Let_def split: sum.splits if_splits)
  then show ?thesis using i said R_dockerPullWithRetries [OF p] frame_trans by blast
qed

lemma R_runStep:
  assumes "runStep os env timeout i d s w = (r, s', w')"
  shows "R w w'"
proof -
  have ran: "R w (log_answer os p a w1)" if "Run os c cmd w = (a, w1)" for c cmd a w1 p
    using rf.R_runD [OF that] R_log_answer frame_trans by blast
  show ?thesis
    using assms by (auto simp: runStep_def Let_def frame_refl ran split: option.splits sum.splits prod.splits)
qed

lemma R_missing_images: "missing_images os imgs w = (r, w') \<Longrightarrow> R w w'"
proof (induction imgs arbitrary: w r)
  case (Cons img imgs)
  obtain q w1 where q: "imageIsLocal os img w = (q, w1)" by fastforce
  obtain m w2 where m: "missing_images os imgs w1 = (m, w2)" by fastforce
  then show ?case using Cons R_imageIsLocal [OF q] q frame_trans by auto
qed (simp add: frame_refl)

lemma R_move: "R w w1 \<Longrightarrow> move x a s1 w1 (sc, s, w) = (sc', s', w') \<Longrightarrow> R w w'"
  using frame_refl by (auto simp: move_def split: option.splits)

lemma R_exec_choice:
  assumes "x_os x = os" "exec_choice x c (sc, s, w) = (sc', s', w')"
  shows "R w w'"
proof (cases c)
  case CVerify
  obtain m w1 where m: "missing_images os (x_images x) w = (m, w1)" by fastforce
  then show ?thesis using assms CVerify R_move [OF R_missing_images [OF m]] by auto
next
  case (CFetch i)
  obtain r s1 w1 where f: "fetch_step x i s w = (r, s1, w1)" using prod_cases3 by blast
  then have "R w w1"
    using assms(1) R_fetchBuilder by (auto simp: fetch_step_def Let_def split: prod.splits sum.splits)
  then show ?thesis using assms CFetch f R_move by auto
next
  case (CRun i)
  obtain r t s1 w1 where f: "run_step x i s w = ((r, t), s1, w1)" by (metis prod.collapse)
  then have "R w w1" using assms(1) R_runStep by (auto simp: run_step_def Let_def split: prod.splits)
  then show ?thesis using assms CRun f R_move by auto
qed (use assms R_move [OF frame_refl] in auto)

lemma R_exec_all: "x_os x = os \<Longrightarrow> exec_all x cs (sc, s, w) = (sc', s', w') \<Longrightarrow> R w w'"
proof (induction cs arbitrary: sc s w)
  case (Cons c cs)
  obtain sc1 s1 w1 where c: "exec_choice x c (sc, s, w) = (sc1, s1, w1)" using prod_cases3 by blast
  then have "R w1 w'" using Cons by simp
  then show ?case using R_exec_choice [OF Cons.prems(1) c] frame_trans by blast
qed (simp add: frame_refl)

lemma R_close_core:
  assumes "x_os x = os" "close_core x (sc, s, w) = (r, s', w')"
  shows "R w w'"
proof -
  obtain sc1 s1 w1 where e: "exec_all x (give_up (length (Steps (Request (x_env x))))) (sc, s, w) = (sc1, s1, w1)"
    using prod_cases3 by blast
  then have "w' = w1" using assms(2) unfolding close_core_def by (simp split: main_pc.splits)
  then show ?thesis using R_exec_all [OF assms(1) e] by simp
qed

lemma R_step_core:
  assumes "x_os x = os" "step_core x cs s w = (r, s', w')"
  shows "R w w'"
proof -
  obtain sc1 s1 w1 where e: "exec_all x cs (sched_init (cfg_of x), s, w) = (sc1, s1, w1)" using prod_cases3 by blast
  have "close_core x (sc1, s1, w1) = (r, s', w')" using assms(2) unfolding step_core_def e .
  then show ?thesis using R_exec_all [OF assms(1) e] R_close_core [OF assms(1)] frame_trans by blast
qed

end

section \<open>Giving up ends the build\<close>

lemma returned_stays:
  "exec_all x cs (sc, s, w) = (sc', s', w') \<Longrightarrow> main_at sc = Returned r \<Longrightarrow> main_at sc' = Returned r"
proof (induction cs arbitrary: sc s w)
  case (Cons c cs)
  obtain sc1 s1 w1 where c: "exec_choice x c (sc, s, w) = (sc1, s1, w1)" using prod_cases3 by blast
  have "main_at sc1 = Returned r" if "fire (cfg_of x) a sc = Some sc1" for a
    using that Cons.prems(2)
    by (cases a) (auto elim!: fire_spawnE fire_see_closedE fire_see_ctxE fire_receiveE fire_verifyE fire_passE
        fire_abandonE fire_beginE fire_fetchedE fire_ranE split: if_splits)
  then have "main_at sc1 = Returned r" using exec_choice_fires [OF c] Cons.prems(2) by auto
  then show ?case using Cons c by simp
qed simp

lemma spawns_spawned:
  assumes "exec_all x (replicate (Suc n) CSpawn) (sc, s, w) = (sc', s', w')" "main_at sc = Spawning k"
    "length (Steps (Request (x_env x))) \<le> k + n"
  shows "\<exists>r. main_at sc' = Returned r \<or> main_at sc' = Collecting 0"
  using assms
proof (induction n arbitrary: sc k)
  case 0
  then show ?case by (auto simp: move_def fire_spawn_def cfg_of_def split: option.splits if_splits sum.splits)
next
  case (Suc n)
  obtain sc1 s1 w1 where first: "exec_choice x CSpawn (sc, s, w) = (sc1, s1, w1)" using prod_cases3 by blast
  then have same: "s1 = s" "w1 = w" by (auto simp: move_def split: option.splits)
  have run: "exec_all x (replicate (Suc n) CSpawn) (sc1, s, w) = (sc', s', w')"
    using Suc.prems(1) first same by simp
  consider (r) r where "main_at sc1 = Returned r" | (s) "main_at sc1 = Spawning (Suc k)" | (c) "main_at sc1 = Collecting 0"
  proof -
    have "fire_spawn (cfg_of x) sc \<noteq> None" using Suc.prems(2) by (simp add: fire_spawn_def split: sum.split)
    then have "fire_spawn (cfg_of x) sc = Some sc1" using first by (auto simp: move_def)
    then show thesis using that Suc.prems(2) by (cases rule: fire_spawnE) auto
  qed
  then show ?case
  proof cases
    case (r r)
    then show ?thesis using returned_stays [OF run] by blast
  next
    case s
    then show ?thesis using Suc.IH [OF run, of "Suc k"] Suc.prems(3) by simp
  next
    case c
    have "exec_all x (replicate m CSpawn) (sc1, s, w) = (sc1, s, w)" for m
      using c by (induction m) (simp_all add: move_def fire_spawn_def)
    then show ?thesis using run c by (metis prod.inject)
  qed
qed

lemma give_up_returns:
  assumes reach: "reachable (cfg_of x) sc1"
    and run: "exec_all x (give_up (length (Steps (Request (x_env x))))) (sc1, s1, w1) = (sc', s', w')"
  shows "\<exists>r. main_at sc' = Returned r"
proof -
  let ?n = "length (Steps (Request (x_env x)))"
  obtain sc2 s2 w2 where 2: "exec_all x (replicate (Suc ?n) CSpawn) (sc1, s1, w1) = (sc2, s2, w2)"
    using prod_cases3 by blast
  obtain sc3 s3 w3 where 3: "exec_choice x (CInterrupt Canceled) (sc2, s2, w2) = (sc3, s3, w3)" using prod_cases3 by blast
  obtain sc4 s4 w4 where 4: "exec_choice x CSeeCtx (sc3, s3, w3) = (sc4, s4, w4)" using prod_cases3 by blast
  have last: "exec_choice x CVerify (sc4, s4, w4) = (sc', s', w')"
    using run 2 3 4 by (simp add: give_up_def del: replicate_Suc exec_choice.simps)
  have inv: "main_at sc2 = Collecting k \<Longrightarrow> k \<le> length (cfg_steps (cfg_of x))" for k
    using exec_all_fires [OF 2] fires_reachable [OF reach] reachable_inv
    by (fastforce simp: sched_inv_def main_ok_def)
  have "(\<exists>r. main_at sc2 = Returned r) \<or> (\<exists>k. main_at sc2 = Collecting k)"
  proof (cases "main_at sc1")
    case (Spawning k)
    then show ?thesis using spawns_spawned [OF 2 Spawning] by auto
  next
    case (Collecting k)
    have "exec_all x (replicate m CSpawn) (sc1, s1, w1) = (sc1, s1, w1)" for m
      using Collecting by (induction m) (simp_all add: move_def fire_spawn_def)
    then show ?thesis using 2 Collecting by (metis prod.inject)
  next
    case (Returned r)
    then show ?thesis using returned_stays [OF 2] by blast
  qed
  then show ?thesis
  proof
    assume "\<exists>r. main_at sc2 = Returned r"
    then obtain r where "main_at sc2 = Returned r" by blast
    moreover have "exec_all x [CInterrupt Canceled, CSeeCtx, CVerify] (sc2, s2, w2) = (sc', s', w')"
      using 3 4 last by (simp del: exec_choice.simps)
    ultimately show ?thesis using returned_stays by metis
  next
    assume "\<exists>k. main_at sc2 = Collecting k"
    then obtain k where k: "main_at sc2 = Collecting k" "k \<le> length (cfg_steps (cfg_of x))" using inv by blast
    have c3: "main_at sc3 = Collecting k" "sctx sc3 \<noteq> None"
      using 3 k by (auto simp: move_def split: if_splits option.splits)
    show ?thesis
    proof (cases "k < length (cfg_steps (cfg_of x))")
      case True
      then have "\<exists>r. main_at sc4 = Returned r" using 4 c3 by (auto simp: move_def fire_see_ctx_def)
      moreover have "exec_all x [CVerify] (sc4, s4, w4) = (sc', s', w')" using last by (simp del: exec_choice.simps)
      ultimately show ?thesis using returned_stays by metis
    next
      case False
      then have "sc4 = sc3" using 4 c3 by (auto simp: move_def fire_see_ctx_def)
      then show ?thesis
        using last c3 k(2) False by (auto simp: move_def fire_verify_def Let_def split: prod.splits)
    qed
  qed
qed

text \<open>The core in terms of the scheduler.\<close>

lemma close_core_sched:
  assumes reach: "reachable (cfg_of x) sc" and run: "close_core x (sc, s, w) = (r, s', w')"
  obtains sc' where "exec_all x (give_up (length (Steps (Request (x_env x))))) (sc, s, w) = (sc', s', w')"
    "reachable (cfg_of x) sc'" "main_at sc' = Returned r"
proof -
  obtain sc1 s1 w1 where e: "exec_all x (give_up (length (Steps (Request (x_env x))))) (sc, s, w) = (sc1, s1, w1)"
    using prod_cases3 by blast
  obtain q where q: "main_at sc1 = Returned q" using give_up_returns [OF reach e] by blast
  then have "r = q" "s' = s1" "w' = w1" using run e unfolding close_core_def by simp_all
  moreover have "reachable (cfg_of x) sc1" using exec_all_fires [OF e] fires_reachable [OF reach] by blast
  ultimately show thesis using that e q by simp
qed

lemma step_core_sched:
  assumes "step_core x cs s w = (r, s', w')" "stepStatus s = replicate (length (Steps (Request (x_env x)))) QUEUED"
  obtains sc where "reachable (cfg_of x) sc" "main_at sc = Returned r" "stepStatus s' = statuses sc"
proof -
  obtain sc1 s1 w1 where e: "exec_all x cs (sched_init (cfg_of x), s, w) = (sc1, s1, w1)" using prod_cases3 by blast
  have c: "close_core x (sc1, s1, w1) = (r, s', w')" using assms(1) unfolding step_core_def e .
  have reach: "reachable (cfg_of x) sc1" using exec_all_fires [OF e] fires_reachable [OF reach_init] by blast
  obtain sc where sc: "exec_all x (give_up (length (Steps (Request (x_env x))))) (sc1, s1, w1) = (sc, s', w')"
      "reachable (cfg_of x) sc" "main_at sc = Returned r"
    using close_core_sched [OF reach c] by blast
  have "stepStatus s1 = statuses sc1"
    by (rule exec_all_synced [OF e]) (simp add: assms(2) sched_init_def cfg_of_def)
  then show thesis using that sc exec_all_synced [OF sc(1)] by blast
qed

text \<open>A core that returns no error has run every step.\<close>

lemma returned_success:
  assumes "reachable (cfg_of x) sc" "main_at sc = Returned None"
  shows "statuses sc = replicate (length (Steps (Request (x_env x)))) SUCCESS"
proof -
  note inv = reachable_inv [OF assms(1)]
  have "statuses sc ! i = SUCCESS" if "i < length (cfg_steps (cfg_of x))" for i
    using closed_success [OF inv, of i] inv assms(2) that by (simp add: sched_inv_def main_ok_def pc_of_def)
  moreover have "length (statuses sc) = length (cfg_steps (cfg_of x))" using inv by (simp add: sched_inv_def)
  ultimately show ?thesis by (intro nth_equalityI) (simp_all add: cfg_of_def)
qed

lemma step_core_success:
  assumes "step_core x cs s w = (None, s', w')" "stepStatus s = replicate (length (Steps (Request (x_env x)))) QUEUED"
  shows "stepStatus s' = replicate (length (Steps (Request (x_env x)))) SUCCESS"
  using step_core_sched [OF assms] returned_success by metis

section \<open>Properties\<close>


text \<open>
  C2: No container runs too early. In a build with validated dependencies and timeouts, a
  move of the execution that fetches the image of a step or runs its container happens
  only when every step it depends on has the status of success.
\<close>

theorem containers_in_order:
  assumes "schedulable (cfg_of x)"
    and "exec_all x cs (sched_init (cfg_of x), New_build now (Request (x_env x)), w) = (sc, s, w1)"
    and "c = CFetch i \<or> c = CRun i" "exec_choice x c (sc, s, w1) \<noteq> (sc, s, w1)"
    and "j \<in> dep_set (Steps (Request (x_env x))) i"
  shows "stepStatus s ! j = SUCCESS"
proof -
  have reach: "reachable (cfg_of x) sc" using exec_all_fires [OF assms(2)] fires_reachable reach_init by blast
  note inv = reachable_inv [OF reach]
  have "pc_of sc i = Some Fetching \<or> pc_of sc i = Some Running"
    using assms(3,4)
    by (auto simp: move_def fire_fetched_def fire_ran_def Let_def split: option.splits prod.splits if_splits)
  then have i: "i < length (gors sc)" "gors sc ! i = Fetching \<or> gors sc ! i = Running" by (auto simp: pc_of_Some)
  then have "pc_ok (cfg_of x) sc i" using inv by (simp add: sched_inv_def)
  then have "statuses sc ! i \<noteq> QUEUED" using i(2) by (auto simp: pc_ok_def)
  moreover have "i < length (cfg_steps (cfg_of x))" using i(1) inv by (simp add: sched_inv_def)
  ultimately have "pc_of sc j = Some Closed"
    using started_deps_closed [OF assms(1) reach] assms(5) by (simp add: cfg_of_def)
  then have "statuses sc ! j = SUCCESS" by (rule closed_success [OF inv])
  moreover have "stepStatus s = statuses sc"
    by (rule exec_all_synced [OF assms(2)]) (simp add: New_build_def sched_init_def cfg_of_def)
  ultimately show ?thesis by simp
qed

text \<open>Two steps, the second of which waits for the first, on a host where every command succeeds.\<close>

definition sample_executor :: "machine executor" where
  "sample_executor =
     \<lparr>x_os = real_os good_host (\<lambda>m. int (length (logged m))) (\<lambda>_. ''u'') (\<lambda>_. Some []) (\<lambda>_. 0),
      x_env = \<lparr>Request = empty_build\<lparr>Steps := cfg_steps two_steps\<rparr>, hostWorkspaceDir = ''vol'', is_local = True,
        dryrun = False, osTmp = ''/tmp'', cloudkms_New = (\<lambda>_. Inl Canceled), DefaultTransport = (\<lambda>_. Inl Canceled),
        MkdirAll = (\<lambda>_. None), output_file = (\<lambda>_. None)\<rparr>,
      x_images = []\<rparr>"

definition sample_choices :: "choice list" where
  "sample_choices = [CSpawn, CSpawn, CSpawn, CBegin 0, CFetch 0, CBegin 1, CRun 0, CPass 1, CBegin 1, CFetch 1]"

theorem containers_in_order_witness:
  "let (sc, s, w) = exec_all sample_executor sample_choices
         (sched_init (cfg_of sample_executor), New_build 0 (Request (x_env sample_executor)), idle)
   in stepStatus s ! 0 = SUCCESS \<and> fst (exec_choice sample_executor (CRun 1) (sc, s, w)) \<noteq> sc"
proof -
  let ?st = "exec_all sample_executor sample_choices
     (sched_init (cfg_of sample_executor), New_build 0 (Request (x_env sample_executor)), idle)"
  obtain sc s w where e: "?st = (sc, s, w)" using prod_cases3 by blast
  have "gors (fst ?st) ! 1 = Running" by code_simp
  then have before: "gors sc ! 1 = Running" using e by simp
  have "gors (fst (exec_choice sample_executor (CRun 1) ?st)) ! 1 = Closed" by code_simp
  then have after: "gors (fst (exec_choice sample_executor (CRun 1) (sc, s, w))) ! 1 = Closed" using e by simp
  have ne: "fst (exec_choice sample_executor (CRun 1) (sc, s, w)) \<noteq> sc" using before after by auto
  have cfg: "cfg_of sample_executor = two_steps" by (simp add: cfg_of_def sample_executor_def two_steps_def)
  have dep: "0 \<in> dep_set (Steps (Request (x_env sample_executor))) 1"
    by (simp add: sample_executor_def two_steps_def dep_set_def empty_step_def)
  have "stepStatus s ! 0 = SUCCESS"
    by (rule containers_in_order [OF _ e _ _ dep, where c = "CRun 1"]) (use ne two_steps_schedulable cfg in auto)
  then show ?thesis using e ne by (simp del: exec_choice.simps)
qed

text \<open>
  The core of \<open>runBuildSteps\<close> returns on every schedule, and when it returns no error
  every step has succeeded.
\<close>

theorem step_core_result:
  assumes "step_core x cs (New_build now (Request (x_env x))) w = (r, s', w')"
  shows "(\<exists>sc. reachable (cfg_of x) sc \<and> main_at sc = Returned r \<and> stepStatus s' = statuses sc) \<and>
    (r = None \<longrightarrow> stepStatus s' = replicate (length (Steps (Request (x_env x)))) SUCCESS)"
proof -
  have new: "stepStatus (New_build now (Request (x_env x))) = replicate (length (Steps (Request (x_env x)))) QUEUED"
    by (simp add: New_build_def)
  show ?thesis using step_core_sched [OF assms new] step_core_success [OF _ new] assms by metis
qed

theorem step_core_result_witness:
  "let (r, s, w) = step_core sample_executor (sample_choices @ [CRun 1, CSeeClosed, CSeeClosed, CVerify])
         (New_build 0 (Request (x_env sample_executor))) idle
   in r = None \<and> stepStatus s = [SUCCESS, SUCCESS]"
proof -
  let ?st = "step_core sample_executor (sample_choices @ [CRun 1, CSeeClosed, CSeeClosed, CVerify])
     (New_build 0 (Request (x_env sample_executor))) idle"
  have r: "fst ?st = None" by code_simp
  then have e: "?st = (None, fst (snd ?st), snd (snd ?st))" by (metis prod.collapse)
  from step_core_result [OF e] have "stepStatus (fst (snd ?st)) = [SUCCESS, SUCCESS]"
    by (simp add: sample_executor_def two_steps_def numeral_2_eq_2)
  then show ?thesis using r by (metis (mono_tags, lifting) case_prod_beta)
qed

end
