(* ===== verification/Build_Shape.thy ===== *)
theory Build_Shape
  imports Build_Exec
begin

text \<open>
  The slices of a \<open>Build\<close>, one entry for each step, and the spans of time in them. The model
  reads a slice with \<open>!\<close> and writes it with a list update; in Go an index that is out of range
  and the end of a span that was never started are panics. The invariant here shows that no
  execution meets either, and which of the spans are open at which point of a goroutine.
\<close>

section \<open>Slices and spans\<close>

definition well_shaped :: "nat \<Rightarrow> bld \<Rightarrow> bool" where
  "well_shaped n s \<longleftrightarrow>
     length (stepStatus s) = n \<and> length (stepDigests s) = n \<and>
     length (BuildSteps (Timing s)) = n \<and> length (BuildStepPulls (Timing s)) = n \<and>
     (\<forall>outputs. stepOutputs s = Some outputs \<longrightarrow> length outputs = n)"

text \<open>The state in which \<open>runBuildSteps\<close> starts its goroutines.\<close>

definition fresh_slices :: "nat \<Rightarrow> bld \<Rightarrow> bool" where
  "fresh_slices n s \<longleftrightarrow>
     well_shaped n s \<and> BuildSteps (Timing s) = replicate n None \<and> BuildStepPulls (Timing s) = replicate n None"

definition open_span :: "time_span option \<Rightarrow> bool" where
  "open_span sp \<longleftrightarrow> (case sp of None \<Rightarrow> False | Some t \<Rightarrow> End_time t = None)"

definition ended_span :: "time_span option \<Rightarrow> bool" where
  "ended_span sp \<longleftrightarrow> (case sp of None \<Rightarrow> False | Some t \<Rightarrow> End_time t \<noteq> None)"

definition spans_ok :: "pc option \<Rightarrow> time_span option \<Rightarrow> time_span option \<Rightarrow> bool" where
  "spans_ok p step pull \<longleftrightarrow>
     (case p of
        Some Fetching \<Rightarrow> open_span step \<and> open_span pull
      | Some Running \<Rightarrow> open_span step \<and> ended_span pull
      | Some Closed \<Rightarrow> ended_span step \<and> ended_span pull
      | Some (Sending e) \<Rightarrow> ended_span step \<and> ended_span pull
      | Some Gone \<Rightarrow> step = None \<and> pull = None \<or> ended_span step \<and> ended_span pull
      | _ \<Rightarrow> step = None \<and> pull = None)"

definition timed :: "nat \<Rightarrow> sched \<Rightarrow> bld \<Rightarrow> bool" where
  "timed n sc s \<longleftrightarrow>
     well_shaped n s \<and>
     (\<forall>i<n. spans_ok (pc_of sc i) (BuildSteps (Timing s) ! i) (BuildStepPulls (Timing s) ! i))"

named_theorems shape_simps

lemma span_simps [shape_simps]:
  "open_span (Some \<lparr>Start_time = t, End_time = None\<rparr>)" "\<not> open_span None" "\<not> ended_span None"
  "open_span sp \<Longrightarrow> ended_span (end_span t sp)" "ended_span sp \<Longrightarrow> ended_span (end_span t sp)"
  by (auto simp: open_span_def ended_span_def end_span_def split: option.splits)

text \<open>Only the goroutine that moves changes its entries.\<close>

lemma timed_update:
  assumes t: "timed n sc s" and s': "well_shaped n s'"
    and same: "\<And>j. j \<noteq> i \<Longrightarrow> pc_of sc' j = pc_of sc j"
      "\<And>j. j \<noteq> i \<Longrightarrow> BuildSteps (Timing s') ! j = BuildSteps (Timing s) ! j"
      "\<And>j. j \<noteq> i \<Longrightarrow> BuildStepPulls (Timing s') ! j = BuildStepPulls (Timing s) ! j"
    and ok: "i < n \<Longrightarrow> spans_ok (pc_of sc i) (BuildSteps (Timing s) ! i) (BuildStepPulls (Timing s) ! i) \<Longrightarrow>
      spans_ok (pc_of sc' i) (BuildSteps (Timing s') ! i) (BuildStepPulls (Timing s') ! i)"
  shows "timed n sc' s'"
  unfolding timed_def
proof (intro conjI allI impI s')
  fix j assume "j < n"
  then show "spans_ok (pc_of sc' j) (BuildSteps (Timing s') ! j) (BuildStepPulls (Timing s') ! j)"
    using t same ok by (cases "j = i") (auto simp: timed_def)
qed

lemma timed_sched:
  assumes "timed n sc s"
    and "\<And>j. j \<noteq> i \<Longrightarrow> pc_of sc' j = pc_of sc j"
    and "\<And>a b. spans_ok (pc_of sc i) a b \<Longrightarrow> spans_ok (pc_of sc' i) a b"
  shows "timed n sc' s"
  using assms(1) by (rule timed_update [where i = i]) (use assms in \<open>auto simp: timed_def\<close>)

lemma pc_of_simps [shape_simps]:
  "pc_of (s\<lparr>main_at := m\<rparr>) j = pc_of s j" "pc_of (s\<lparr>sctx := c\<rparr>) j = pc_of s j"
  "pc_of (s\<lparr>mu_held := h\<rparr>) j = pc_of s j" "pc_of (set_status i st s) j = pc_of s j"
  "pc_of (return_main r s) j = pc_of s j"
  "j \<noteq> i \<Longrightarrow> pc_of (set_pc i p s) j = pc_of s j"
  "i < length (gors s) \<Longrightarrow> pc_of (set_pc i p s) i = Some p"
  by (auto simp: pc_of_def set_status_def return_main_def set_pc_def)

section \<open>The moves of the scheduler that leave the build alone\<close>

lemma fire_keeps_timed:
  assumes "timed n sc s" "fire cfg a sc = Some sc'" "\<forall>i r t. a \<noteq> Begin i \<and> a \<noteq> Fetched i r \<and> a \<noteq> Ran i r t"
  shows "timed n sc' s"
proof (cases a)
  case Spawn
  then have "fire_spawn cfg sc = Some sc'" using assms(2) by simp
  then consider (same) "gors sc' = gors sc" | (new) ws where "gors sc' = gors sc @ [Waiting ws]"
    by (cases rule: fire_spawnE) auto
  then show ?thesis
  proof cases
    case same
    then show ?thesis using assms(1) by (auto simp: timed_def pc_of_def)
  next
    case new
    show ?thesis
      by (rule timed_sched [OF assms(1), where i = "length (gors sc)"])
        (use new in \<open>auto simp: pc_of_def nth_append spans_ok_def\<close>)
  qed
next
  case (Receive j)
  then have "fire_receive cfg j sc = Some sc'" using assms(2) by simp
  then have "(\<exists>e. pc_of sc j = Some (Sending e) \<or> pc_of sc j = Some (SendLocked e)) \<and> pc_of sc' j = Some Gone \<and>
      (\<forall>k. k \<noteq> j \<longrightarrow> pc_of sc' k = pc_of sc k)"
    by (auto simp: fire_receive_def shape_simps pc_of_Some split: main_pc.splits option.splits pc.splits if_splits)
  then show ?thesis
    using timed_sched [OF assms(1), of j sc'] by (auto simp: spans_ok_def)
next
  case (Pass j)
  then have "fire_pass j sc = Some sc'" using assms(2) by simp
  then have "\<exists>ws ws'. pc_of sc j = Some (Waiting ws) \<and> pc_of sc' j = Some (Waiting ws') \<and>
      (\<forall>k. k \<noteq> j \<longrightarrow> pc_of sc' k = pc_of sc k)"
    by (auto simp: fire_pass_def shape_simps pc_of_Some split: option.splits pc.splits list.splits if_splits)
  then show ?thesis
    using timed_sched [OF assms(1), of j sc'] by (auto simp: spans_ok_def)
next
  case (Abandon j)
  then have "fire_abandon j sc = Some sc'" using assms(2) by simp
  then have "(\<exists>ws e. pc_of sc j = Some (Waiting ws) \<or> pc_of sc j = Some (Sending e)) \<and> pc_of sc' j = Some Gone \<and>
      (\<forall>k. k \<noteq> j \<longrightarrow> pc_of sc' k = pc_of sc k)"
    by (auto simp: fire_abandon_def shape_simps pc_of_Some split: option.splits pc.splits list.splits if_splits)
  then show ?thesis
    using timed_sched [OF assms(1), of j sc'] by (auto simp: spans_ok_def)
qed (use assms in \<open>auto simp: timed_def shape_simps fire_see_closed_def fire_see_ctx_def fire_verify_def Let_def
    split: main_pc.splits option.splits if_splits\<close>)

section \<open>The moves that write\<close>

lemma timed_begin:
  assumes t: "timed n sc s" and n: "n = length (Steps (Request (x_env x)))"
    and fire: "fire_begin (cfg_of x) i sc = Some sc'" and len: "length (gors sc) \<le> n"
  shows "timed n sc' (begin_step x i s w)"
proof (rule timed_update [OF t, where i = i])
  show "well_shaped n (begin_step x i s w)"
    using t by (auto simp: timed_def well_shaped_def begin_step_def set_step_status_def write_if_def
        WriteMainEntry_def Let_def split: sum.split)
  have i: "i < n" "pc_of sc i = Some (Waiting [])"
    using fire len by (cases rule: fire_beginE; simp add: pc_of_Some)+
  have lens: "length (BuildSteps (Timing s)) = n" "length (BuildStepPulls (Timing s)) = n"
    using t by (auto simp: timed_def well_shaped_def)
  show "j \<noteq> i \<Longrightarrow> pc_of sc' j = pc_of sc j" for j
    using fire by (cases rule: fire_beginE) (simp_all add: shape_simps)
  show "j \<noteq> i \<Longrightarrow> BuildSteps (Timing (begin_step x i s w)) ! j = BuildSteps (Timing s) ! j"
    "j \<noteq> i \<Longrightarrow> BuildStepPulls (Timing (begin_step x i s w)) ! j = BuildStepPulls (Timing s) ! j" for j
    by (simp_all add: begin_step_def set_step_status_def write_if_def WriteMainEntry_def Let_def split: sum.split)
  show "spans_ok (pc_of sc' i) (BuildSteps (Timing (begin_step x i s w)) ! i)
      (BuildStepPulls (Timing (begin_step x i s w)) ! i)"
    if "spans_ok (pc_of sc i) (BuildSteps (Timing s) ! i) (BuildStepPulls (Timing s) ! i)"
    using fire that i lens
    by (cases rule: fire_beginE) (simp_all add: shape_simps spans_ok_def begin_step_def set_step_status_def
        write_if_def WriteMainEntry_def cfg_of_def Let_def)
qed

lemma timed_fetch:
  assumes t: "timed n sc s" and run: "fetch_step x i s w = (r, s', w')"
    and fire: "fire_fetched i r sc = Some sc'" and len: "length (gors sc) \<le> n"
  shows "timed n sc' s'"
proof (rule timed_update [OF t, where i = i])
  obtain d t0 l where s': "s' = (case r of None \<Rightarrow> recordStepDigest i d (end_pull i t0 (s\<lparr>main_log := l\<rparr>))
      | Some e \<Rightarrow> end_step i t0 (recordStepDigest i [] (end_pull i t0 (s\<lparr>main_log := l\<rparr>))))"
    using fetch_step_writes [OF run] by blast
  show "well_shaped n s'"
    using t by (auto simp: s' timed_def well_shaped_def end_step_def end_pull_def recordStepDigest_def split: option.split)
  have i: "i < n" "pc_of sc i = Some Fetching" "i < length (gors sc)"
    using fire len by (cases rule: fire_fetchedE; simp add: pc_of_Some)+
  have lens: "length (BuildSteps (Timing s)) = n" "length (BuildStepPulls (Timing s)) = n"
    using t by (auto simp: timed_def well_shaped_def)
  show "j \<noteq> i \<Longrightarrow> pc_of sc' j = pc_of sc j" for j
    using fire by (cases rule: fire_fetchedE) (simp add: shape_simps)
  show "j \<noteq> i \<Longrightarrow> BuildSteps (Timing s') ! j = BuildSteps (Timing s) ! j"
    "j \<noteq> i \<Longrightarrow> BuildStepPulls (Timing s') ! j = BuildStepPulls (Timing s) ! j" for j
    by (simp_all add: s' end_step_def end_pull_def recordStepDigest_def split: option.split)
  show "spans_ok (pc_of sc' i) (BuildSteps (Timing s') ! i) (BuildStepPulls (Timing s') ! i)"
    if "spans_ok (pc_of sc i) (BuildSteps (Timing s) ! i) (BuildStepPulls (Timing s) ! i)"
    using fire that i lens
    by (cases rule: fire_fetchedE) (auto simp: s' shape_simps spans_ok_def end_step_def end_pull_def
        recordStepDigest_def split: option.split)
qed

lemma captureStepOutput_shape:
  assumes "captureStepOutput env i dir outs = (r, outs')"
    and "\<forall>os. outs = Some os \<longrightarrow> length os = length (Steps (Request env))" "outs' = Some os'"
  shows "length os' = length (Steps (Request env))"
  using assms by (auto simp: captureStepOutput_def Let_def split: option.splits sum.splits)

lemma step_outputs_shape:
  assumes "step_outputs env i outs outs'" "\<forall>os. outs = Some os \<longrightarrow> length os = length (Steps (Request env))"
  shows "\<forall>os. outs' = Some os \<longrightarrow> length os = length (Steps (Request env))"
  using assms captureStepOutput_shape unfolding step_outputs_def by metis

lemma timed_run:
  assumes t: "timed n sc s" and n: "n = length (Steps (Request (x_env x)))"
    and run: "run_step x i s w = ((r, d), s', w')"
    and fire: "fire_ran cfg i r d sc = Some sc'" and len: "length (gors sc) \<le> n"
  shows "timed n sc' s'"
proof (rule timed_update [OF t, where i = i])
  obtain st t0 k outs l where s': "s' = set_step_status i st (end_step i t0 (s\<lparr>Kms := k, stepOutputs := outs, main_log := l\<rparr>))"
      and outs: "step_outputs (x_env x) i (stepOutputs s) outs"
    using run_step_writes [OF run] by blast
  have "\<forall>os. stepOutputs s = Some os \<longrightarrow> length os = n"
    using t unfolding timed_def well_shaped_def by blast
  then have "\<forall>os. outs = Some os \<longrightarrow> length os = n"
    using step_outputs_shape [OF outs] unfolding n by blast
  then show "well_shaped n s'"
    using t by (auto simp: s' timed_def well_shaped_def end_step_def set_step_status_def write_if_def WriteMainEntry_def)
  have i: "i < n" "pc_of sc i = Some Running" "i < length (gors sc)"
    using fire len by (cases rule: fire_ranE; simp add: pc_of_Some)+
  have lens: "length (BuildSteps (Timing s)) = n" using t by (auto simp: timed_def well_shaped_def)
  show "j \<noteq> i \<Longrightarrow> pc_of sc' j = pc_of sc j" for j
    using fire by (cases rule: fire_ranE) (simp add: shape_simps)
  show "j \<noteq> i \<Longrightarrow> BuildSteps (Timing s') ! j = BuildSteps (Timing s) ! j"
    "j \<noteq> i \<Longrightarrow> BuildStepPulls (Timing s') ! j = BuildStepPulls (Timing s) ! j" for j
    by (simp_all add: s' end_step_def set_step_status_def write_if_def WriteMainEntry_def)
  show "spans_ok (pc_of sc' i) (BuildSteps (Timing s') ! i) (BuildStepPulls (Timing s') ! i)"
    if "spans_ok (pc_of sc i) (BuildSteps (Timing s) ! i) (BuildStepPulls (Timing s) ! i)"
    using fire that i lens
    by (cases rule: fire_ranE) (auto simp: s' shape_simps spans_ok_def end_step_def set_step_status_def
        write_if_def WriteMainEntry_def split: option.split)
qed

section \<open>Every execution\<close>

lemma exec_choice_timed:
  assumes t: "timed n sc s" and n: "n = length (Steps (Request (x_env x)))" and len: "length (gors sc) \<le> n"
    and c: "exec_choice x c (sc, s, w) = (sc', s', w')"
  shows "timed n sc' s'"
proof (cases c)
  case (CBegin i)
  then show ?thesis
    using c t timed_begin [OF t n _ len] by (auto simp: move_def split: option.splits)
next
  case (CFetch i)
  obtain r s1 w1 where f: "fetch_step x i s w = (r, s1, w1)" using prod_cases3 by blast
  then show ?thesis
    using c t CFetch timed_fetch [OF t f _ len] by (auto simp: move_def split: option.splits)
next
  case (CRun i)
  obtain r d s1 w1 where f: "run_step x i s w = ((r, d), s1, w1)" by (metis prod.collapse)
  then show ?thesis
    using c t CRun timed_run [OF t n f _ len] by (auto simp: move_def split: option.splits)
qed (use c t fire_keeps_timed [OF t] in \<open>auto simp: move_def simp del: fire.simps split: option.splits prod.splits\<close>)

lemma exec_choice_reachable:
  assumes "exec_choice x c (sc, s, w) = (sc', s', w')" "reachable (cfg_of x) sc"
  shows "reachable (cfg_of x) sc'"
  using exec_choice_fires [OF assms(1)] reach_fire [OF assms(2)] assms(2) by blast

lemma reachable_length: "reachable cfg sc \<Longrightarrow> length (gors sc) \<le> length (cfg_steps cfg)"
  using reachable_inv by (auto simp: sched_inv_def)

lemma exec_all_timed:
  assumes "n = length (Steps (Request (x_env x)))"
  shows "exec_all x cs (sc, s, w) = (sc', s', w') \<Longrightarrow> reachable (cfg_of x) sc \<Longrightarrow> timed n sc s \<Longrightarrow>
    reachable (cfg_of x) sc' \<and> timed n sc' s'"
proof (induction cs arbitrary: sc s w)
  case (Cons c cs)
  obtain sc1 s1 w1 where c: "exec_choice x c (sc, s, w) = (sc1, s1, w1)" using prod_cases3 by blast
  have "length (gors sc) \<le> n" using reachable_length [OF Cons.prems(2)] assms by (simp add: cfg_of_def)
  then have "timed n sc1 s1" using exec_choice_timed [OF Cons.prems(3) assms _ c] by blast
  then show ?case using Cons.IH [of sc1 s1 w1] Cons.prems(1) c exec_choice_reachable [OF c Cons.prems(2)] by simp
qed simp

lemma timed_init: "fresh_slices n s \<Longrightarrow> timed n (sched_init cfg) s"
  by (auto simp: timed_def fresh_slices_def pc_of_def sched_init_def spans_ok_def)

text \<open>The step whose slices a choice reads and writes.\<close>

fun step_of :: "choice \<Rightarrow> nat option" where
  "step_of (CBegin i) = Some i"
| "step_of (CFetch i) = Some i"
| "step_of (CRun i) = Some i"
| "step_of c = None"

lemma choice_pc:
  assumes "exec_choice x c (sc, s, w) \<noteq> (sc, s, w)" "step_of c = Some i"
  shows "i < length (gors sc) \<and> (gors sc ! i = (case c of CBegin j \<Rightarrow> Waiting [] | CFetch j \<Rightarrow> Fetching | _ \<Rightarrow> Running))"
  using assms
  by (cases c) (auto simp: move_def fire_fetched_def fire_ran_def pc_of_Some Let_def
      split: option.splits prod.splits if_splits elim!: fire_beginE)

section \<open>Properties\<close>

text \<open>
  C18: No execution of the steps indexes a slice out of range or ends a span that was not
  started. From the state in which \<open>runBuildSteps\<close> starts the goroutines, the five slices
  keep one entry for each step; a goroutine that begins, fetches or runs belongs to a step
  of the build; and when it has fetched or run, the spans whose ends it writes are there
  and open.
\<close>

theorem slices_in_range:
  assumes "fresh_slices (length (Steps (Request (x_env x)))) s0"
    and "exec_all x cs (sched_init (cfg_of x), s0, w0) = (sc, s, w)"
  shows "well_shaped (length (Steps (Request (x_env x)))) s \<and>
    (\<forall>c i. exec_choice x c (sc, s, w) \<noteq> (sc, s, w) \<and> step_of c = Some i \<longrightarrow>
       i < length (Steps (Request (x_env x))) \<and>
       (c = CFetch i \<or> c = CRun i \<longrightarrow> open_span (BuildSteps (Timing s) ! i)) \<and>
       (c = CFetch i \<longrightarrow> open_span (BuildStepPulls (Timing s) ! i)))"
proof -
  let ?n = "length (Steps (Request (x_env x)))"
  have inv: "reachable (cfg_of x) sc" "timed ?n sc s"
    using exec_all_timed [OF refl assms(2) reach_init timed_init [OF assms(1)]] by blast+
  have "i < ?n \<and> (c = CFetch i \<or> c = CRun i \<longrightarrow> open_span (BuildSteps (Timing s) ! i)) \<and>
       (c = CFetch i \<longrightarrow> open_span (BuildStepPulls (Timing s) ! i))"
    if c: "exec_choice x c (sc, s, w) \<noteq> (sc, s, w)" "step_of c = Some i" for c i
  proof -
    have i: "i < ?n" using choice_pc [OF c] reachable_length [OF inv(1)] by (simp add: cfg_of_def)
    then have "spans_ok (pc_of sc i) (BuildSteps (Timing s) ! i) (BuildStepPulls (Timing s) ! i)"
      using inv(2) by (simp add: timed_def)
    then show ?thesis using choice_pc [OF c] i by (auto simp: spans_ok_def pc_of_def)
  qed
  then show ?thesis using inv(2) unfolding timed_def by blast
qed

definition sample_start :: bld where
  "sample_start = (New_build 0 (Request (x_env sample_executor)))
     \<lparr>Timing := (Timing (New_build 0 (Request (x_env sample_executor))))
       \<lparr>BuildSteps := [None, None], BuildStepPulls := [None, None]\<rparr>\<rparr>"

lemma sample_steps: "length (Steps (Request (x_env sample_executor))) = 2"
  by (simp add: sample_executor_def two_steps_def)

lemma sample_start_fresh: "fresh_slices (length (Steps (Request (x_env sample_executor)))) sample_start"
  by (simp add: sample_executor_def two_steps_def sample_start_def fresh_slices_def well_shaped_def New_build_def)

theorem slices_in_range_witness:
  "let (sc, s, w) = exec_all sample_executor sample_choices (sched_init (cfg_of sample_executor), sample_start, idle)
   in exec_choice sample_executor (CRun 1) (sc, s, w) \<noteq> (sc, s, w) \<and> open_span (BuildSteps (Timing s) ! 1)"
proof -
  let ?st = "exec_all sample_executor sample_choices (sched_init (cfg_of sample_executor), sample_start, idle)"
  obtain sc s w where e: "?st = (sc, s, w)" using prod_cases3 by blast
  have "gors (fst ?st) ! 1 = Running" by code_simp
  moreover have "gors (fst (exec_choice sample_executor (CRun 1) ?st)) ! 1 = Closed" by code_simp
  ultimately have ne: "exec_choice sample_executor (CRun 1) (sc, s, w) \<noteq> (sc, s, w)" unfolding e by auto
  then have "open_span (BuildSteps (Timing s) ! 1)"
    using slices_in_range [OF sample_start_fresh e] step_of.simps(3) by blast
  then show ?thesis using e ne by (simp del: exec_choice.simps)
qed

text \<open>
  C19: A build whose steps have all succeeded has complete times: when the core of
  \<open>runBuildSteps\<close> returns without an error, every step has a span for its pull and for its
  run, and both have ended.
\<close>

theorem times_complete:
  assumes "fresh_slices (length (Steps (Request (x_env x)))) s0"
    and "step_core x cs s0 w0 = (None, s, w)"
  shows "well_shaped (length (Steps (Request (x_env x)))) s \<and>
    list_all ended_span (BuildSteps (Timing s)) \<and> list_all ended_span (BuildStepPulls (Timing s))"
proof -
  let ?n = "length (Steps (Request (x_env x)))"
  obtain sc0 s2 w2 where e: "exec_all x cs (sched_init (cfg_of x), s0, w0) = (sc0, s2, w2)" using prod_cases3 by blast
  have c: "close_core x (sc0, s2, w2) = (None, s, w)" using assms(2) unfolding step_core_def e .
  have 0: "reachable (cfg_of x) sc0 \<and> timed ?n sc0 s2"
    by (rule exec_all_timed [OF refl e reach_init timed_init [OF assms(1)]])
  obtain sc1 where sc1: "exec_all x (give_up ?n) (sc0, s2, w2) = (sc1, s, w)" "main_at sc1 = Returned None"
    using close_core_sched [OF conjunct1 [OF 0] c] by blast
  have inv: "reachable (cfg_of x) sc1" "timed ?n sc1 s"
    using exec_all_timed [OF refl sc1(1)] 0 by blast+
  have "pc_of sc1 i = Some Closed" if "i < ?n" for i
    using reachable_inv [OF inv(1)] sc1(2) that by (simp add: sched_inv_def main_ok_def pc_of_def cfg_of_def)
  then have "ended_span (BuildSteps (Timing s) ! i) \<and> ended_span (BuildStepPulls (Timing s) ! i)" if "i < ?n" for i
    using inv(2) that by (simp add: timed_def spans_ok_def)
  then show ?thesis using inv(2) by (simp add: timed_def well_shaped_def list_all_length)
qed

theorem times_complete_witness:
  "let (r, s, w) = step_core sample_executor (sample_choices @ [CRun 1, CSeeClosed, CSeeClosed, CVerify]) sample_start idle
   in r = None \<and> length (BuildSteps (Timing s)) = 2 \<and> list_all ended_span (BuildSteps (Timing s))"
proof -
  let ?st = "step_core sample_executor (sample_choices @ [CRun 1, CSeeClosed, CSeeClosed, CVerify]) sample_start idle"
  obtain r s w where e: "?st = (r, s, w)" using prod_cases3 by blast
  have "fst ?st = None" by code_simp
  then have r: "r = None" using e by simp
  show ?thesis using times_complete [OF sample_start_fresh e [unfolded r]] e r
    by (simp add: well_shaped_def sample_steps)
qed

end
