(* ===== verification/Local_Refresh.thy ===== *)
theory Local_Refresh
  imports Local_Correct Build_Shape
begin

text \<open>
  The steps of a build with the goroutine of \<open>localbuilder_main.go\<close> that keeps the credentials
  fresh. An execution is driven by turns: a move of the goroutines of the steps, or a round
  of the refreshing goroutine, which runs until the build is done. When a round takes place
  is left open (the delay that \<open>RefreshDuration\<close> computes is part of the state but does not restrict
  the turns), so that what is proved holds for every delay. In a dry run the goroutine is not
  started.
\<close>

section \<open>Turns\<close>

datatype turn = Moves choice | Refreshes

fun take_turn :: "'w env \<Rightarrow> bool \<Rightarrow> 'w executor \<Rightarrow> turn \<Rightarrow> int \<times> 'w exec \<Rightarrow> int \<times> 'w exec" where
  "take_turn env on x (Moves c) (refresh, st) = (refresh, exec_choice x c st)"
| "take_turn env on x Refreshes (refresh, sc, s, w) =
     (if on then (case refresh_round env refresh s w of (refresh, s, w) \<Rightarrow> (refresh, sc, s, w))
      else (refresh, sc, s, w))"

definition turns_all :: "'w env \<Rightarrow> bool \<Rightarrow> 'w executor \<Rightarrow> turn list \<Rightarrow> int \<times> 'w exec \<Rightarrow> int \<times> 'w exec" where
  "turns_all env on x ts st = fold (take_turn env on x) ts st"

definition live_core :: "'w env \<Rightarrow> bool \<Rightarrow> 'w executor \<Rightarrow> turn list \<Rightarrow> 'w core" where
  "live_core env on x ts s w = close_core x (snd (turns_all env on x ts (0, sched_init (cfg_of x), s, w)))"

lemma turns_all_simps [simp]:
  "turns_all env on x [] st = st"
  "turns_all env on x (t # ts) st = turns_all env on x ts (take_turn env on x t st)"
  by (simp_all add: turns_all_def)

text \<open>Without the refreshing goroutine the turns are the choices.\<close>

lemma turns_off: "snd (turns_all env False x ts (d, st)) = exec_all x (concat (map (\<lambda>t. case t of Moves c \<Rightarrow> [c] | Refreshes \<Rightarrow> []) ts)) st"
proof (induction ts arbitrary: d st)
  case (Cons t ts)
  then show ?case by (cases t; cases st) simp_all
qed simp

section \<open>A round and the build\<close>

text \<open>A round writes nothing but the credentials that were set last and the source of tokens.\<close>

definition round_writes :: "bld \<Rightarrow> string \<Rightarrow> string \<Rightarrow> bld" where
  "round_writes s auth tok = s\<lparr>prevGCRAuth := auth, TokenSource := Some (Inr tok)\<rparr>"

lemma UpdateDockerAccessToken_writes:
  "UpdateDockerAccessToken os tok s w = (r, s', w') \<Longrightarrow>
     s' = s \<or> prevGCRAuth s \<noteq> [] \<and> s' = s\<lparr>prevGCRAuth := token_auth tok\<rparr>"
  by (auto simp: UpdateDockerAccessToken_def run_token_container_def Let_def split: if_splits prod.splits option.splits)

lemma refresh_round_writes:
  assumes "refresh_round env d s w = (d', s', w')"
  shows "s' = s \<or> (\<exists>auth tok. s' = round_writes s auth tok \<and>
     (auth = prevGCRAuth s \<or> prevGCRAuth s \<noteq> [] \<and> auth = token_auth tok))"
proof -
  obtain q w1 where q: "get_token env w = (q, w1)" by fastforce
  show ?thesis
  proof (cases q)
    case (Inl e)
    then show ?thesis using assms q by (simp add: refresh_round_def)
  next
    case (Inr t)
    obtain r2 tok w2 where 2: "(if OnGCE env then (None, t, w1)
        else SetToken True (e_http env) (scope_decoder env) (token_form env) (token_encoder env) t w1) = (r2, tok, w2)"
      using prod_cases3 by blast
    obtain a s3 w3 where 3: "UpdateDockerAccessToken (e_os env) (AccessToken tok) s w2 = (a, s3, w3)"
      using prod_cases3 by blast
    have s': "s' = s3\<lparr>TokenSource := Some (Inr (AccessToken tok))\<rparr>"
      using assms unfolding refresh_round_def q Inr prod.case sum.case 2 3 by simp
    from UpdateDockerAccessToken_writes [OF 3] show ?thesis
    proof
      assume "s3 = s"
      then have "s' = round_writes s (prevGCRAuth s) (AccessToken tok)" using s' by (simp add: round_writes_def)
      then show ?thesis by blast
    next
      assume "prevGCRAuth s \<noteq> [] \<and> s3 = s\<lparr>prevGCRAuth := token_auth (AccessToken tok)\<rparr>"
      moreover from this have "s' = round_writes s (token_auth (AccessToken tok)) (AccessToken tok)"
        using s' by (simp add: round_writes_def)
      ultimately show ?thesis by blast
    qed
  qed
qed

lemma refresh_round_keeps:
  assumes "refresh_round env d s w = (d', s', w')"
  shows "stepStatus s' = stepStatus s" "outcome_of s' = outcome_of s" "timed n sc s' = timed n sc s"
    "prevGCRAuth s = [] \<longleftrightarrow> prevGCRAuth s' = []" "Kms s' = Kms s"
  using refresh_round_writes [OF assms] token_auth_nonempty
  by (auto simp: outcome_of_def timed_def well_shaped_def round_writes_def)

section \<open>Executions\<close>

lemma take_turn_cases:
  assumes "take_turn env on x t (d, sc, s, w) = (d', sc', s', w')"
  obtains (move) c where "t = Moves c" "d' = d" "exec_choice x c (sc, s, w) = (sc', s', w')"
    | (round) "t = Refreshes" "on" "sc' = sc" "refresh_round env d s w = (d', s', w')"
    | (off) "t = Refreshes" "\<not> on" "d' = d" "sc' = sc" "s' = s" "w' = w"
  using assms by (cases t; cases on) (auto split: prod.splits)

lemma turns_induct [consumes 1, case_names Nil turn]:
  assumes "turns_all env on x ts (d, sc, s, w) = (d', sc', s', w')"
    and "P d sc s w"
    and "\<And>t d sc s w d1 sc1 s1 w1. take_turn env on x t (d, sc, s, w) = (d1, sc1, s1, w1) \<Longrightarrow> P d sc s w \<Longrightarrow> P d1 sc1 s1 w1"
  shows "P d' sc' s' w'"
  using assms(1,2)
proof (induction ts arbitrary: d sc s w)
  case (Cons t ts)
  obtain d1 sc1 s1 w1 where t: "take_turn env on x t (d, sc, s, w) = (d1, sc1, s1, w1)" using prod_cases4 by blast
  show ?case using Cons.IH [of d1 sc1 s1 w1] Cons.prems t assms(3) [OF t] by simp
qed simp

lemma turns_reachable:
  assumes "turns_all env on x ts (d, sc, s, w) = (d', sc', s', w')" "reachable (cfg_of x) sc"
  shows "reachable (cfg_of x) sc'"
  using assms
  by (induction rule: turns_induct) (auto elim!: take_turn_cases dest: exec_choice_reachable)

lemma turns_synced:
  assumes "turns_all env on x ts (d, sc, s, w) = (d', sc', s', w')" "stepStatus s = statuses sc"
  shows "stepStatus s' = statuses sc'"
  using assms
  by (induction rule: turns_induct) (auto elim!: take_turn_cases simp: refresh_round_keeps dest: exec_choice_synced)

lemma turns_outcome:
  assumes "turns_all env on x ts (d, sc, s, w) = (d', sc', s', w')"
  shows "outcome_of s' = outcome_of s"
  using assms
  by (induction rule: turns_induct) (auto elim!: take_turn_cases simp: refresh_round_keeps dest: exec_choice_outcome)

lemma turns_timed:
  assumes "turns_all env on x ts (d, sc, s, w) = (d', sc', s', w')"
    and "reachable (cfg_of x) sc \<and> timed (length (Steps (Request (x_env x)))) sc s"
  shows "reachable (cfg_of x) sc' \<and> timed (length (Steps (Request (x_env x)))) sc' s'"
  using assms
proof (induction rule: turns_induct)
  case (turn t d sc s w d1 sc1 s1 w1)
  from turn(1) show ?case
  proof (cases rule: take_turn_cases)
    case (move c)
    then show ?thesis
      using exec_all_timed [OF refl, of x "[c]" sc s w sc1 s1 w1] turn(2,3) by simp
  next
    case (round)
    then show ?thesis using turn(2,3) refresh_round_keeps(3) [OF round(4)] by simp
  qed (use turn(2,3) in simp)
qed

lemma live_core_sched:
  assumes "live_core env on x ts s w = (r, s', w')" "stepStatus s = replicate (length (Steps (Request (x_env x)))) QUEUED"
  obtains sc where "reachable (cfg_of x) sc" "main_at sc = Returned r" "stepStatus s' = statuses sc"
proof -
  obtain d sc1 s1 w1 where e: "turns_all env on x ts (0, sched_init (cfg_of x), s, w) = (d, sc1, s1, w1)"
    using prod_cases4 by blast
  have c: "close_core x (sc1, s1, w1) = (r, s', w')" using assms(1) unfolding live_core_def e snd_conv .
  obtain sc where sc: "exec_all x (give_up (length (Steps (Request (x_env x))))) (sc1, s1, w1) = (sc, s', w')"
      "reachable (cfg_of x) sc" "main_at sc = Returned r"
    using close_core_sched [OF turns_reachable [OF e reach_init] c] by blast
  have "stepStatus s1 = statuses sc1"
    by (rule turns_synced [OF e]) (simp add: assms(2) sched_init_def cfg_of_def)
  then show thesis using that sc exec_all_synced [OF sc(1)] by blast
qed

lemma live_core_success:
  assumes "live_core env on x ts s w = (None, s', w')" "stepStatus s = replicate (length (Steps (Request (x_env x)))) QUEUED"
  shows "stepStatus s' = replicate (length (Steps (Request (x_env x)))) SUCCESS"
  using live_core_sched [OF assms] returned_success by metis

lemma live_core_keeps: "keeps_status (live_core env on x ts)"
  unfolding keeps_status_def
proof (intro allI impI)
  fix s w r s' w'
  assume run: "live_core env on x ts s w = (r, s', w')"
  obtain d sc1 s1 w1 where e: "turns_all env on x ts (0, sched_init (cfg_of x), s, w) = (d, sc1, s1, w1)"
    using prod_cases4 by blast
  have "outcome_of s' = outcome_of s1" using run unfolding live_core_def e snd_conv by (rule close_core_outcome)
  then show "b_status s' = b_status s \<and> b_err s' = b_err s \<and> DoneClosed s' = DoneClosed s"
    using turns_outcome [OF e] by (simp add: outcome_of_def)
qed

text \<open>The credentials of the build are those of some token.\<close>

lemma steps_keep_auth:
  assumes "exec_choice x c (sc, s, w) = (sc', s', w')"
  shows "prevGCRAuth s' = prevGCRAuth s \<and> TokenSource s' = TokenSource s"
  using assms
proof (cases rule: exec_choice_writes)
  case (begins i)
  then show ?thesis
    by (simp add: begin_step_def set_step_status_def write_if_def WriteMainEntry_def Let_def split: sum.split)
next
  case (fetches i r w1)
  then show ?thesis
    using fetch_step_writes [OF fetches]
    by (auto simp: end_pull_def end_step_def recordStepDigest_def split: option.splits)
next
  case (runs i r t w1)
  then show ?thesis using run_step_writes [OF runs] by (auto simp: end_step_def set_step_status_def)
qed simp

lemma turns_auth:
  assumes "turns_all env on x ts (d, sc, s, w) = (d', sc', s', w')" "\<exists>tok. prevGCRAuth s = token_auth tok"
  shows "\<exists>tok. prevGCRAuth s' = token_auth tok"
  using assms
proof (induction rule: turns_induct)
  case (turn t d sc s w d1 sc1 s1 w1)
  from turn(1) show ?case
  proof (cases rule: take_turn_cases)
    case (round)
    then show ?thesis using turn(2,3) refresh_round_writes [OF round(4)] by (auto simp: round_writes_def)
  next
    case (move c)
    then show ?thesis using turn(2,3) steps_keep_auth [OF move(3)] by simp
  qed (use turn(2,3) in simp)
qed

lemma start_services_auth:
  "start_services f env info s w = ((None, ds), s', w') \<Longrightarrow> \<not> dryRun f \<Longrightarrow>
     \<exists>tok. s' = s\<lparr>prevGCRAuth := token_auth tok, TokenSource := Some (Inr tok)\<rparr>"
  by (auto simp: start_services_def SetDockerAccessToken_def run_token_container_def Let_def
      split: if_splits prod.splits sum.splits option.splits)

section \<open>What a round does to the world\<close>

context world_frame
begin

lemma R_doRequest:
  assumes "doRequest http verb url body w = (r, w')" and http: "\<forall>verb url body w. R w (snd (http verb url body w))"
  shows "R w w'"
proof -
  have "w' = snd (http verb url body w)"
    using assms(1) by (auto simp: doRequest_def split: prod.splits sum.splits if_splits)
  then show ?thesis using http by simp
qed

lemma R_scope_attempts:
  assumes http: "\<forall>verb url body w. R w (snd (http verb url body w))"
  shows "scope_attempts http decode form n prev w = (r, w') \<Longrightarrow> R w w'"
proof (induction n arbitrary: prev w)
  case (Suc n)
  obtain q w1 where q: "doRequest http ''POST'' (googleTokenInfoHost @ ''/oauth2/v3/tokeninfo'') form w = (q, w1)" by fastforce
  have "w' = w1 \<or> (\<exists>e. scope_attempts http decode form n e w1 = (r, w'))"
    using Suc.prems q by (auto split: sum.splits)
  then show ?case using Suc.IH R_doRequest [OF q http] frame_trans by blast
qed (simp add: frame_refl)

lemma R_SetToken:
  assumes "SetToken l http decode form json tok w = (r, tok', w')" and http: "\<forall>verb url body w. R w (snd (http verb url body w))"
  shows "R w w'"
proof -
  obtain q w1 where q: "getScopes http decode (form (AccessToken tok)) w = (q, w1)" by fastforce
  have 1: "R w w1" using R_scope_attempts [OF http] q by (simp add: getScopes_def)
  have "w' = w1 \<or> (\<exists>t a. doRequest http ''POST'' (getAddress l @ ''/token'') (json t) w1 = (a, w'))"
    using assms(1) q by (auto simp: SetToken_def Let_def split: sum.splits prod.splits)
  then show ?thesis using 1 R_doRequest [OF _ http] frame_trans by blast
qed

lemma R_refresh_round:
  assumes "e_os env = os" "refresh_round env d s w = (d', s', w')"
    and http: "\<forall>verb url body w. R w (snd (e_http env verb url body w))"
  shows "R w w'"
proof -
  obtain q w1 where q: "get_token env w = (q, w1)" by fastforce
  have 1: "R w w1" using rf.R_AccessToken q assms(1) by (simp add: get_token_def)
  show ?thesis
  proof (cases q)
    case (Inl e)
    then show ?thesis using assms(2) q 1 by (simp add: refresh_round_def)
  next
    case (Inr tok)
    obtain r2 tok2 w2 where 2: "(if OnGCE env then (None, tok, w1)
        else SetToken True (e_http env) (scope_decoder env) (token_form env) (token_encoder env) tok w1) = (r2, tok2, w2)"
      using prod_cases3 by blast
    have "R w1 w2" using 2 R_SetToken [OF _ http] frame_refl by (auto split: if_splits)
    moreover obtain a s3 w3 where 3: "UpdateDockerAccessToken os (AccessToken tok2) s w2 = (a, s3, w3)"
      using prod_cases3 by blast
    moreover have "w' = w3"
      using assms(2) unfolding refresh_round_def q Inr prod.case sum.case 2 assms(1) 3 by simp
    ultimately show ?thesis using 1 R_UpdateDockerAccessToken frame_trans by blast
  qed
qed

lemma R_turns:
  assumes "turns_all env on x ts (d, sc, s, w) = (d', sc', s', w')"
    and "x_os x = os" "e_os env = os" "on \<Longrightarrow> \<forall>verb url body w. R w (snd (e_http env verb url body w))"
  shows "R w w'"
proof -
  have "R w w \<longrightarrow> R w w'"
    using assms(1)
  proof (induction rule: turns_induct)
    case (turn t d1 sc1 s1 w1 d2 sc2 s2 w2)
    from turn(1) have "R w1 w2"
      by (cases rule: take_turn_cases)
        (use assms(2-4) R_exec_choice R_refresh_round frame_refl in auto)
    then show ?case using turn(2) frame_trans by blast
  qed simp
  then show ?thesis using frame_refl by simp
qed

lemma R_live_core:
  assumes "live_core env on x ts s w = (r, s', w')"
    and "x_os x = os" "e_os env = os" "on \<Longrightarrow> \<forall>verb url body w. R w (snd (e_http env verb url body w))"
  shows "R w w'"
proof -
  obtain d sc1 s1 w1 where e: "turns_all env on x ts (0, sched_init (cfg_of x), s, w) = (d, sc1, s1, w1)"
    using prod_cases4 by blast
  have "close_core x (sc1, s1, w1) = (r, s', w')" using assms(1) unfolding live_core_def e snd_conv .
  then show ?thesis using R_close_core [OF assms(2)] R_turns [OF e assms(2-4)] frame_trans by blast
qed

end

section \<open>Properties\<close>

text \<open>
  C8: Refreshing the credentials does not disturb the build. After the services have started,
  every interleaving of the goroutines of the steps with rounds of the refreshing goroutine,
  whatever gcloud, docker and the metadata server answer, is for the steps an execution of
  the transition system of the scheduler, whose statuses are the ones reported; and the
  credentials that the next round replaces are at every moment those of a token, so that no round
  is refused for want of them.
\<close>

theorem refreshing_refines:
  assumes "start_services f env info (New_build now (Request (x_env x))) w0 = ((None, ds), s1, w1)" "\<not> dryRun f"
    and "turns_all env True x ts (0, sched_init (cfg_of x), s1\<lparr>Timing := tm\<rparr>, w1) = (d, sc, s, w)"
  shows "(\<exists>as. fires (cfg_of x) as (sched_init (cfg_of x)) = Some sc) \<and> stepStatus s = statuses sc \<and>
    (\<exists>tok. prevGCRAuth s = token_auth tok)"
proof -
  obtain tok where s1: "s1 = (New_build now (Request (x_env x)))\<lparr>prevGCRAuth := token_auth tok,
      TokenSource := Some (Inr tok)\<rparr>"
    using start_services_auth [OF assms(1,2)] by blast
  have "stepStatus s = statuses sc"
    by (rule turns_synced [OF assms(3)]) (simp add: s1 New_build_def sched_init_def cfg_of_def)
  moreover have "\<exists>tok. prevGCRAuth s = token_auth tok"
    by (rule turns_auth [OF assms(3)]) (use s1 in auto)
  ultimately show ?thesis using reachable_fires turns_reachable [OF assms(3) reach_init] by blast
qed

text \<open>Two steps, and a round of refreshing while the first one runs.\<close>

definition sample_turns :: "turn list" where
  "sample_turns = map Moves [CSpawn, CSpawn, CSpawn, CBegin 0, CFetch 0] @ [Refreshes] @ map Moves [CRun 0, CPass 1]"

theorem refreshing_refines_witness:
  "\<exists>ds s1 w1. start_services sample_flags (sample_env good_host) \<lparr>ProjectID = ''p'', ProjectNum = 1\<rparr>
       (New_build 0 (Request (x_env sample_executor))) idle = ((None, ds), s1, w1) \<and>
     (let st = turns_all (sample_env good_host) True sample_executor sample_turns
         (0, sched_init (cfg_of sample_executor), s1, w1)
      in gors (fst (snd st)) = [Closed, Waiting []] \<and> (\<exists>tok. prevGCRAuth (fst (snd (snd st))) = token_auth tok))"
proof -
  let ?r = "start_services sample_flags (sample_env good_host) \<lparr>ProjectID = ''p'', ProjectNum = 1\<rparr>
     (New_build 0 (Request (x_env sample_executor))) idle"
  let ?turns = "\<lambda>s w. turns_all (sample_env good_host) True sample_executor sample_turns
     (0, sched_init (cfg_of sample_executor), s, w)"
  have "fst (fst ?r) = None \<and> gors (fst (snd (?turns (fst (snd ?r)) (snd (snd ?r))))) = [Closed, Waiting []]" by code_simp
  then obtain ds s1 w1 where r: "?r = ((None, ds), s1, w1)" "gors (fst (snd (?turns s1 w1))) = [Closed, Waiting []]"
    by (metis prod.collapse fst_conv snd_conv)
  obtain d sc s w where e: "?turns s1 w1 = (d, sc, s, w)" using prod_cases4 by blast
  have "s1 = s1\<lparr>Timing := Timing s1\<rparr>" by simp
  then have "\<exists>tok. prevGCRAuth s = token_auth tok"
    using refreshing_refines [OF r(1), of sample_turns "Timing s1" d sc s w] e by (simp add: sample_flags_def)
  then show ?thesis using r e by auto
qed

end
