(* ===== verification/Local_Kms.thy ===== *)
theory Local_Kms
  imports Local_Refresh
begin

text \<open>
  The token that the client of the key service sends, in a build whose steps run beside the
  goroutine that refreshes the credentials (\<open>GetKMSClient\<close> of \<open>build/build.go\<close>,
  \<open>TokenTransport\<close> of \<open>common/common.go\<close> and \<open>localbuilder_main.go\<close>). The source of tokens is
  never nil when a step runs, so that the transport cannot panic; but the client is made once and
  keeps the source it was made with, so that a round of refreshing does not reach it.
\<close>

section \<open>The invariant of the client\<close>

text \<open>There is a source of tokens, and a client that was made has one, possibly an older one.\<close>

definition some_token :: "token_source option \<Rightarrow> bool" where
  "some_token ts \<longleftrightarrow> (\<exists>tok. ts = Some (Inr tok))"

definition client_of :: "exec_env \<Rightarrow> kms \<Rightarrow> bool" where
  "client_of e = client_made some_token (dryrun e) (cloudkms_New e) (DefaultTransport e)"

definition token_inv :: "exec_env \<Rightarrow> bld \<Rightarrow> bool" where
  "token_inv e s \<longleftrightarrow> some_token (TokenSource s) \<and> (\<forall>k. Kms s = Some k \<longrightarrow> client_of e k)"

lemma kms_step_inv:
  assumes "kms_step e s k" "token_inv e s"
  shows "(\<forall>c. k = Some c \<longrightarrow> client_of e c) \<and> (\<forall>c. Kms s = Some c \<longrightarrow> k = Some c)"
  using assms client_made_mono [where Q = some_token]
  by (auto simp: kms_step_def token_inv_def client_of_def)

lemma steps_kms:
  assumes "exec_choice x c (sc, s, w) = (sc', s', w')"
  shows "kms_step (x_env x) s (Kms s')"
proof -
  have same: "kms_step (x_env x) s (Kms s)" by (simp add: kms_step_def)
  from assms show ?thesis
  proof (cases rule: exec_choice_writes)
    case (begins i)
    then have "Kms s' = Kms s"
      by (simp add: begin_step_def set_step_status_def write_if_def WriteMainEntry_def Let_def split: sum.split)
    then show ?thesis using same by simp
  next
    case (fetches i r w1)
    then have "Kms s' = Kms s"
      using fetch_step_writes [OF fetches]
      by (auto simp: end_pull_def end_step_def recordStepDigest_def split: option.splits)
    then show ?thesis using same by simp
  next
    case (runs i r t w1)
    then show ?thesis using run_step_writes [OF runs] by (auto simp: end_step_def set_step_status_def)
  qed (use same in simp)
qed

lemma turns_token_inv:
  assumes "turns_all env on x ts (d, sc, s, w) = (d', sc', s', w')" "token_inv (x_env x) s"
  shows "token_inv (x_env x) s' \<and> (\<forall>c. Kms s = Some c \<longrightarrow> Kms s' = Some c)"
proof -
  have "token_inv (x_env x) s \<and> (\<forall>c. Kms s = Some c \<longrightarrow> Kms s = Some c)" using assms(2) by simp
  from assms(1) this show ?thesis
  proof (induction rule: turns_induct)
    case (turn t d1 sc1 s1 w1 d2 sc2 s2 w2)
    note prev = turn(2) [OF turn(3)]
    from turn(1) show ?case
    proof (cases rule: take_turn_cases)
      case (move c)
      have inv: "token_inv (x_env x) s1" using prev by blast
      note k = kms_step_inv [OF steps_kms [OF move(3)] inv]
      have "TokenSource s2 = TokenSource s1" using steps_keep_auth [OF move(3)] by blast
      then have "token_inv (x_env x) s2" using inv k unfolding token_inv_def by metis
      then show ?thesis using prev k by blast
    next
      case (round)
      have "some_token (TokenSource s2)"
        using refresh_round_writes [OF round(4)] prev
        by (elim disjE exE conjE) (simp_all add: token_inv_def some_token_def round_writes_def)
      then show ?thesis using prev refresh_round_keeps(5) [OF round(4)] by (simp add: token_inv_def)
    qed (use prev in simp)
  qed
qed

lemma start_services_token_inv:
  assumes "start_services f env info (New_build now b) w = ((None, ds), s, w')" "\<not> dryRun f"
  shows "token_inv e (s\<lparr>Timing := tm\<rparr>)"
  using start_services_auth [OF assms] by (auto simp: token_inv_def some_token_def New_build_def)

section \<open>A build with a secret\<close>

text \<open>
  A service that answers with the header its request came with, and a host on which gcloud
  names a new token each time: the number of commands issued before.
\<close>

definition echo_service :: "transport \<Rightarrow> err + service" where
  "echo_service next_trip =
     Inr (\<lambda>key enc. case next_trip \<lparr>req_URL = key, req_Body = enc, req_Header = []\<rparr> of
                      Inl e \<Rightarrow> Inl e
                    | Inr a \<Rightarrow> Inr \<lparr>Plaintext = a\<rparr>)"

definition echo_transport :: transport where
  "echo_transport req =
     (case map_of (req_Header req) ''Authorization'' of
        None \<Rightarrow> Inl (ErrText ''401'')
      | Some v \<Rightarrow> Inr (EncodeToString v))"

definition token_host :: host where
  "token_host h c args = Exits (if hd args = ''gcloud'' then [(True, show_nat (length h))] else []) None"

definition secret_executor :: "machine executor" where
  "secret_executor =
     \<lparr>x_os = real_os token_host (\<lambda>m. int (length (logged m))) (\<lambda>_. ''u'') (\<lambda>_. Some []) (\<lambda>_. 0),
      x_env = \<lparr>Request = empty_build\<lparr>Steps := [empty_step\<lparr>s_Name := ''a'', s_SecretEnv := [''PW'']\<rparr>, empty_step],
          Secrets := [\<lparr>KmsKeyName = ''k'', SecretEnvs = [(''PW'', ''x'')]\<rparr>]\<rparr>,
        hostWorkspaceDir = ''vol'', is_local = True, dryrun = False, osTmp = ''/tmp'',
        cloudkms_New = echo_service, DefaultTransport = echo_transport, MkdirAll = (\<lambda>_. None),
        output_file = (\<lambda>_. None)\<rparr>,
      x_images = []\<rparr>"

definition token_env :: "machine env" where
  "token_env = (sample_env token_host)
     \<lparr>helper_decoder := (\<lambda>out. Inr \<lparr>hc_AccessToken = ''token'' @ out, hc_TokenExpiry = [], hc_Account = ''a''\<rparr>)\<rparr>"

definition secret_turns :: "turn list" where
  "secret_turns = map Moves [CSpawn, CSpawn, CSpawn, CBegin 0, CFetch 0, CRun 0]"

section \<open>Properties\<close>

text \<open>
  C9: The client of the key service. After the services have started, in every interleaving of
  the steps with rounds of refreshing, the build has a source of tokens, and the client, as
  soon as a step has needed it, is the same for the rest of the build and sends one token, never
  a nil one: no request of it panics. What a round of refreshing sets does not change it.
\<close>

theorem key_client_token:
  assumes "start_services f env info (New_build now (Request (x_env x))) w0 = ((None, ds), s1, w1)" "\<not> dryRun f"
    and "turns_all env True x ts (0, sched_init (cfg_of x), s1\<lparr>Timing := tm\<rparr>, w1) = (d, sc, s, w)"
    and "turns_all env True x us (d, sc, s, w) = (d', sc', s', w')"
  shows "(\<exists>tok. TokenSource s' = Some (Inr tok)) \<and>
    (\<forall>k. Kms s = Some k \<longrightarrow> Kms s' = Some k \<and>
       (if dryrun (x_env x) then k = dryRunKMS_Decrypt
        else \<exists>tok svc. cloudkms_New (x_env x) (RoundTrip (Some (Inr tok)) (DefaultTransport (x_env x))) = Inr svc \<and>
               k = realKMS_Decrypt svc))"
proof -
  have 0: "token_inv (x_env x) (s1\<lparr>Timing := tm\<rparr>)" by (rule start_services_token_inv [OF assms(1,2)])
  have 1: "token_inv (x_env x) s" using turns_token_inv [OF assms(3) 0] by simp
  have 2: "token_inv (x_env x) s'" "\<forall>c. Kms s = Some c \<longrightarrow> Kms s' = Some c"
    using turns_token_inv [OF assms(4) 1] by simp_all
  have "if dryrun (x_env x) then k = dryRunKMS_Decrypt
        else \<exists>tok svc. cloudkms_New (x_env x) (RoundTrip (Some (Inr tok)) (DefaultTransport (x_env x))) = Inr svc \<and>
               k = realKMS_Decrypt svc" if "Kms s = Some k" for k
    using 1 that unfolding token_inv_def client_of_def client_made_def some_token_def by metis
  then show ?thesis
    using 2 by (simp add: token_inv_def some_token_def)
qed

text \<open>
  The first step needs the client, and then a round of refreshing takes place: the source has
  the token of the second call of gcloud, the client still sends that of the first.
\<close>

theorem key_client_token_witness:
  "\<exists>ds s1 w1. start_services sample_flags token_env \<lparr>ProjectID = ''p'', ProjectNum = 1\<rparr>
       (New_build 0 (Request (x_env secret_executor))) idle = ((None, ds), s1, w1) \<and>
     (let st = turns_all token_env True secret_executor secret_turns (0, sched_init (cfg_of secret_executor), s1, w1);
          st' = turns_all token_env True secret_executor [Refreshes] st
      in TokenSource s1 = Some (Inr ''token0'') \<and> TokenSource (fst (snd (snd st'))) = Some (Inr ''token8'') \<and>
         (\<exists>k. Kms (fst (snd (snd st'))) = Some k \<and> k ''k'' [] = Inr (EncodeToString ''Bearer token0'') \<and>
            (\<exists>tok svc. echo_service (RoundTrip (Some (Inr tok)) echo_transport) = Inr svc \<and> k = realKMS_Decrypt svc)))"
proof -
  let ?r = "start_services sample_flags token_env \<lparr>ProjectID = ''p'', ProjectNum = 1\<rparr>
     (New_build 0 (Request (x_env secret_executor))) idle"
  let ?run = "\<lambda>s w. turns_all token_env True secret_executor secret_turns (0, sched_init (cfg_of secret_executor), s, w)"
  let ?round = "turns_all token_env True secret_executor [Refreshes]"
  have v: "case ?r of (r, s1, w1) \<Rightarrow> fst r = None \<and> TokenSource s1 = Some (Inr ''token0'') \<and>
      (case ?round (?run s1 w1) of (d, sc, s, w) \<Rightarrow> TokenSource s = Some (Inr ''token8'')) \<and>
      (case Kms (fst (snd (snd (?run s1 w1)))) of None \<Rightarrow> False | Some k \<Rightarrow> k ''k'' [] = Inr (EncodeToString ''Bearer token0''))"
    by code_simp
  obtain ds s1 w1 where r: "?r = ((None, ds), s1, w1)"
    using v by (cases ?r) (auto split: prod.splits)
  obtain d sc s w where e1: "?run s1 w1 = (d, sc, s, w)" using prod_cases4 by blast
  obtain d' sc' s' w' where e2: "?round (d, sc, s, w) = (d', sc', s', w')" using prod_cases4 by blast
  have same: "s1\<lparr>Timing := Timing s1\<rparr> = s1" by simp
  have t: "TokenSource s1 = Some (Inr ''token0'')" "TokenSource s' = Some (Inr ''token8'')"
    using v unfolding r e1 e2 prod.case fst_conv by simp_all
  obtain k where k: "Kms s = Some k" "k ''k'' [] = Inr (EncodeToString ''Bearer token0'')"
    using v unfolding r e1 prod.case fst_conv snd_conv by (cases "Kms s") simp_all
  have env: "\<not> dryrun (x_env secret_executor)" "cloudkms_New (x_env secret_executor) = echo_service"
      "DefaultTransport (x_env secret_executor) = echo_transport" by (simp_all add: secret_executor_def)
  have "\<not> dryRun sample_flags" by (simp add: sample_flags_def)
  from key_client_token [OF r this, of secret_turns "Timing s1" d sc s w "[Refreshes]" d' sc' s' w']
  have "Kms s' = Some k" "\<exists>tok svc. echo_service (RoundTrip (Some (Inr tok)) echo_transport) = Inr svc \<and> k = realKMS_Decrypt svc"
    using e1 e2 k(1) env unfolding same by simp_all
  then show ?thesis using r e1 e2 t k(2) by (simp add: Let_def)
qed

end
