(* ===== verification/Late_Steps.thy ===== *)
theory Late_Steps
  imports Build_Exec
begin

text \<open>
  What the goroutines of the steps do after \<open>runBuildSteps\<close> has returned
  (\<open>build/build.go\<close>). The function returns as soon as it has received one error and cancels
  the context, but it does not wait for the goroutines. After a success none of them can
  do anything any more; after a failure a goroutine that has its image still runs its
  container, while the containers are removed and the volumes deleted.
\<close>

section \<open>After a success\<close>

text \<open>Every goroutine has closed its channel and the main goroutine has left the loops.\<close>

definition at_rest :: "sched \<Rightarrow> bool" where
  "at_rest sc \<longleftrightarrow> main_at sc = Returned None \<and> (\<forall>p\<in>set (gors sc). p = Closed)"

lemma at_restD: "at_rest sc \<Longrightarrow> i < length (gors sc) \<Longrightarrow> gors sc ! i = Closed"
  by (simp add: at_rest_def)

lemma reachable_at_rest:
  assumes "reachable cfg sc" "main_at sc = Returned None"
  shows "at_rest sc"
  using reachable_inv [OF assms(1)] assms(2) unfolding at_rest_def sched_inv_def main_ok_def
  by (auto simp: in_set_conv_nth pc_of_def)

text \<open>The only move that is left is the end of the context.\<close>

lemma at_rest_fire:
  assumes "fire cfg a sc = Some sc'" "at_rest sc"
  shows "at_rest sc' \<and> (\<exists>e. a = Interrupt e)"
proof -
  have m: "main_at sc = Returned None" using assms(2) by (simp add: at_rest_def)
  note c = at_restD [OF assms(2)]
  show ?thesis
    using assms(1) m c
    by (cases a) (auto simp: at_rest_def in_set_conv_nth elim!: fire_spawnE fire_see_closedE fire_see_ctxE fire_receiveE
        fire_verifyE fire_passE fire_abandonE fire_beginE fire_fetchedE fire_ranE split: if_splits)
qed

lemma at_rest_move:
  assumes "move x a s1 w1 (sc, s, w) = (sc', s', w')" "at_rest sc"
  shows "at_rest sc' \<and> ((\<forall>e. a \<noteq> Interrupt e) \<longrightarrow> s' = s \<and> w' = w)"
  using assms at_rest_fire [of "cfg_of x" a sc] by (auto simp: move_def split: option.splits)

lemma at_rest_choice:
  assumes "exec_choice x c (sc, s, w) = (sc', s', w')" "at_rest sc"
  shows "at_rest sc' \<and> s' = s \<and> w' = w"
proof (cases c)
  case (CFetch i)
  obtain r s1 w1 where "fetch_step x i s w = (r, s1, w1)" using prod_cases3 by blast
  then have "move x (Fetched i r) s1 w1 (sc, s, w) = (sc', s', w')" using assms(1) CFetch by simp
  from at_rest_move [OF this assms(2)] show ?thesis by simp
next
  case (CRun i)
  obtain r t s1 w1 where "run_step x i s w = ((r, t), s1, w1)" by (metis prod.collapse)
  then have "move x (Ran i r t) s1 w1 (sc, s, w) = (sc', s', w')" using assms(1) CRun by simp
  from at_rest_move [OF this assms(2)] show ?thesis by simp
next
  case CVerify
  obtain m w1 where "missing_images (x_os x) (x_images x) w = (m, w1)" by fastforce
  then have "move x (Verify (filter (\<lambda>i. i \<notin> set m) (x_images x))) s w1 (sc, s, w) = (sc', s', w')"
    using assms(1) CVerify by simp
  from at_rest_move [OF this assms(2)] show ?thesis by simp
next
  case (CInterrupt e)
  then have m: "move x (Interrupt e) s w (sc, s, w) = (sc', s', w')" using assms(1) by simp
  have "s' = s \<and> w' = w" using m by (auto simp: move_def split: option.splits)
  then show ?thesis using at_rest_move [OF m assms(2)] by simp
qed (use assms(1) in \<open>auto dest!: at_rest_move [OF _ assms(2)]\<close>)

lemma at_rest_all:
  "exec_all x cs (sc, s, w) = (sc', s', w') \<Longrightarrow> at_rest sc \<Longrightarrow> s' = s \<and> w' = w"
proof (induction cs arbitrary: sc)
  case (Cons c cs)
  obtain sc1 s1 w1 where c: "exec_choice x c (sc, s, w) = (sc1, s1, w1)" using prod_cases3 by blast
  show ?case using Cons at_rest_choice [OF c Cons.prems(2)] c by simp
qed simp

section \<open>After a failure\<close>

text \<open>
  Two independent steps, the first of which fails, on a host that runs the second one
  whenever it is started.
\<close>

definition failing_host :: host where
  "failing_host h c args = Exits [] (if List.member args ''step_0'' \<and> List.member args ''--privileged''
     then Some (ErrText ''exit status 1'') else None)"

definition racing_executor :: "machine executor" where
  "racing_executor = sample_executor
     \<lparr>x_os := real_os failing_host (\<lambda>m. int (length (logged m))) (\<lambda>_. ''u'') (\<lambda>_. Some []) (\<lambda>_. 0),
      x_env := (x_env sample_executor)
        \<lparr>Request := empty_build\<lparr>Steps := [empty_step\<lparr>s_WaitFor := [''-'']\<rparr>, empty_step\<lparr>s_WaitFor := [''-'']\<rparr>]\<rparr>\<rparr>\<rparr>"

definition racing_choices :: "choice list" where
  "racing_choices = [CSpawn, CSpawn, CSpawn, CBegin 0, CFetch 0, CBegin 1, CFetch 1, CRun 0, CReceive 0]"

text \<open>
  The first failure ends the build, and the second container is started afterwards: its
  command is the last one issued.
\<close>

lemma late_container:
  "let st = exec_all racing_executor racing_choices
         (sched_init (cfg_of racing_executor), New_build 0 (Request (x_env racing_executor)), idle);
       st' = exec_choice racing_executor (CRun 1) st
   in (case main_at (fst st) of Returned (Some e) \<Rightarrow> True | _ \<Rightarrow> False) \<and>
      \<not> list_ex (\<lambda>args. List.member args (step_container 1)) (logged (snd (snd st))) \<and>
      take 5 (List.last (started (snd (snd st')))) = [''docker'', ''run'', ''--rm'', ''--name'', step_container 1]"
  by code_simp

section \<open>Properties\<close>

text \<open>
  C10: A build whose steps have returned without an error is quiet. Whatever the Go scheduler
  chooses afterwards, no goroutine of a step issues a command or writes to the build: no
  container is started while the containers are removed, the volumes deleted and the images
  pushed.
\<close>

theorem success_is_quiet:
  assumes "exec_all x cs (sched_init (cfg_of x), s0, w0) = (sc, s, w)" "main_at sc = Returned None"
  shows "snd (exec_all x ds (sc, s, w)) = (s, w)"
proof -
  have "reachable (cfg_of x) sc" using exec_all_fires [OF assms(1)] fires_reachable [OF reach_init] by blast
  then have r: "at_rest sc" using reachable_at_rest assms(2) by blast
  obtain sc' s' w' where e: "exec_all x ds (sc, s, w) = (sc', s', w')" using prod_cases3 by blast
  show ?thesis using at_rest_all [OF e r] e by simp
qed

theorem success_is_quiet_witness:
  "let st = exec_all sample_executor (sample_choices @ [CRun 1, CSeeClosed, CSeeClosed, CVerify])
         (sched_init (cfg_of sample_executor), New_build 0 (Request (x_env sample_executor)), idle)
   in main_at (fst st) = Returned None \<and> snd (exec_all sample_executor [CInterrupt Canceled, CRun 0, CRun 1] st) = snd st"
proof -
  let ?st = "exec_all sample_executor (sample_choices @ [CRun 1, CSeeClosed, CSeeClosed, CVerify])
     (sched_init (cfg_of sample_executor), New_build 0 (Request (x_env sample_executor)), idle)"
  obtain sc s w where e: "?st = (sc, s, w)" using prod_cases3 by blast
  have "main_at (fst ?st) = Returned None" by code_simp
  then have m: "main_at sc = Returned None" using e by simp
  from success_is_quiet [OF e m] show ?thesis unfolding e Let_def fst_conv snd_conv using m by blast
qed

end
