(* ===== verification/Step_Log.thy ===== *)
theory Step_Log
  imports Build_Exec Local_Main
begin

text \<open>
  What the steps of a build write to the console: \<open>stdoutLogger\<close> of \<open>localbuilder_main.go\<close>,
  whose writers put a label before every line, and the writers that \<open>fetchBuilder\<close> and
  \<open>runStep\<close> of \<open>build/build.go\<close> ask it for. Several steps write at a time; the label is all that tells
  their lines apart.
\<close>

section \<open>The console\<close>

text \<open>What a write does: the stream (\<open>True\<close> is standard output) and the line, for every line.\<close>

definition MakeWriter :: "string \<Rightarrow> bool \<Rightarrow> string \<Rightarrow> (bool \<times> string) list" where
  "MakeWriter label stdout b = map (Pair stdout) (fst (prefix_Write label b))"

definition console :: "machine \<Rightarrow> (bool \<times> string) list" where
  "console m = concat (map (\<lambda>(label, stdout, b). MakeWriter label stdout b) (printed m))"

text \<open>The writer keeps no state: a line that reaches it in two writes becomes two lines.\<close>

lemma split_line:
  "MakeWriter label out (''a'' @ ''b'') = [(out, label @ '': ab'' @ [CHR 0x0A])]"
  "MakeWriter label out ''a'' @ MakeWriter label out ''b'' =
     [(out, label @ '': a'' @ [CHR 0x0A]), (out, label @ '': b'' @ [CHR 0x0A])]"
  by (simp_all add: MakeWriter_def prefix_Write_def MaxScanTokenSize_def drop_last_cr_def)

section \<open>Writers of one step\<close>

text \<open>All that is written between two worlds has one label.\<close>

definition adds_lines :: "('w \<Rightarrow> (string \<times> bool \<times> string) list) \<Rightarrow> string \<Rightarrow> 'w \<Rightarrow> 'w \<Rightarrow> bool" where
  "adds_lines written label w w' \<longleftrightarrow> (\<exists>ls. written w' = written w @ ls \<and> (\<forall>l\<in>set ls. fst l = label))"

locale logging_client =
  fixes os :: "'w os" and written :: "'w \<Rightarrow> (string \<times> bool \<times> string) list"
  assumes run_written: "written (snd (Run os c args w)) = written w"
    and sleep_written: "written (Sleep os d w) = written w"
    and log_written: "written (LogWrite os label out b w) = written w @ [(label, out, b)]"

sublocale logging_client \<subseteq> labels: run_frame "Run os" "adds_lines written label" for label
proof unfold_locales
  fix u v w
  assume "adds_lines written label u v" "adds_lines written label v w"
  then obtain xs ys where "written v = written u @ xs" "\<forall>l\<in>set xs. fst l = label"
      "written w = written v @ ys" "\<forall>l\<in>set ys. fst l = label"
    by (auto simp: adds_lines_def)
  then show "adds_lines written label u w" unfolding adds_lines_def by (intro exI [of _ "xs @ ys"]) auto
qed (auto simp: adds_lines_def run_written)

context logging_client
begin

lemma writes_label: "adds_lines written label w (LogWrite os label out b w)"
  by (simp add: adds_lines_def log_written)

lemma log_answer_label: "adds_lines written label w (log_answer os (\<lambda>_. label) a w)"
proof -
  have "adds_lines written label w (fold (\<lambda>(out, b). LogWrite os label out b) xs w)" for xs
  proof (induction xs arbitrary: w)
    case (Cons x xs)
    obtain out b where x: "x = (out, b)" by fastforce
    show ?case using labels.R_trans [OF writes_label Cons.IH] by (simp add: x)
  qed (simp add: labels.R_refl)
  then show ?thesis by (simp add: log_answer_def)
qed

lemma sleep_label: "adds_lines written label w (sleep_backoff os k w)"
  by (simp add: adds_lines_def sleep_backoff_def sleep_written)

lemma inspect_label: "dockerInspect os img w = (r, w') \<Longrightarrow> adds_lines written label w w'"
  by (auto simp: dockerInspect_def dockerCmdOutput_def runAndScrape_def intro: labels.R_runD
      split: prod.splits option.splits)

lemma pull_label:
  assumes "dockerPull os label img w = (r, w')"
  shows "adds_lines written label w w'"
proof -
  obtain a w1 where a: "Run os BuildCtx (pull_args (newUUID os w) img) w = (a, w1)" by fastforce
  then have "w' = log_answer os (\<lambda>_. label) a w1" using assms by (simp add: dockerPull_def)
  then show ?thesis using labels.R_trans [OF labels.R_runD [OF a] log_answer_label] by simp
qed

lemma pulls_label:
  assumes "dockerPullWithRetries os label img 0 s w = (r, s', w')"
  shows "adds_lines written label w w'"
proof -
  obtain q w1 where q: "first_success maxPushRetries (dockerPull os label img) (sleep_backoff os) 0 w = (q, w1)"
    by fastforce
  then have "w' = w1"
    using assms dockerPullWithRetries_first_success [of 0 os label img s w] by (cases q) (simp_all add: out_of_retries_def)
  then show ?thesis using labels.R_first_success [OF pull_label sleep_label q] by simp
qed

lemma fetchBuilder_label:
  assumes "fetchBuilder os b i s w = (r, s', w')"
  shows "adds_lines written (stepIdentifier b i) w w'"
proof -
  let ?name = "s_Name (Steps b ! i)" and ?label = "stepIdentifier b i"
  obtain q w1 where q: "dockerInspect os ?name w = (q, w1)" by fastforce
  have said: "adds_lines written ?label w (LogWrite os ?label out msg w1)" for out msg
    by (rule labels.R_trans [OF inspect_label [OF q] writes_label])
  obtain p s2 w2 where p: "dockerPullWithRetries os ?label ?name 0 s
      (LogWrite os ?label True (''Pulling image: '' @ ?name @ [CHR 0x0A]) w1) = (p, s2, w2)"
    using prod_cases3 by blast
  have "w' = w1 \<or> w' = w2 \<or> (\<exists>msg. w' = LogWrite os ?label True msg w1)"
    using assms q p by (auto simp: fetchBuilder_def Let_def split: sum.splits if_splits)
  then show ?thesis using inspect_label [OF q] said labels.R_trans [OF said pulls_label [OF p]] by blast
qed

lemma runStep_label:
  assumes "runStep os env timeout i d s w = (r, s', w')"
  shows "adds_lines written (stepIdentifier (Request env) i) w w'"
proof -
  let ?label = "stepIdentifier (Request env) i"
  have ran: "adds_lines written ?label w (log_answer os (\<lambda>_. ?label) a w1)" if "Run os c cmd w = (a, w1)" for c cmd a w1
    by (rule labels.R_trans [OF labels.R_runD [OF that] log_answer_label])
  show ?thesis
    using assms by (auto simp: runStep_def Let_def labels.R_refl ran split: option.splits sum.splits prod.splits)
qed

lemma missing_images_written: "missing_images os imgs w = (r, w') \<Longrightarrow> written w' = written w"
proof (induction imgs arbitrary: w r)
  case (Cons img imgs)
  obtain q w1 where q: "imageIsLocal os img w = (q, w1)" by fastforce
  obtain m w2 where m: "missing_images os imgs w1 = (m, w2)" by fastforce
  have "written w1 = written w"
    using q run_written by (auto simp: imageIsLocal_def dockerCmdOutput_def runAndScrape_def
        split: prod.splits option.splits dest!: sym [of "Run os BuildCtx _ _"]) (metis snd_conv)+
  then show ?case using Cons q m by auto
qed simp

end

interpretation rlog: logging_client "real_os host clock uuids json random" printed
  for host clock uuids json random
  by unfold_locales (simp_all add: real_os_def RealRunner_Run_def Let_def split: outcome.split)

section \<open>What a label tells\<close>

text \<open>The number of the step can be read off the label and the colon behind it.\<close>

lemma show_nat_digits: "\<forall>c\<in>set (show_nat n). digit_value c \<noteq> None"
proof (induction n rule: show_nat.induct)
  case (1 n)
  have d: "digit_value (char_of (48 + k)) \<noteq> None" if "k < 10" for k :: nat using digit_value_char [OF that] by simp
  show ?case
  proof (cases "n < 10")
    case True
    then have "show_nat n = [char_of (48 + n)]" by (subst show_nat.simps) simp
    then show ?thesis using d [OF True] by simp
  next
    case False
    then have "show_nat n = show_nat (n div 10) @ [char_of (48 + n mod 10)]" by (subst show_nat.simps) simp
    moreover have "n mod 10 < 10" by simp
    ultimately show ?thesis using 1 [OF False] d by (metis Un_iff empty_iff insert_iff list.set set_append)
  qed
qed

definition number_part :: "string \<Rightarrow> string" where
  "number_part l = takeWhile (\<lambda>c. digit_value c \<noteq> None) l"

lemma number_part_show: "digit_value c = None \<Longrightarrow> number_part (show_nat i @ c # cs) = show_nat i"
  using show_nat_digits [of i] unfolding number_part_def by (subst takeWhile_append2) simp_all

lemma label_number:
  assumes "HasMultipleSteps b"
  shows "number_part (drop 6 (stepIdentifier b i @ '': '' @ rest)) = show_nat i"
proof -
  have "digit_value CHR '':'' = None" "digit_value CHR '' '' = None" by (simp_all add: digit_value_def)
  then have n: "number_part (show_nat i @ '': '' @ rest) = show_nat i"
      "number_part (show_nat i @ '' - '' @ l) = show_nat i" for l
    using number_part_show by simp_all
  have six: "drop 6 (''Step #'' @ l) = l" for l :: string by simp
  show ?thesis
  proof (cases "s_Id (Steps b ! i) = []")
    case True
    then have "stepIdentifier b i = ''Step #'' @ show_nat i" using assms unfolding stepIdentifier_def by presburger
    then show ?thesis using n(1) six by (metis append_assoc)
  next
    case False
    then have "stepIdentifier b i = ''Step #'' @ show_nat i @ '' - '' @ Quote (s_Id (Steps b ! i))"
      using assms unfolding stepIdentifier_def by presburger
    then show ?thesis using n(2) six by (metis append_assoc)
  qed
qed

lemma label_inj:
  assumes "HasMultipleSteps b" "has_prefix (stepIdentifier b i @ '': '' @ rest) (stepIdentifier b j @ '': '')"
  shows "j = i"
proof -
  obtain t where t: "stepIdentifier b i @ '': '' @ rest = stepIdentifier b j @ '': '' @ t"
    using assms(2) unfolding has_prefix_iff append_assoc by blast
  have "show_nat i = show_nat j"
    using label_number [OF assms(1), of i rest] label_number [OF assms(1), of j t] unfolding t by (rule trans [OF sym])
  then show ?thesis using show_nat_inj by metis
qed

lemma MakeWriter_lines:
  assumes "(out, line) \<in> set (MakeWriter label stdout b)"
  shows "\<exists>rest. line = label @ '': '' @ rest"
  using assms by (auto simp: MakeWriter_def prefix_Write_def split: prod.splits)

lemma exec_choice_labels:
  assumes "x_os x = real_os host clock uuids json random" "exec_choice x c (sc, s, m) = (sc', s', m')"
  shows "\<exists>ls. printed m' = printed m @ ls \<and>
    (\<forall>l\<in>set ls. \<exists>i. (c = CFetch i \<or> c = CRun i) \<and> fst l = stepIdentifier (Request (x_env x)) i)"
proof -
  have same: ?thesis if "m' = m \<or> printed m' = printed m" using that by auto
  have one: ?thesis if "adds_lines printed (stepIdentifier (Request (x_env x)) i) m m1" "m' = m \<or> m' = m1"
      "c = CFetch i \<or> c = CRun i" for i m1
    using that same by (auto simp: adds_lines_def)
  have moved: "m2 = m \<or> m2 = m1" if "move x a s1 m1 (sc, s, m) = (sc2, s2, m2)" for a s1 m1 sc2 s2 m2
    using that by (auto simp: move_def split: option.splits)
  show ?thesis
  proof (cases c)
    case (CFetch i)
    obtain q s1 m1 where f: "fetchBuilder (x_os x) (Request (x_env x)) i s m = (q, s1, m1)" using prod_cases3 by blast
    then obtain r s2 where "fetch_step x i s m = (r, s2, m1)" by (cases q) (simp_all add: fetch_step_def Let_def)
    then have "move x (Fetched i r) s2 m1 (sc, s, m) = (sc', s', m')" using assms(2) CFetch by simp
    from moved [OF this] show ?thesis
      using one [OF rlog.fetchBuilder_label [OF f [unfolded assms(1)]]] CFetch by blast
  next
    case (CRun i)
    obtain q s1 m1 where f: "runStep (x_os x) (x_env x) (step_limit (Request (x_env x)) i) i (stepDigests s ! i) s m =
        (q, s1, m1)" using prod_cases3 by blast
    then obtain r t s2 where "run_step x i s m = ((r, t), s2, m1)" by (simp add: run_step_def Let_def)
    then have "move x (Ran i r t) s2 m1 (sc, s, m) = (sc', s', m')" using assms(2) CRun by simp
    from moved [OF this] show ?thesis
      using one [OF rlog.runStep_label [OF f [unfolded assms(1)]]] CRun by blast
  next
    case CVerify
    obtain q m1 where f: "missing_images (x_os x) (x_images x) m = (q, m1)" by fastforce
    then have "move x (Verify (filter (\<lambda>i. i \<notin> set q) (x_images x))) s m1 (sc, s, m) = (sc', s', m')"
      using assms(2) CVerify by simp
    from moved [OF this] show ?thesis
      using same rlog.missing_images_written [OF f [unfolded assms(1)]] by metis
  qed (use assms(2) same in \<open>auto dest!: moved\<close>)
qed

section \<open>Properties\<close>


text \<open>A step of the sample build that writes two lines.\<close>

definition talking_host :: host where
  "talking_host h c args = Exits (if List.member args ''--privileged'' then [(True, ''hello'' @ [CHR 0x0A] @ ''world'')] else []) None"

definition talking_executor :: "machine executor" where
  "talking_executor = sample_executor\<lparr>x_os := real_os talking_host (\<lambda>_. 0) (\<lambda>_. ''u'') (\<lambda>_. Some []) (\<lambda>_. 0)\<rparr>"


end
