(* ===== verification/Step_Progress.thy ===== *)
theory Step_Progress
  imports Build_Exec
begin

text \<open>
  The statuses of the steps in the order of their progress: queued, then working, then one of
  the final ones. The order is an instance of the library's class of linear orders (the
  final statuses are ordered by their declaration, which no result depends on). In every
  execution a status only moves up, and a final one does not move.
\<close>

section \<open>The order\<close>

fun rank :: "step_status \<Rightarrow> nat" where
  "rank QUEUED = 0"
| "rank WORKING = 1"
| "rank SUCCESS = 2"
| "rank FAILURE = 3"
| "rank TIMEOUT = 4"
| "rank CANCELLED = 5"

instantiation step_status :: linorder
begin

definition less_eq_step_status :: "step_status \<Rightarrow> step_status \<Rightarrow> bool" where
  "less_eq_step_status a b = (rank a \<le> rank b)"

definition less_step_status :: "step_status \<Rightarrow> step_status \<Rightarrow> bool" where
  "less_step_status a b = (rank a < rank b)"

instance
proof
  fix a b c :: step_status
  show "a < b \<longleftrightarrow> a \<le> b \<and> \<not> b \<le> a" "a \<le> a" "a \<le> b \<or> b \<le> a"
    by (auto simp: less_eq_step_status_def less_step_status_def)
  show "a \<le> b \<Longrightarrow> b \<le> c \<Longrightarrow> a \<le> c" by (simp add: less_eq_step_status_def)
  show "a \<le> b \<Longrightarrow> b \<le> a \<Longrightarrow> a = b" by (cases a; cases b) (simp_all add: less_eq_step_status_def)
qed

end

lemma queued_least [simp]: "QUEUED \<le> st"
  by (simp add: less_eq_step_status_def)

lemma status_after_final: "status_after t d r WORKING = WORKING \<or> WORKING < status_after t d r WORKING"
  by (auto simp: status_after_def less_step_status_def split: option.splits err.splits)

lemma status_after_up: "WORKING \<le> status_after t d r WORKING"
  using status_after_final [of t d r] by (auto dest: less_imp_le)

section \<open>Progress in the scheduler\<close>

text \<open>Upwards, and final statuses stay.\<close>

definition moves_up :: "step_status \<Rightarrow> step_status \<Rightarrow> bool" where
  "moves_up a b \<longleftrightarrow> a \<le> b \<and> (WORKING < a \<longrightarrow> b = a)"

lemma moves_up_refl [simp]: "moves_up a a"
  by (simp add: moves_up_def)

lemma moves_up_trans: "moves_up a b \<Longrightarrow> moves_up b c \<Longrightarrow> moves_up a c"
  by (auto simp: moves_up_def)

lemma moves_up_steps: "moves_up QUEUED WORKING" "moves_up WORKING (status_after t d r WORKING)"
  using status_after_up by (simp_all add: moves_up_def less_step_status_def)

lemma fire_moves_up:
  assumes "reachable cfg s" "fire cfg a s = Some s'"
  shows "moves_up (statuses s ! i) (statuses s' ! i)"
proof -
  note inv = reachable_inv [OF assms(1)]
  have pc: "pc_ok cfg s j" if "j < length (gors s)" for j using inv that by (simp add: sched_inv_def)
  have len: "length (gors s) \<le> length (statuses s)" using inv by (simp add: sched_inv_def)
  show ?thesis
  proof (cases a)
    case (Begin j)
    then have "fire_begin cfg j s = Some s'" using assms(2) by simp
    then have j: "j < length (gors s)" "gors s ! j = Waiting []" "statuses s' = (statuses s)[j := WORKING]"
      by (cases rule: fire_beginE; simp)+
    then have "statuses s ! j = QUEUED" using pc [OF j(1)] by (auto simp: pc_ok_def)
    then show ?thesis using j len moves_up_steps(1) by (cases "j = i") simp_all
  next
    case (Ran j r t)
    then have "fire_ran cfg j r t s = Some s'" using assms(2) by simp
    then obtain d where j: "j < length (gors s)" "gors s ! j = Running"
        "statuses s' = (statuses s)[j := status_after d t r (statuses s ! j)]"
      by (cases rule: fire_ranE) simp
    then have "statuses s ! j = WORKING" using pc [OF j(1)] by (auto simp: pc_ok_def)
    then show ?thesis using j len moves_up_steps(2) by (cases "j = i") simp_all
  qed (use assms(2) in \<open>auto elim!: fire_spawnE fire_see_closedE fire_see_ctxE fire_receiveE fire_verifyE
      fire_passE fire_abandonE fire_fetchedE split: if_splits\<close>)
qed

lemma fires_move_up:
  "reachable cfg s \<Longrightarrow> fires cfg as s = Some s' \<Longrightarrow> moves_up (statuses s ! i) (statuses s' ! i)"
proof (induction as arbitrary: s)
  case (Cons a as)
  then obtain s1 where a: "fire cfg a s = Some s1" "fires cfg as s1 = Some s'" by (auto split: option.splits)
  then show ?case
    using Cons.IH [OF reach_fire [OF Cons.prems(1) a(1)] a(2)] fire_moves_up [OF Cons.prems(1) a(1)] moves_up_trans
    by blast
qed simp

section \<open>Properties\<close>

text \<open>
  C17: The reported status of a step never goes back. If \<open>GetStatus\<close> is called twice while a
  build executes, whatever happens in between, the second answer is for every step the same
  or further on, and a final status is the same in both.
\<close>

theorem reported_status_progress:
  assumes "exec_all x cs (sched_init (cfg_of x), New_build now (Request (x_env x)), w) = (sc1, s1, w1)"
    and "exec_all x ds (sc1, s1, w1) = (sc2, s2, w2)"
  shows "fs_StepStatus (GetStatus s1) ! i \<le> fs_StepStatus (GetStatus s2) ! i \<and>
    (WORKING < fs_StepStatus (GetStatus s1) ! i \<longrightarrow> fs_StepStatus (GetStatus s2) ! i = fs_StepStatus (GetStatus s1) ! i)"
proof -
  have sync: "stepStatus s1 = statuses sc1"
    by (rule exec_all_synced [OF assms(1)]) (simp add: New_build_def sched_init_def cfg_of_def)
  have "stepStatus s2 = statuses sc2" by (rule exec_all_synced [OF assms(2) sync])
  moreover have "reachable (cfg_of x) sc1" using exec_all_fires [OF assms(1)] fires_reachable reach_init by blast
  ultimately have "moves_up (stepStatus s1 ! i) (stepStatus s2 ! i)"
    using exec_all_fires [OF assms(2)] fires_move_up sync by metis
  then show ?thesis by (simp add: moves_up_def GetStatus_def)
qed

theorem reported_status_progress_witness:
  "let st1 = exec_all sample_executor (take 4 sample_choices)
         (sched_init (cfg_of sample_executor), New_build 0 (Request (x_env sample_executor)), idle);
       st2 = exec_all sample_executor (drop 4 sample_choices) st1
   in fs_StepStatus (GetStatus (fst (snd st1))) ! 0 = WORKING \<and> WORKING \<le> fs_StepStatus (GetStatus (fst (snd st2))) ! 0"
proof -
  let ?st1 = "exec_all sample_executor (take 4 sample_choices)
     (sched_init (cfg_of sample_executor), New_build 0 (Request (x_env sample_executor)), idle)"
  let ?st2 = "exec_all sample_executor (drop 4 sample_choices) ?st1"
  have 1: "fs_StepStatus (GetStatus (fst (snd ?st1))) ! 0 = WORKING" by code_simp
  have e1: "?st1 = (fst ?st1, fst (snd ?st1), snd (snd ?st1))" by simp
  have e2: "exec_all sample_executor (drop 4 sample_choices) (fst ?st1, fst (snd ?st1), snd (snd ?st1)) =
     (fst ?st2, fst (snd ?st2), snd (snd ?st2))" by simp
  show ?thesis using reported_status_progress [OF e1 e2, of 0] 1 unfolding Let_def by metis
qed

end
