(* ===== verification/Spec2Isabelle.thy ===== *)
theory Spec2Isabelle
  imports Local_Kms Late_Steps Step_Log Step_Progress
begin

text \<open>
  A model of Cloud Build Local (the Go sources under \<open>src/\<close>) with the theorems that make it
  correct.

  \<^bold>\<open>The program.\<close> The command \<open>localbuilder\<close> runs a Google Cloud Build request on one
  machine. \<open>main\<close> (\<open>localbuilder_main.go\<close>) reads the flags and calls \<open>run\<close>: it removes what an
  earlier build left behind (\<open>common.Clean\<close>), asks gcloud for the project, loads the
  configuration file (package \<open>config\<close>), merges the substitutions of the flag, validates and
  substitutes (\<open>common.SubstituteAndValidate\<close>, packages \<open>validate\<close> and \<open>subst\<close>), prepares the
  volume of the workspace (package \<open>volume\<close>), fetches a token (package \<open>gcloud\<close>), puts it into
  the docker configuration, starts the metadata server (package \<open>metadata\<close>) and starts the
  build (package \<open>build\<close>). The build creates the volumes of the steps, runs one goroutine for
  each step, which waits for its dependencies, pulls its image and runs its container,
  and then pushes images and artifacts (package \<open>gsutil\<close>). Every command goes through the
  interface of package \<open>runner\<close>.

  \<^bold>\<open>How the model corresponds to the code.\<close> Definitions have the names of the Go functions, types
  and fields where Isabelle allows it. A string is a list of bytes as characters; the indices of slices
  are natural numbers; a \<open>time.Duration\<close> is an integer whose 64-bit wrap-around is written
  out in \<open>Duration\<close>; a Go map is a list of pairs with distinct keys, so that results that depend on the
  order of iteration are visible. A returned error is \<open>Inl\<close> or \<open>Some\<close>, a panic is \<open>Panic\<close>
  or \<open>None\<close>, as the text of each theory says. Pointers to slices that Go code shares are
  references into a \<open>store\<close>. An operation that runs commands takes the method \<open>Run\<close> (or the
  record \<open>os\<close>, which adds the clock, the source of fresh names, the decoder of the answers of docker, the
  sleep, the random numbers and the writers of the log) and
  the world, and returns the world after it; the world is a type parameter, and
  \<open>machine\<close> with \<open>RealRunner_Run\<close> is the world of the real runner, with the commands issued
  (\<open>logged\<close>), those that were started (\<open>started\<close>), the time slept (\<open>slept\<close>) and what was
  written to the log of the steps (\<open>printed\<close>). A context is the background one, that of the build
  or one with the timeout of a step on top of it (\<open>ctx\<close>).

  \<^bold>\<open>The theories.\<close>

  \<^item> \<open>Prelude\<close>, \<open>Trim\<close>, \<open>GoPath\<close>, \<open>GoRegexp\<close>, \<open>Base64\<close>, \<open>Duration\<close>, \<open>Float64\<close>: what the program uses of Go's
    standard library and of its numbers. \<open>Float64\<close> has the values of \<open>float64\<close> as rationals, with rounding to
    nearest even, its monotonicity and error. \<open>GoRegexp\<close> has the declarative semantics of patterns, a
    matcher by derivatives and a leftmost-first search with groups, both shown to agree
    with it (locale \<open>regexp_engine\<close>).
  \<^item> \<open>Build_Proto\<close>: the messages of the request (\<open>cloudbuild.pb.go\<close>), with the store for shared
    slices.
  \<^item> \<open>Subst\<close> (\<open>subst/subst.go\<close>): \<open>FindTemplateParameters\<close>, \<open>applyReplacements\<close> and
    \<open>SubstituteBuildFields\<close>; shown equal to recursive expansion (\<open>expand\<close>).
  \<^item> \<open>Validate_Subst\<close>, \<open>Validate_Steps\<close>, \<open>Validate_Env\<close>, \<open>Validate_Volumes\<close>, \<open>Image_Ref\<close>, \<open>Validate\<close>
    (\<open>validate/validate.go\<close>): every check with its limits and errors. For each there is a
    declarative condition and a theorem that the check accepts exactly under it; where the check can
    panic, exactly when.
  \<^item> \<open>Common\<close>, \<open>Common_Tools\<close>, \<open>Backoff\<close> (\<open>common/common.go\<close>): the flag of the substitutions, the pipeline of
    validation and substitution with the contract (\<open>runnable\<close>) it establishes, \<open>Clean\<close>,
    and \<open>RefreshDuration\<close> and \<open>Backoff\<close> with the rounding of their \<open>float64\<close>.
  \<^item> \<open>Config_File\<close> (\<open>config/config.go\<close>), \<open>Gcloud\<close> (\<open>gcloud/gcloud.go\<close>), \<open>Metadata\<close>
    (\<open>metadata/metadata.go\<close>), \<open>Volume\<close> (\<open>volume/volume.go\<close>), \<open>Runner\<close> (\<open>runner/runner.go\<close>, with
    the locale \<open>command_runner\<close>), \<open>Gsutil\<close> (\<open>gsutil/gsutil.go\<close>): one package each.
  \<^item> \<open>Docker_Output\<close>, \<open>Docker_Ops\<close>, \<open>Build_State\<close>, \<open>Kms\<close>, \<open>Build_Args\<close>, \<open>Build_Push\<close>, \<open>Build_Run\<close>
    (\<open>build/build.go\<close>, \<open>build/build_summary.go\<close>): reading the output of docker, pulling and pushing with
    retries, sleeps and the registry credentials, the fields of a \<open>Build\<close> and its summary, the client of
    the key service with the token of its requests, the command line and the environment of a step, pushing, and \<open>Start\<close> with \<open>runBuildSteps\<close> around the
    goroutines of the steps, which are its parameter \<open>core\<close>.
  \<^item> \<open>Build_Sched\<close>, \<open>Sched_Correct\<close>: the goroutines of \<open>runBuildSteps\<close> and \<open>timeAndRunStep\<close> as a transition system: program counters,
    channels, the context and the lock. The invariant \<open>sched_inv\<close> is proved by rule induction
    over \<open>reachable\<close>; order, termination, absence of deadlock and liveness rest on it.
  \<^item> \<open>Build_Exec\<close>, \<open>Step_Progress\<close>, \<open>Build_Shape\<close>: the transition system composed with what the
    goroutines do (status, times, \<open>fetchBuilder\<close>, \<open>runStep\<close>), driven by a list of choices;
    its refinement of the transition system; progress of the statuses (an instance of
    \<open>linorder\<close>); the slices and spans that are written.
    \<open>Late_Steps\<close>: what goroutines still do after \<open>runBuildSteps\<close> has returned. \<open>Step_Log\<close>: the
    labels of the lines that the steps write to the console.
  \<^item> \<open>Frame\<close>: locales for what an operation may do to the world, with two uses: operations only add to
    the commands issued, and a dry run starts nothing.
  \<^item> \<open>Local_Main\<close>, \<open>Local_Correct\<close> (\<open>localbuilder_main.go\<close>): the flags, \<open>run\<close> with its deferred
    calls, a round of refreshing, the prefix of the log lines, and what holds of \<open>run\<close> for
    every core. \<open>Local_Refresh\<close>: the moves of the steps interleaved with rounds of the
    refreshing goroutine. \<open>Local_Kms\<close>: the token that the client of the key service sends meanwhile.
  \<^item> This theory puts the steps into \<open>run\<close> (\<open>core_of\<close>) and states the properties of the whole program.

  \<^bold>\<open>Interfaces.\<close> \<open>command_runner\<close>, \<open>docker_client\<close> and \<open>gsutil_client\<close> extend each other and say
  that a call adds the command to those issued; \<open>waiting_client\<close> adds the time slept and \<open>logging_client\<close> says
  what the writers of the log have received; lemmas about sequences of
  commands are proved in them and used through their interpretations on
  \<open>RealRunner_Run\<close>, \<open>real_os\<close>, \<open>real_files\<close> and \<open>plain_Run\<close>. \<open>run_frame\<close> and \<open>world_frame\<close> lift a
  relation from one call to every operation.

  \<^bold>\<open>Bounds.\<close> No definition has fuel that could run out before the code would stop.
  Loops that are not structural are functions with a measure: \<open>fix_yaml\<close> by the
  depth of the document, the retries by the constant \<open>maxPushRetries\<close> of the code, the
  search loops by the rest of the input. A schedule of the goroutines is a list of choices
  of any length; a choice that is not possible is passed over, and \<open>give_up\<close> ends a list
  that stops before the build has returned, by the cancellation of the build. \<open>spawn_weight\<close>
  gives the bound on the moves of a goroutine: one for each channel it waits for and six more.

  \<^bold>\<open>Parameters.\<close> What is not under \<open>src/\<close> is an argument: what the operating system answers
  to a command (\<open>host\<close>), the clock, random names and numbers, the decoders and encoders of YAML, JSON and
  RFC 3339, the HTTP client and its transport, the file system and the library of the key service. \<open>decodes_maps\<close>, used
  below, says that the decoder of the request fills a Go map, whose keys are
  distinct.

  \<^bold>\<open>Not modelled.\<close> \<open>version.go\<close> and the interface in \<open>logger.go\<close>, which have no operations;
  what only the package \<open>log\<close> prints, with the warning about the version of docker; the order in which lines of the
  main log and lines of steps meet on the console. A nil source of tokens is an
  error of \<open>RoundTrip\<close> instead of a panic (\<open>Kms\<close>); it does not occur. Fused multiplications and additions, which
  some processors use for \<open>Backoff\<close>, are not considered.
  The commands of one operation (a pull with its retries, a round of refreshing)
  are one move of an execution, without the commands of other goroutines between them; rounds
  of refreshing that fall into the set-up of the volumes or into the push are left out, and so are, in
  \<open>run\<close>, the goroutines that are still at work when \<open>runBuildSteps\<close> has returned an error
  (\<open>Late_Steps\<close> follows them).
\<close>

section \<open>The program with its steps\<close>

text \<open>
  The core that \<open>run\<close> of \<open>localbuilder_main.go\<close> uses: the steps of the request under a
  schedule, with the refreshing goroutine unless it is a dry run, and with the files and the
  key service of the surroundings.
\<close>

definition core_of ::
  "flags \<Rightarrow> 'w env \<Rightarrow> exec_env \<Rightarrow> turn list \<Rightarrow> store \<Rightarrow> build \<Rightarrow> string \<Rightarrow> 'w core"
where
  "core_of f env surroundings ts h b vol =
     live_core env (\<not> dryRun f)
       \<lparr>x_os = e_os env, x_env = surroundings\<lparr>Request := b, hostWorkspaceDir := vol, is_local := True, dryrun := dryRun f\<rparr>,
        x_images = deref h (Images b)\<rparr> ts"

text \<open>A validated request has what the scheduler relies on.\<close>

lemma runnable_schedulable:
  assumes "runnable h b" "cfg_steps cfg = Steps b"
  shows "schedulable cfg"
proof -
  have "timeout_within (step_timeout_bound b) s" if "s \<in> set (Steps b)" for s
    using assms(1) that by (simp add: runnable_def)
  then have "\<exists>t. step_timeout s = Inr t" if "s \<in> set (Steps b)" for s
    using that by (fastforce simp: timeout_within_def step_timeout_def split: option.splits)
  then show ?thesis using assms by (simp add: schedulable_def runnable_def)
qed

text \<open>The decoder fills a Go map, whose keys are distinct.\<close>

definition decodes_maps :: "'w env \<Rightarrow> bool" where
  "decodes_maps env \<longleftrightarrow> (\<forall>text b. build_decoder env text = Inr b \<longrightarrow> distinct (map fst (Substitutions b)))"

lemma prepare_runnable:
  assumes "decodes_maps env" "prepare f env w = (Inr (h, b, info), w')"
  shows "runnable h b"
proof -
  obtain q w1 where q: "Clean (Run (e_os env)) Background w = (q, w1)" by fastforce
  obtain e w2 where e: "check_versions f env w1 = (e, w2)" by fastforce
  obtain p w3 where p: "gcloud_ProjectInfo (e_plain env) Background w2 = (p, w3)" by fastforce
  have none: "q = None" "e = None"
    using assms(2) q e by (cases q; cases e; simp add: prepare_def)+
  obtain b0 where b0: "Load (ReadConfig env) (yaml_decoder env) (json_encoder env) (build_decoder env) (configFile f) = Inr b0"
    using assms(2) q e none by (auto simp: prepare_def split: sum.splits)
  define b1 where "b1 = (case p of Inl e \<Rightarrow> b0\<lparr>Id := ''localbuild_'' @ newUUID (e_os env) w2\<rparr>
     | Inr i \<Rightarrow> b0\<lparr>Id := ''localbuild_'' @ newUUID (e_os env) w2, ProjectId := ProjectID i\<rparr>)"
  obtain m x where parsed: "(if substitutions f \<noteq> [] then ParseSubstitutionsFlag (substitutions f) else ([], None)) = (m, x)"
    by fastforce
  have run: "prepare f env w =
      (case x of
         Some e \<Rightarrow> (Inl (Fails (FlagError e)), w3)
       | None \<Rightarrow> (case SubstituteAndValidate (decoder_store env) b1 m of
                    (hb, Some Panic) \<Rightarrow> (Inl Panics, w3)
                  | (hb, Some (Err e)) \<Rightarrow> (Inl (Fails (BuildError e)), w3)
                  | ((h, b), None) \<Rightarrow>
                      (Inr (h, b, case p of Inl e \<Rightarrow> \<lparr>ProjectID = [], ProjectNum = 0\<rparr> | Inr info \<Rightarrow> info), w3)))"
    unfolding prepare_def q prod.case none option.case e b0 sum.case p Let_def parsed b1_def
    by (cases p; cases x) simp_all
  obtain r where r: "SubstituteAndValidate (decoder_store env) b1 m = r" by blast
  have b1: "Substitutions b1 = Substitutions b0" "SubstituteAndValidate (decoder_store env) b1 m = ((h, b), None)"
    using assms(2) unfolding run r by (auto simp: b1_def r split: sum.splits option.splits prod.splits failure.splits)
  have "\<exists>text. build_decoder env text = Inr b0"
    using b0 by (auto simp: Load_def unmarshalBuildTemplate_def split: sum.splits if_splits)
  then have "distinct (map fst (Substitutions b1))" using assms(1) b1(1) by (auto simp: decodes_maps_def)
  then show ?thesis using SubstituteAndValidate_runnable b1(2) by blast
qed

text \<open>A build whose status is done has got no error from its core.\<close>

lemma FailBuild_not_done: "b_status (FailBuild t e s) \<noteq> StatusDone"
  by (simp add: FailBuild_status split: if_splits)

lemma Start_done:
  assumes "keeps_outline push" "Start opts os b core push s w = (s', w')" "b_status s' = StatusDone"
  shows "\<exists>s1 w1 s2 w2. core s1 w1 = (None, s2, w2) \<and> stepStatus s1 = stepStatus s \<and> stepStatus s' = stepStatus s2"
proof -
  obtain q w1 where q: "Setup (Run os) BuildCtx (New homeVolume) w = (q, w1)" by fastforce
  obtain s2 w2 where b: "build_and_push opts os b core push s w1 = (s2, w2)" by fastforce
  have s': "q = None" "b_status s2 = StatusDone" "stepStatus s' = stepStatus s2"
    using assms(2,3) q b FailBuild_not_done by (cases q; auto simp: Start_def Let_def split: if_splits)+
  let ?s = "UpdateStatus (now_of os w1) StatusBuild s"
  obtain r3 s3 w3 where r: "runBuildSteps os b core ?s w1 = (r3, s3, w3)" using prod_cases3 by blast
  obtain r4 s4 w4 where p: "push (UpdateStatus (now_of os w3) StatusPush s3) w3 = (r4, s4, w4)" using prod_cases3 by blast
  have push: "stepStatus s4 = stepStatus s3"
    using assms(1) p unfolding keeps_outline_def by (metis UpdateStatus_simps(8))
  have s3: "r3 = None" "stepStatus s2 = stepStatus s3"
    using b r p s'(2) push FailBuild_not_done
    by (cases r3; cases r4; auto simp: build_and_push_def split: if_splits)+
  obtain q5 vols w5 where v: "setup_volumes (Run os) (step_volumes b) [] [] w1 = (q5, vols, w5)" using prod_cases3 by blast
  let ?s5 = "?s\<lparr>Timing := (Timing ?s)\<lparr>BuildTotal := Some \<lparr>Start_time = now_of os w1, End_time = None\<rparr>,
    BuildSteps := replicate (length (Steps b)) None, BuildStepPulls := replicate (length (Steps b)) None\<rparr>\<rparr>"
  obtain r6 s6 w6 where c: "core ?s5 w5 = (r6, s6, w6)" using prod_cases3 by blast
  have "q5 = None" "r6 = None" "stepStatus s3 = stepStatus s6"
    using r s3(1) v c by (cases q5; auto simp: runBuildSteps_def Let_def end_total_def)+
  then show ?thesis using c s3(2) s'(3) by (intro exI [of _ ?s5] exI [of _ w5] exI [of _ s6] exI [of _ w6]) simp
qed

text \<open>What the core may do is settled by what its steps do.\<close>

lemma core_of_keeps: "keeps_status (core_of f env surroundings ts h b vol)"
  unfolding core_of_def by (rule live_core_keeps)

lemma core_of_quiet:
  assumes "e_os env = real_os host clock uuids json random" "dryRun f"
    and "core_of f env surroundings ts h b vol s m = (r, s', m')"
  shows "quiet m m'"
  using assms(3) unfolding core_of_def by (rule rquiet.R_live_core) (simp_all add: assms(1,2))

lemma core_of_extends:
  assumes "e_os env = real_os host clock uuids json random"
    and "\<forall>verb url body m. logged (snd (e_http env verb url body m)) = logged m"
    and "core_of f env surroundings ts h b vol s m = (r, s', m')"
  shows "\<exists>cs. logged m' = logged m @ cs"
proof -
  have "extends logged m m'"
    using assms(3) unfolding core_of_def
    by (rule rgsutil.adds.R_live_core) (simp_all add: assms(1,2) extends_def)
  then show ?thesis by (simp add: extends_def)
qed

section \<open>Properties of the whole program\<close>


definition sample_surroundings :: exec_env where
  "sample_surroundings = x_env sample_executor"

definition one_step_turns :: "turn list" where
  "one_step_turns = [Moves CSpawn, Moves CSpawn, Moves (CBegin 0), Refreshes, Moves (CFetch 0), Moves (CRun 0),
     Refreshes, Moves CSeeClosed, Moves CVerify]"

lemma sample_env_decodes: "decodes_maps (sample_env host)"
  by (simp add: decodes_maps_def sample_env_def sample_build_def empty_build_def)

definition dry_flags :: flags where "dry_flags = sample_flags\<lparr>dryRun := True\<rparr>"
definition dry_machine :: machine where "dry_machine = idle\<lparr>DryRun := True\<rparr>"

definition dry_result :: "turn list \<Rightarrow> run_result \<times> bld option \<times> machine" where
  "dry_result ts = localbuilder_run dry_flags (sample_env good_host)
     (core_of dry_flags (sample_env good_host) sample_surroundings ts) ''src'' dry_machine"


text \<open>
  C15: A configuration that is accepted cannot hang the scheduler. For the request that
  \<open>prepare\<close> returns, every execution of the goroutines is finite, within a bound computed
  from the steps, and an execution that cannot be continued has returned with no goroutine
  left blocked.
\<close>

theorem accepted_configuration_terminates:
  assumes "prepare f env w = (Inr (h, b, info), w')" "decodes_maps env"
    and "cfg_steps cfg = Steps b" "fires cfg as (sched_init cfg) = Some s"
  shows "length as \<le> 3 + length (Steps b) + sum_list (map (spawn_weight cfg) [0..<length (Steps b)]) \<and>
    ((\<forall>a. fire cfg a s = None) \<longleftrightarrow> final s)"
  using scheduler_bounded [OF runnable_schedulable [OF prepare_runnable [OF assms(2,1)] assms(3)] assms(4)]
  by (simp add: assms(3))

theorem accepted_configuration_terminates_witness:
  "\<exists>h b info m' s. prepare dry_flags (sample_env good_host) dry_machine = (Inr (h, b, info), m') \<and>
     fires \<lparr>cfg_steps = Steps b, cfg_images = []\<rparr> [Spawn] (sched_init \<lparr>cfg_steps = Steps b, cfg_images = []\<rparr>) = Some s \<and>
     \<not> final s \<and> (\<exists>a. fire \<lparr>cfg_steps = Steps b, cfg_images = []\<rparr> a s \<noteq> None)"
proof -
  let ?p = "prepare dry_flags (sample_env good_host) dry_machine"
  let ?cfg = "\<lambda>b. \<lparr>cfg_steps = Steps b, cfg_images = []\<rparr>"
  have "case fst ?p of Inl r \<Rightarrow> False | Inr (h, b, info) \<Rightarrow>
      map_option main_at (fires (?cfg b) [Spawn] (sched_init (?cfg b))) = Some (Spawning 1)" by code_simp
  then obtain h b info s where p: "fst ?p = Inr (h, b, info)"
      and s: "fires (?cfg b) [Spawn] (sched_init (?cfg b)) = Some s" "main_at s = Spawning 1"
    by (auto split: sum.splits prod.splits)
  have p': "?p = (Inr (h, b, info), snd ?p)" using p by (metis prod.collapse)
  have nf: "\<not> final s" using s(2) by (simp add: final_def)
  have "\<exists>a. fire (?cfg b) a s \<noteq> None"
    using accepted_configuration_terminates [OF p' sample_env_decodes _ s(1)] nf by auto
  with p' s(1) nf show ?thesis by blast
qed



text \<open>
  C5: A dry run executes nothing. If the runner is in dry-run mode, the only processes that
  \<open>run\<close> starts are the two gcloud commands that look up the project, whatever the
  configuration file says, under every schedule, and whether images are to be pushed or not.
\<close>

theorem dry_run_executes_nothing:
  assumes "localbuilder_run f env (core_of f env surroundings ts) source m = (r, so, m')" "dryRun f" "DryRun m"
    and "e_os env = real_os host clock uuids json random" "e_fs env = real_files temp rd wr enc" "e_plain env = plain_Run host"
  shows "\<exists>cs p. started m' = started m @ cs \<and> set cs \<subseteq> {project_cmd, describe_cmd p} \<and> length cs \<le> 2"
  by (rule dry_run_any [OF assms]) (metis core_of_quiet [OF assms(4,2)])

theorem dry_run_executes_nothing_witness:
  "let m' = snd (snd (dry_result one_step_turns))
   in started m' = [project_cmd] \<and> 8 < length (logged m') \<and> length (started m') \<le> 2"
proof -
  let ?r = "dry_result one_step_turns"
  have st: "started (snd (snd ?r)) = [project_cmd] \<and> 8 < length (logged (snd (snd ?r)))" by code_simp
  have run: "?r = (fst ?r, fst (snd ?r), snd (snd ?r))" by simp
  have dry: "dryRun dry_flags" "DryRun dry_machine" by (simp_all add: dry_flags_def dry_machine_def)
  from dry_run_executes_nothing [OF run [unfolded dry_result_def] dry sample_env_facts(1-3)]
  have "length (started (snd (snd ?r))) \<le> 2" by (auto simp: dry_machine_def idle_def dry_result_def)
  then show ?thesis using st by (simp add: Let_def)
qed

text \<open>
  C6: What \<open>run\<close> starts for a build it stops again. Once the build has been reached, the last
  commands are: the metadata server is removed (if it was started) and the network; then the
  workspace is exported, if this was asked for, and the volume of the workspace is removed,
  after its helper container. Only a bind-mounted workspace is left alone.
\<close>

theorem run_cleans_up:
  assumes "localbuilder_run f env (core_of f env surroundings ts) source m = (r, Some s, m')" "\<not> dryRun f"
    and "e_os env = real_os host clock uuids json random" "e_fs env = real_files temp rd wr enc" "e_plain env = plain_Run host"
    and "\<forall>verb url body m. logged (snd (e_http env verb url body m)) = logged m"
  shows "\<exists>cs rest. logged m' = logged m @ cs @
       (if OnGCE env then [network_rm_cmd] else [server_rm_cmd, network_rm_cmd]) @ rest \<and>
     (rest = [] \<and> bindMountSource f \<or>
      (\<exists>v. create_cmd v \<in> set (logged m @ cs) \<and> closing_commands (writeWorkspace f) v rest))"
proof (rule run_cleans_up_any [OF assms])
  show "\<forall>h b v. keeps_status (core_of f env surroundings ts h b v)" by (simp add: core_of_keeps)
  show "\<forall>h b v s m r s' m'. core_of f env surroundings ts h b v s m = (r, s', m') \<longrightarrow> (\<exists>cs. logged m' = logged m @ cs)"
    using core_of_extends [OF assms(3,6)] by blast
qed

theorem run_cleans_up_witness:
  "\<exists>m' cs rest. snd (snd (localbuilder_run sample_flags (sample_env good_host)
       (core_of sample_flags (sample_env good_host) sample_surroundings one_step_turns) ''src'' idle)) = m' \<and>
     logged m' = cs @ [server_rm_cmd, network_rm_cmd] @ rest \<and> rest \<noteq> []"
proof -
  let ?core = "core_of sample_flags (sample_env good_host) sample_surroundings one_step_turns"
  obtain r s m' where run: "localbuilder_run sample_flags (sample_env good_host) ?core ''src'' idle = (r, Some s, m')"
    using sample_reaches_build by blast
  have f: "\<not> dryRun sample_flags" "\<not> OnGCE (sample_env good_host)" "\<not> bindMountSource sample_flags"
    by (simp_all add: sample_flags_def sample_env_def)
  have http: "\<forall>verb url body m. logged (snd (e_http (sample_env good_host) verb url body m)) = logged m"
    by (simp add: sample_env_facts)
  from run_cleans_up [OF run f(1) sample_env_facts(1-3) http] f(2,3)
  obtain cs rest v where "logged m' = cs @ [server_rm_cmd, network_rm_cmd] @ rest" "closing_commands (writeWorkspace sample_flags) v rest"
    by (auto simp: idle_def)
  moreover from this(2) have "rest \<noteq> []" by (auto simp: closing_commands_def)
  ultimately show ?thesis using run by auto
qed

end
